(* ===== verification/Prelude.thy ===== *)
theory Prelude
  imports Main "HOL-Library.Word" "HOL-Library.Sublist"
begin

unbundle bit_operations_syntax

text \<open>
  What the components share: the names of the machine integer types the C code
  uses, the error numbers it sets, the kernel's answers to a system call that the
  code retries on \<open>EINTR\<close>, and the arithmetic of a power-of-two ring index on
  64-bit words (\<open>position & (capacity - 1)\<close> is \<open>position mod capacity\<close>, also
  where the 64-bit position wraps around).
\<close>

section \<open>Machine integers and errors\<close>

type_synonym u8 = "8 word"
type_synonym u16 = "16 word"
type_synonym u32 = "32 word"
type_synonym u64 = "64 word"

text \<open>
  The error numbers the code sets or compares with; every other value of
  \<open>errno\<close> is \<open>EOTHER\<close>, but for \<open>EINTR\<close>, which is an interrupted
  \<open>syscall\<close> (below).
\<close>

datatype errno =
    EINVAL | EOVERFLOW | EAGAIN | ENOBUFS | EPIPE | ECONNRESET
  | EPROTO | ENODEV | EIO | E2BIG | EMSGSIZE | EACCES | ENAMETOOLONG | EEXIST | ENOMEM
  | ENOENT | ECONNREFUSED | EOTHER nat

text \<open>On Linux the two names are one number.\<close>

abbreviation EWOULDBLOCK :: errno where "EWOULDBLOCK \<equiv> EAGAIN"

text \<open>
  One system call the code issues again while it fails with \<open>EINTR\<close>: what the
  kernel answers on the successive attempts. A value of this type is a call that is
  interrupted finitely often and then answers with a return value or an error.
\<close>

datatype syscall = Interrupted syscall | Returned int | Failed errno

fun retry_eintr :: "syscall \<Rightarrow> syscall" where
  "retry_eintr (Interrupted again) = retry_eintr again"
| "retry_eintr (Returned n) = Returned n"
| "retry_eintr (Failed e) = Failed e"

lemma retry_eintr_cases: "(\<exists>n. retry_eintr c = Returned n) \<or> (\<exists>e. retry_eintr c = Failed e)"
  by (induction c rule: retry_eintr.induct) auto

section \<open>Hints collected by the components\<close>

named_theorems frame_simps \<open>what an operation leaves unchanged\<close>
named_theorems ring_intros \<open>preservation of the ring's invariants\<close>

section \<open>Word arithmetic of ring positions\<close>

lemma unat_add_small [simp]:
  fixes a b :: "'a::len word"
  assumes "unat a + unat b < 2 ^ LENGTH('a)"
  shows "unat (a + b) = unat a + unat b"
  using assms by (simp add: unat_word_ariths)

lemma unat_less_pow:
  fixes a :: "'a::len word"
  shows "unat a < 2 ^ LENGTH('a)"
  by (rule unsigned_less)

lemma unat_ucast_u64 [simp]: "unat (ucast (w :: u32) :: u64) = unat w"
proof -
  have "unat w < 2 ^ 64" using unat_less_pow [of w] by simp
  then show ?thesis by (simp add: unsigned_ucast_eq take_bit_nat_eq_self_iff)
qed

lemma unat_sub_le:
  fixes a b :: "'a::len word"
  assumes "b \<le> a"
  shows "unat (a - b) = unat a - unat b"
  using assms by (simp add: unat_sub)

lemma unat_Suc_small:
  fixes a :: "'a::len word"
  assumes "unat a + 1 < 2 ^ LENGTH('a)"
  shows "unat (a + 1) = unat a + 1"
  using assms by (simp add: unat_word_ariths)

lemma unat_of_nat_index: "j < 2 ^ 64 \<Longrightarrow> unat (of_nat j :: u64) = j"
  by (simp add: unat_of_nat take_bit_nat_eq_self_iff)

text \<open>\<open>if (available > max_records) available = max_records\<close>.\<close>

lemma word_clip:
  fixes a b :: "'a::len word"
  shows "(if a > b then b else a) = of_nat (min (unat b) (unat a))"
proof (cases "a > b")
  case True
  then show ?thesis by (simp add: word_less_nat_alt)
next
  case False
  then have "min (unat b) (unat a) = unat a" by (simp add: word_less_nat_alt)
  with False show ?thesis by simp
qed

lemma unat_word_clip:
  fixes a b :: "'a::len word"
  shows "unat (of_nat (min (unat b) (unat a)) :: 'a word) = min (unat b) (unat a)"
  by (auto simp: min_def)

lemma mod_pow2_pow2:
  fixes n :: nat
  assumes "k \<le> l"
  shows "n mod 2 ^ l mod 2 ^ k = n mod 2 ^ k"
  using assms by (simp add: le_imp_power_dvd mod_mod_cancel)

text \<open>The low-bits mask of a power of two takes a word modulo that power.\<close>

lemma unat_and_mask:
  fixes w :: "'a::len word"
  shows "unat (w AND mask k) = unat w mod 2 ^ k"
  by (metis take_bit_eq_mask take_bit_eq_mod unsigned_take_bit_eq)

lemma unat_add_of_nat_mod:
  fixes t :: "'a::len word"
  assumes "k \<le> LENGTH('a)"
  shows "unat (t + of_nat i) mod 2 ^ k = (unat t + i) mod 2 ^ k"
proof -
  have "unat (t + of_nat i) = (unat t + i) mod 2 ^ LENGTH('a)"
    by (simp add: unat_word_ariths unat_of_nat take_bit_eq_mod mod_simps)
  then show ?thesis
    using assms by (simp add: mod_pow2_pow2)
qed

text \<open>Positions less than one period apart have different residues.\<close>

lemma mod_eq_imp_eq_window:
  fixes a b c :: nat
  assumes "a mod c = b mod c" "a \<le> b" "b < a + c"
  shows "a = b"
proof -
  from assms(1,2) have "c dvd b - a"
    using mod_eq_dvd_iff_nat [of a b c] by simp
  with assms(2) obtain q where "b = a + c * q"
    by (metis dvdE le_add_diff_inverse)
  with assms(3) show ?thesis by (cases q) auto
qed

lemma mod_add_eq_imp_eq:
  fixes t i j c :: nat
  assumes "(t + i) mod c = (t + j) mod c" "i < c" "j < c"
  shows "i = j"
  using assms mod_eq_imp_eq_window [of "t + i" c "t + j"]
    mod_eq_imp_eq_window [of "t + j" c "t + i"]
  by (cases "i \<le> j") auto

text \<open>A number whose predecessor shares no bit with it is a power of two.\<close>

lemma bit_and_Suc_nat:
  fixes a b :: nat
  shows "bit (a AND b) (Suc j) = (bit (a div 2) j \<and> bit (b div 2) j)"
  by (metis bit_and_iff bit_Suc)

lemma nat_and_pred_zero_pow2:
  fixes n :: nat
  assumes "0 < n" "n AND (n - 1) = 0"
  shows "\<exists>k. n = 2 ^ k"
  using assms
proof (induction n rule: less_induct)
  case (less n)
  show ?case
  proof (cases "even n")
    case True
    then obtain m where m: "n = 2 * m" by blast
    with less.prems have m0: "0 < m" by simp
    have "n AND (n - 1) = 2 * (m AND (m - 1))"
    proof (rule bit_eqI)
      fix i
      show "bit (n AND (n - 1)) i = bit (2 * (m AND (m - 1))) i"
      proof (cases i)
        case 0
        then show ?thesis using m by (simp add: bit_simps)
      next
        case (Suc j)
        have "(n - 1) div 2 = m - 1" using m m0 by simp
        moreover have "bit (2 * (m AND (m - 1))) (Suc j) = bit (m AND (m - 1)) j"
          by (simp add: bit_Suc)
        ultimately show ?thesis
          using m by (simp only: Suc bit_and_iff) (simp add: bit_Suc)
      qed
    qed
    with less.prems have "m AND (m - 1) = 0" by simp
    with less.IH [of m] m m0 obtain k where "m = 2 ^ k" by auto
    with m have "n = 2 ^ Suc k" by simp
    then show ?thesis by blast
  next
    case False
    then obtain m where m: "n = 2 * m + 1" by (metis oddE)
    have "n AND (n - 1) = 2 * m"
    proof (rule bit_eqI)
      fix i
      show "bit (n AND (n - 1)) i = bit (2 * m) i"
        by (cases i) (simp_all only: bit_and_Suc_nat, simp_all add: m bit_simps bit_Suc)
    qed
    with less.prems m have "n = 2 ^ 0" by simp
    then show ?thesis by blast
  qed
qed

lemma nat_pow2_and_pred: "(2 ^ k :: nat) AND (2 ^ k - 1) = 0"
proof -
  have "(2 ^ k :: nat) AND mask k = take_bit k (2 ^ k)"
    by (simp add: take_bit_eq_mask)
  then show ?thesis by (simp add: mask_eq_exp_minus_1 take_bit_eq_mod)
qed

end
