(* ===== verification/Abi.thy ===== *)
theory Abi
  imports Prelude
begin

text \<open>
  The shared-memory and control-message ABI of \<open>include/hfior/abi.h\<close>: the 32-byte
  observation record, the parts of the ring header, the control messages, and the byte
  layout the C compiler gives these structs on a little-endian host (the reference
  code is x86). A struct is a record with the source's fields; what a socket carries is
  a list of bytes, so every message has an encoder and a decoder, and the lemmas show
  that decoding inverts encoding and that the lengths are the ones the source's
  \<open>_Static_assert\<close>s and \<open>sizeof\<close>s promise.
\<close>

section \<open>Constants\<close>

definition HFIOR_ABI_VERSION :: u32 where "HFIOR_ABI_VERSION = 2"
definition HFIOR_MAGIC :: u64 where "HFIOR_MAGIC = 0x4846494f52563031"
definition HFIOR_MAX_DEVICE_NAME :: nat where "HFIOR_MAX_DEVICE_NAME = 96"

definition HFIOR_FEAT_KERNEL_EVENT_TIME :: u64 where "HFIOR_FEAT_KERNEL_EVENT_TIME = push_bit 0 1"
definition HFIOR_FEAT_MONOTONIC_CLOCK :: u64 where "HFIOR_FEAT_MONOTONIC_CLOCK = push_bit 1 1"
definition HFIOR_FEAT_URGENT_EVENTFD :: u64 where "HFIOR_FEAT_URGENT_EVENTFD = push_bit 2 1"
definition HFIOR_FEAT_EAGER_REFERENCE :: u64 where "HFIOR_FEAT_EAGER_REFERENCE = push_bit 3 1"
definition HFIOR_FEAT_SYNTHETIC_SOURCE :: u64 where "HFIOR_FEAT_SYNTHETIC_SOURCE = push_bit 4 1"
definition HFIOR_FEAT_DEVICE_GENERATION :: u64 where "HFIOR_FEAT_DEVICE_GENERATION = push_bit 5 1"
definition HFIOR_FEAT_DROP_ACCOUNTING :: u64 where "HFIOR_FEAT_DROP_ACCOUNTING = push_bit 6 1"
definition HFIOR_FEAT_READ_ONLY_RING :: u64 where "HFIOR_FEAT_READ_ONLY_RING = push_bit 7 1"
definition HFIOR_FEAT_ACK_PROGRESS :: u64 where "HFIOR_FEAT_ACK_PROGRESS = push_bit 8 1"
definition HFIOR_FEAT_START_BARRIER :: u64 where "HFIOR_FEAT_START_BARRIER = push_bit 9 1"

definition HFIOR_RECORD_MOTION :: u16 where "HFIOR_RECORD_MOTION = push_bit 0 1"
definition HFIOR_RECORD_BUTTON :: u16 where "HFIOR_RECORD_BUTTON = push_bit 1 1"
definition HFIOR_RECORD_WHEEL :: u16 where "HFIOR_RECORD_WHEEL = push_bit 2 1"
definition HFIOR_RECORD_SYN_DROPPED :: u16 where "HFIOR_RECORD_SYN_DROPPED = push_bit 3 1"
definition HFIOR_RECORD_DEVICE_GONE :: u16 where "HFIOR_RECORD_DEVICE_GONE = push_bit 4 1"
definition HFIOR_RECORD_DEVICE_READY :: u16 where "HFIOR_RECORD_DEVICE_READY = push_bit 5 1"
definition HFIOR_RECORD_OVERFLOW :: u16 where "HFIOR_RECORD_OVERFLOW = push_bit 6 1"
definition HFIOR_RECORD_TERMINATE :: u16 where "HFIOR_RECORD_TERMINATE = push_bit 7 1"

lemmas record_flag_defs =
  HFIOR_RECORD_MOTION_def HFIOR_RECORD_BUTTON_def HFIOR_RECORD_WHEEL_def
  HFIOR_RECORD_SYN_DROPPED_def HFIOR_RECORD_DEVICE_GONE_def HFIOR_RECORD_DEVICE_READY_def
  HFIOR_RECORD_OVERFLOW_def HFIOR_RECORD_TERMINATE_def

definition HFIOR_BUTTON_LEFT :: u16 where "HFIOR_BUTTON_LEFT = push_bit 0 1"
definition HFIOR_BUTTON_RIGHT :: u16 where "HFIOR_BUTTON_RIGHT = push_bit 1 1"
definition HFIOR_BUTTON_MIDDLE :: u16 where "HFIOR_BUTTON_MIDDLE = push_bit 2 1"
definition HFIOR_BUTTON_SIDE :: u16 where "HFIOR_BUTTON_SIDE = push_bit 3 1"
definition HFIOR_BUTTON_EXTRA :: u16 where "HFIOR_BUTTON_EXTRA = push_bit 4 1"
definition HFIOR_BUTTON_FORWARD :: u16 where "HFIOR_BUTTON_FORWARD = push_bit 5 1"
definition HFIOR_BUTTON_BACK :: u16 where "HFIOR_BUTTON_BACK = push_bit 6 1"
definition HFIOR_BUTTON_TASK :: u16 where "HFIOR_BUTTON_TASK = push_bit 7 1"
definition HFIOR_BUTTON_8 :: u16 where "HFIOR_BUTTON_8 = push_bit 8 1"
definition HFIOR_BUTTON_9 :: u16 where "HFIOR_BUTTON_9 = push_bit 9 1"

lemmas button_bit_defs =
  HFIOR_BUTTON_LEFT_def HFIOR_BUTTON_RIGHT_def HFIOR_BUTTON_MIDDLE_def HFIOR_BUTTON_SIDE_def
  HFIOR_BUTTON_EXTRA_def HFIOR_BUTTON_FORWARD_def HFIOR_BUTTON_BACK_def HFIOR_BUTTON_TASK_def
  HFIOR_BUTTON_8_def HFIOR_BUTTON_9_def

definition HFIOR_MSG_HELLO :: u32 where "HFIOR_MSG_HELLO = 1"
definition HFIOR_MSG_SET_MODE :: u32 where "HFIOR_MSG_SET_MODE = 2"
definition HFIOR_MSG_EAGER_RECORD :: u32 where "HFIOR_MSG_EAGER_RECORD = 3"
definition HFIOR_MSG_DEVICE_STATE :: u32 where "HFIOR_MSG_DEVICE_STATE = 4"
definition HFIOR_MSG_STOP :: u32 where "HFIOR_MSG_STOP = 5"
definition HFIOR_MSG_PING :: u32 where "HFIOR_MSG_PING = 6"
definition HFIOR_MSG_PONG :: u32 where "HFIOR_MSG_PONG = 7"
definition HFIOR_MSG_ACK :: u32 where "HFIOR_MSG_ACK = 8"
definition HFIOR_MSG_START :: u32 where "HFIOR_MSG_START = 9"
definition HFIOR_MSG_STARTED :: u32 where "HFIOR_MSG_STARTED = 10"

lemmas message_type_defs =
  HFIOR_MSG_HELLO_def HFIOR_MSG_SET_MODE_def HFIOR_MSG_EAGER_RECORD_def
  HFIOR_MSG_DEVICE_STATE_def HFIOR_MSG_STOP_def HFIOR_MSG_PING_def HFIOR_MSG_PONG_def
  HFIOR_MSG_ACK_def HFIOR_MSG_START_def HFIOR_MSG_STARTED_def

definition HFIOR_MODE_HFIOR :: u32 where "HFIOR_MODE_HFIOR = 1"
definition HFIOR_MODE_EAGER_THREAD :: u32 where "HFIOR_MODE_EAGER_THREAD = 2"
definition HFIOR_MODE_EAGER_FRAME :: u32 where "HFIOR_MODE_EAGER_FRAME = 3"

lemmas mode_defs = HFIOR_MODE_HFIOR_def HFIOR_MODE_EAGER_THREAD_def HFIOR_MODE_EAGER_FRAME_def

section \<open>The record and the ring header\<close>

text \<open>
  Signed fields (\<open>dx\<close>, \<open>dy\<close>, \<open>wheel\<close>, \<open>hwheel\<close>) are words read with \<open>sint\<close>.
\<close>

record hfior_record =
  r_sequence :: u64
  r_timestamp_ns :: u64
  r_dx :: u32
  r_dy :: u32
  r_wheel :: u16
  r_hwheel :: u16
  r_buttons :: u16
  r_flags :: u16

definition zero_record :: hfior_record where
  "zero_record = \<lparr>r_sequence = 0, r_timestamp_ns = 0, r_dx = 0, r_dy = 0,
     r_wheel = 0, r_hwheel = 0, r_buttons = 0, r_flags = 0\<rparr>"

text \<open>\<open>record->flags & flag\<close> as a condition.\<close>

definition has_flag :: "hfior_record \<Rightarrow> u16 \<Rightarrow> bool" where
  "has_flag r flag \<longleftrightarrow> r_flags r AND flag \<noteq> 0"

text \<open>\<open>device_name\<close> is the C string the 96-byte array holds.\<close>

record hfior_ring_metadata =
  md_magic :: u64
  md_abi_version :: u32
  md_header_size :: u32
  md_record_size :: u32
  md_capacity :: u32
  md_features :: u64
  md_source_clock_id :: u32
  md_input_bustype :: u16
  md_input_vendor :: u16
  md_input_product :: u16
  md_input_version :: u16
  md_device_name :: string

record hfior_producer_line =
  pl_head :: u64
  pl_next_sequence :: u64
  pl_dropped_newest :: u64
  pl_eager_send_drops :: u64
  pl_generation :: u64
  pl_heartbeat_ns :: u64
  pl_urgent_writes :: u64

record hfior_consumer_line =
  cl_tail :: u64
  cl_deadline_ns :: u64
  cl_heartbeat_ns :: u64
  cl_drains :: u64
  cl_records_consumed :: u64
  cl_generation_seen :: u64

record hfior_stats_line =
  sl_records_published :: u64
  sl_motion_frames :: u64
  sl_button_frames :: u64
  sl_wheel_frames :: u64
  sl_syn_dropped_frames :: u64
  sl_device_reconnects :: u64
  sl_eager_packets_sent :: u64

text \<open>
  The mapping: the header and the array of record slots that starts \<open>header_size\<close>
  bytes after its address (\<open>hfior_records\<close>, \<open>hfior_records_const\<close>).
\<close>

record hfior_ring_header =
  metadata :: hfior_ring_metadata
  producer :: hfior_producer_line
  consumer :: hfior_consumer_line
  stats :: hfior_stats_line
  slots :: "hfior_record list"

definition sizeof_ring_header :: nat where "sizeof_ring_header = 384"
definition sizeof_record :: nat where "sizeof_record = 32"

section \<open>Control messages\<close>

record hfior_message_header =
  mh_type :: u32
  mh_size :: u32

record hfior_hello_message =
  hello_header :: hfior_message_header
  hello_abi_version :: u32
  hello_capacity :: u32
  hello_generation :: u64
  hello_features :: u64
  hello_producer_pid :: u32
  hello_reserved :: u32

record hfior_set_mode_message =
  sm_header :: hfior_message_header
  sm_mode :: u32
  sm_consumer_hz :: u32
  sm_requested_deadline_ns :: u64

record hfior_eager_record_message =
  er_header :: hfior_message_header
  er_generation :: u64
  er_record :: hfior_record

record hfior_ack_message =
  ack_header :: hfior_message_header
  ack_generation :: u64
  ack_consumed_tail :: u64

record hfior_device_state_message =
  ds_header :: hfior_message_header
  ds_generation :: u64
  ds_state_flags :: u32
  ds_reserved :: u32

definition sizeof_message_header :: nat where "sizeof_message_header = 8"
definition sizeof_hello_message :: nat where "sizeof_hello_message = 40"
definition sizeof_set_mode_message :: nat where "sizeof_set_mode_message = 24"
definition sizeof_eager_record_message :: nat where "sizeof_eager_record_message = 48"
definition sizeof_ack_message :: nat where "sizeof_ack_message = 24"
definition sizeof_device_state_message :: nat where "sizeof_device_state_message = 24"

lemmas sizeof_defs =
  sizeof_ring_header_def sizeof_record_def sizeof_message_header_def sizeof_hello_message_def
  sizeof_set_mode_message_def sizeof_eager_record_message_def sizeof_ack_message_def
  sizeof_device_state_message_def

section \<open>Byte layout\<close>

text \<open>Little-endian bytes of a number, and the number they stand for.\<close>

fun le_bytes :: "nat \<Rightarrow> nat \<Rightarrow> u8 list" where
  "le_bytes 0 x = []"
| "le_bytes (Suc n) x = word_of_nat x # le_bytes n (x div 256)"

fun le_value :: "u8 list \<Rightarrow> nat" where
  "le_value [] = 0"
| "le_value (b # bs) = unat b + 256 * le_value bs"

lemma length_le_bytes [simp]: "length (le_bytes n x) = n"
  by (induction n arbitrary: x) simp_all

lemma le_value_bytes: "le_value (le_bytes n x) = x mod 256 ^ n"
proof (induction n arbitrary: x)
  case 0
  show ?case by simp
next
  case (Suc n)
  have "unat (word_of_nat x :: u8) = x mod 256"
    by (simp add: unat_of_nat)
  then show ?case
    by (simp add: Suc.IH mod_mult2_eq)
qed

definition put_u16 :: "u16 \<Rightarrow> u8 list" where "put_u16 w = le_bytes 2 (unat w)"
definition put_u32 :: "u32 \<Rightarrow> u8 list" where "put_u32 w = le_bytes 4 (unat w)"
definition put_u64 :: "u64 \<Rightarrow> u8 list" where "put_u64 w = le_bytes 8 (unat w)"

definition get_u16 :: "nat \<Rightarrow> u8 list \<Rightarrow> u16" where
  "get_u16 off bs = word_of_nat (le_value (take 2 (drop off bs)))"
definition get_u32 :: "nat \<Rightarrow> u8 list \<Rightarrow> u32" where
  "get_u32 off bs = word_of_nat (le_value (take 4 (drop off bs)))"
definition get_u64 :: "nat \<Rightarrow> u8 list \<Rightarrow> u64" where
  "get_u64 off bs = word_of_nat (le_value (take 8 (drop off bs)))"

lemma length_put [simp]:
  "length (put_u16 a) = 2" "length (put_u32 b) = 4" "length (put_u64 c) = 8"
  by (simp_all add: put_u16_def put_u32_def put_u64_def)

lemma le_value_put [simp]:
  "le_value (put_u16 a) = unat a" "le_value (put_u32 b) = unat b" "le_value (put_u64 c) = unat c"
  using unat_less_pow [of a] unat_less_pow [of b] unat_less_pow [of c]
  by (simp_all add: put_u16_def put_u32_def put_u64_def le_value_bytes)

lemma get_put [simp]:
  "length xs = off \<Longrightarrow> get_u16 off (xs @ put_u16 a @ ys) = a"
  "length xs = off \<Longrightarrow> get_u32 off (xs @ put_u32 b @ ys) = b"
  "length xs = off \<Longrightarrow> get_u64 off (xs @ put_u64 c @ ys) = c"
  by (simp_all add: get_u16_def get_u32_def get_u64_def)

lemmas get_defs = get_u16_def get_u32_def get_u64_def

subsection \<open>Encoders and decoders\<close>

definition encode_record :: "hfior_record \<Rightarrow> u8 list" where
  "encode_record r =
     put_u64 (r_sequence r) @ put_u64 (r_timestamp_ns r) @ put_u32 (r_dx r) @ put_u32 (r_dy r) @
     put_u16 (r_wheel r) @ put_u16 (r_hwheel r) @ put_u16 (r_buttons r) @ put_u16 (r_flags r)"

definition decode_record :: "u8 list \<Rightarrow> hfior_record" where
  "decode_record bs = \<lparr>r_sequence = get_u64 0 bs, r_timestamp_ns = get_u64 8 bs,
     r_dx = get_u32 16 bs, r_dy = get_u32 20 bs, r_wheel = get_u16 24 bs,
     r_hwheel = get_u16 26 bs, r_buttons = get_u16 28 bs, r_flags = get_u16 30 bs\<rparr>"

definition encode_message_header :: "hfior_message_header \<Rightarrow> u8 list" where
  "encode_message_header h = put_u32 (mh_type h) @ put_u32 (mh_size h)"

definition decode_message_header :: "u8 list \<Rightarrow> hfior_message_header" where
  "decode_message_header bs = \<lparr>mh_type = get_u32 0 bs, mh_size = get_u32 4 bs\<rparr>"

definition encode_hello :: "hfior_hello_message \<Rightarrow> u8 list" where
  "encode_hello m = encode_message_header (hello_header m) @ put_u32 (hello_abi_version m) @
     put_u32 (hello_capacity m) @ put_u64 (hello_generation m) @ put_u64 (hello_features m) @
     put_u32 (hello_producer_pid m) @ put_u32 (hello_reserved m)"

definition decode_hello :: "u8 list \<Rightarrow> hfior_hello_message" where
  "decode_hello bs = \<lparr>hello_header = decode_message_header bs, hello_abi_version = get_u32 8 bs,
     hello_capacity = get_u32 12 bs, hello_generation = get_u64 16 bs,
     hello_features = get_u64 24 bs, hello_producer_pid = get_u32 32 bs,
     hello_reserved = get_u32 36 bs\<rparr>"

definition encode_set_mode :: "hfior_set_mode_message \<Rightarrow> u8 list" where
  "encode_set_mode m = encode_message_header (sm_header m) @ put_u32 (sm_mode m) @
     put_u32 (sm_consumer_hz m) @ put_u64 (sm_requested_deadline_ns m)"

definition decode_set_mode :: "u8 list \<Rightarrow> hfior_set_mode_message" where
  "decode_set_mode bs = \<lparr>sm_header = decode_message_header bs, sm_mode = get_u32 8 bs,
     sm_consumer_hz = get_u32 12 bs, sm_requested_deadline_ns = get_u64 16 bs\<rparr>"

definition encode_eager_record :: "hfior_eager_record_message \<Rightarrow> u8 list" where
  "encode_eager_record m =
     encode_message_header (er_header m) @ put_u64 (er_generation m) @ encode_record (er_record m)"

definition decode_eager_record :: "u8 list \<Rightarrow> hfior_eager_record_message" where
  "decode_eager_record bs = \<lparr>er_header = decode_message_header bs,
     er_generation = get_u64 8 bs, er_record = decode_record (drop 16 bs)\<rparr>"

definition encode_ack :: "hfior_ack_message \<Rightarrow> u8 list" where
  "encode_ack m = encode_message_header (ack_header m) @
     put_u64 (ack_generation m) @ put_u64 (ack_consumed_tail m)"

definition decode_ack :: "u8 list \<Rightarrow> hfior_ack_message" where
  "decode_ack bs = \<lparr>ack_header = decode_message_header bs,
     ack_generation = get_u64 8 bs, ack_consumed_tail = get_u64 16 bs\<rparr>"

definition encode_device_state :: "hfior_device_state_message \<Rightarrow> u8 list" where
  "encode_device_state m = encode_message_header (ds_header m) @ put_u64 (ds_generation m) @
     put_u32 (ds_state_flags m) @ put_u32 (ds_reserved m)"

definition decode_device_state :: "u8 list \<Rightarrow> hfior_device_state_message" where
  "decode_device_state bs = \<lparr>ds_header = decode_message_header bs,
     ds_generation = get_u64 8 bs, ds_state_flags = get_u32 16 bs, ds_reserved = get_u32 20 bs\<rparr>"

lemmas encode_defs =
  encode_record_def encode_message_header_def encode_hello_def encode_set_mode_def
  encode_eager_record_def encode_ack_def encode_device_state_def

lemmas decode_defs =
  decode_record_def decode_message_header_def decode_hello_def decode_set_mode_def
  decode_eager_record_def decode_ack_def decode_device_state_def

lemma length_encode [simp]:
  "length (encode_record r) = 32"
  "length (encode_message_header h) = 8"
  "length (encode_hello hello) = 40"
  "length (encode_set_mode sm) = 24"
  "length (encode_eager_record er) = 48"
  "length (encode_ack ack) = 24"
  "length (encode_device_state ds) = 24"
  by (simp_all add: encode_defs)

text \<open>The first eight bytes of every message are its header, whatever follows.\<close>

lemma decode_header_append [simp]:
  "decode_message_header (encode_message_header h @ rest) = h"
  by (simp add: decode_message_header_def encode_message_header_def get_defs)

lemma decode_encode_record [simp]: "decode_record (encode_record r) = r"
  by (simp add: encode_record_def decode_record_def get_defs)

lemma decode_encode_hello [simp]: "decode_hello (encode_hello m) = m"
  by (simp add: encode_hello_def decode_hello_def)
     (simp add: encode_message_header_def get_defs)

lemma decode_encode_set_mode [simp]: "decode_set_mode (encode_set_mode m) = m"
  by (simp add: encode_set_mode_def decode_set_mode_def)
     (simp add: encode_message_header_def get_defs)

lemma decode_encode_eager_record [simp]: "decode_eager_record (encode_eager_record m) = m"
  by (simp add: encode_eager_record_def decode_eager_record_def)

lemma decode_encode_ack [simp]: "decode_ack (encode_ack m) = m"
  by (simp add: encode_ack_def decode_ack_def)
     (simp add: encode_message_header_def get_defs)

lemma decode_encode_device_state [simp]: "decode_device_state (encode_device_state m) = m"
  by (simp add: encode_device_state_def decode_device_state_def)
     (simp add: encode_message_header_def get_defs)

section \<open>Properties\<close>

lemma decode_header_message:
  "decode_message_header (encode_hello m1) = hello_header m1"
  "decode_message_header (encode_set_mode m2) = sm_header m2"
  "decode_message_header (encode_eager_record m3) = er_header m3"
  "decode_message_header (encode_ack m4) = ack_header m4"
  "decode_message_header (encode_device_state m5) = ds_header m5"
  by (simp_all add: encode_hello_def encode_set_mode_def encode_eager_record_def encode_ack_def
      encode_device_state_def)


end
