(* ===== verification/Interfaces.thy ===== *)
theory Interfaces
  imports Prelude
begin

text \<open>
  The contracts the components rely on, each a locale whose \<open>fixes\<close> are the operations
  a client calls and whose \<open>assumes\<close> are what the provider promises, with the clients'
  lemmas proved once. \<open>bounded_fifo\<close> is the producer and consumer view of a bounded
  queue that refuses the newest element when it is full; \<open>snapshot_log\<close> is the view
  of a read-only consumer with a private cursor on an append-only log of which only the
  newest entries are retained. \<open>Ring\<close> interprets both on the code's ring.
\<close>

section \<open>A bounded first-in first-out queue\<close>

datatype ('a, 'n) fifo_op = Put 'a | Get 'n

text \<open>
  A run of operations: the final state, the elements accepted, those refused, and those
  delivered, each in order.
\<close>

fun fifo_run ::
    "('s \<Rightarrow> 'a \<Rightarrow> bool \<times> 's) \<Rightarrow> ('s \<Rightarrow> 'n \<Rightarrow> 'a list \<times> 's) \<Rightarrow> 's \<Rightarrow> ('a, 'n) fifo_op list \<Rightarrow>
     's \<times> 'a list \<times> 'a list \<times> 'a list" where
  "fifo_run put get s [] = (s, [], [], [])"
| "fifo_run put get s (Put x # ops) =
     (let (ok, s1) = put s x; (s2, acc, ref, del) = fifo_run put get s1 ops
      in if ok then (s2, x # acc, ref, del) else (s2, acc, x # ref, del))"
| "fifo_run put get s (Get n # ops) =
     (let (out, s1) = get s n; (s2, acc, ref, del) = fifo_run put get s1 ops
      in (s2, acc, ref, out @ del))"

locale bounded_fifo =
  fixes contents :: "'s \<Rightarrow> 'a list"
    and bound :: "'s \<Rightarrow> nat"
    and inv :: "'s \<Rightarrow> bool"
    and put :: "'s \<Rightarrow> 'a \<Rightarrow> bool \<times> 's"
    and get :: "'s \<Rightarrow> 'n \<Rightarrow> 'a list \<times> 's"
    and amount :: "'n \<Rightarrow> nat"
  assumes within: "inv s \<Longrightarrow> length (contents s) \<le> bound s"
    and put_result: "inv s \<Longrightarrow> fst (put s x) = (length (contents s) < bound s)"
    and put_contents: "inv s \<Longrightarrow>
      contents (snd (put s x)) = (if length (contents s) < bound s then contents s @ [x] else contents s)"
    and put_inv: "inv s \<Longrightarrow> inv (snd (put s x))"
    and put_bound: "inv s \<Longrightarrow> bound (snd (put s x)) = bound s"
    and get_result: "inv s \<Longrightarrow> fst (get s n) = take (amount n) (contents s)"
    and get_contents: "inv s \<Longrightarrow> contents (snd (get s n)) = drop (amount n) (contents s)"
    and get_inv: "inv s \<Longrightarrow> inv (snd (get s n))"
    and get_bound: "inv s \<Longrightarrow> bound (snd (get s n)) = bound s"
begin

lemma run_inv:
  assumes "inv s" "fifo_run put get s ops = (s', acc, ref, del)"
  shows "inv s' \<and> bound s' = bound s"
  using assms
proof (induction ops arbitrary: s acc ref del)
  case Nil
  then show ?case by simp
next
  case (Cons op ops)
  let ?s1 = "case op of Put x \<Rightarrow> snd (put s x) | Get n \<Rightarrow> snd (get s n)"
  obtain acc1 ref1 del1 where run: "fifo_run put get ?s1 ops = (s', acc1, ref1, del1)"
    using Cons.prems(2) by (cases op) (auto simp: Let_def split: prod.splits if_splits)
  have "inv ?s1" "bound ?s1 = bound s"
    using Cons.prems(1)
    by (simp_all add: put_inv put_bound get_inv get_bound split: fifo_op.split)
  with Cons.IH [OF _ run] show ?case by simp
qed

text \<open>Nothing accepted is lost, duplicated or reordered.\<close>

lemma run_conserves:
  assumes "inv s" "fifo_run put get s ops = (s', acc, ref, del)"
  shows "contents s @ acc = del @ contents s'"
  using assms
proof (induction ops arbitrary: s acc ref del)
  case Nil
  then show ?case by simp
next
  case (Cons op ops)
  show ?case
  proof (cases op)
    case (Put x)
    let ?s1 = "snd (put s x)"
    obtain acc1 ref1 del1 where run: "fifo_run put get ?s1 ops = (s', acc1, ref1, del1)"
      using Cons.prems Put by (auto simp: Let_def split: prod.splits if_splits)
    have "contents ?s1 @ acc1 = del1 @ contents s'"
      using Cons.IH [OF put_inv [OF Cons.prems(1)] run] .
    then show ?thesis
      using Cons.prems Put run put_result [of s x] put_contents [of s x]
      by (auto simp: Let_def split: prod.splits if_splits)
  next
    case (Get n)
    let ?s1 = "snd (get s n)"
    obtain acc1 ref1 del1 where run: "fifo_run put get ?s1 ops = (s', acc1, ref1, del1)"
      using Cons.prems Get by (auto simp: Let_def split: prod.splits)
    have "contents ?s1 @ acc1 = del1 @ contents s'"
      using Cons.IH [OF get_inv [OF Cons.prems(1)] run] .
    then have "contents s @ acc1 = (take (amount n) (contents s) @ del1) @ contents s'"
      using get_contents [OF Cons.prems(1), of n]
      by (metis append.assoc append_take_drop_id)
    then show ?thesis
      using Cons.prems Get run get_result [OF Cons.prems(1), of n]
      by (auto simp: Let_def split: prod.splits)
  qed
qed

text \<open>A refusal happens only on a full queue, and leaves it as it was.\<close>

lemma put_refused:
  assumes "inv s" "put s x = (False, s')"
  shows "length (contents s) = bound s \<and> contents s' = contents s"
  using assms put_result [of s x] put_contents [of s x] within [of s] by simp

lemma put_accepted:
  assumes "inv s" "put s x = (True, s')"
  shows "length (contents s) < bound s \<and> contents s' = contents s @ [x]"
  using assms put_result [of s x] put_contents [of s x] by simp

end

section \<open>A log read through a private cursor\<close>

text \<open>
  \<open>holds s log\<close>: the state \<open>s\<close> stands for the log \<open>log\<close> of everything ever
  appended; \<open>retained s\<close>: how many of the newest entries can still be read. A read
  asks for at most \<open>n\<close> entries from position \<open>pos\<close> on.
\<close>

locale snapshot_log =
  fixes holds :: "'s \<Rightarrow> 'a list \<Rightarrow> bool"
    and retained :: "'s \<Rightarrow> nat"
    and read :: "'s \<Rightarrow> u64 \<Rightarrow> u64 \<Rightarrow> errno + ('a list \<times> u64)"
  assumes log_short: "holds s log \<Longrightarrow> length log < 2 ^ 64"
    and read_inside: "holds s log \<Longrightarrow> unat pos \<le> length log \<Longrightarrow>
      length log - unat pos \<le> retained s \<Longrightarrow>
      read s pos n = Inr (take (unat n) (drop (unat pos) log),
        pos + of_nat (min (unat n) (length log - unat pos)))"
    and read_outside: "holds s log \<Longrightarrow>
      \<not> (unat pos \<le> length log \<and> length log - unat pos \<le> retained s) \<Longrightarrow>
      read s pos n = Inl EOVERFLOW"
begin

text \<open>
  One read: the entries returned are the next ones of the log, the cursor moves past
  exactly them, and a read that returned fewer than asked for has reached the end.
\<close>

lemma read_step:
  assumes "holds s log" "read s pos n = Inr (out, pos')"
  shows "unat pos \<le> length log" "unat pos' = unat pos + length out"
    "drop (unat pos) log = out @ drop (unat pos') log" "length out \<le> unat n"
    "unat pos' \<le> length log" "length out < unat n \<Longrightarrow> unat pos' = length log"
proof -
  have in_window: "unat pos \<le> length log \<and> length log - unat pos \<le> retained s"
    using assms read_outside [of s log pos n] by fastforce
  let ?k = "min (unat n) (length log - unat pos)"
  have out: "out = take (unat n) (drop (unat pos) log)" and pos': "pos' = pos + of_nat ?k"
    using assms read_inside [of s log pos n] in_window by auto
  have len: "length out = ?k" by (simp add: out)
  have "unat pos + ?k < 2 ^ 64" "?k < 2 ^ 64"
    using in_window log_short [OF assms(1)] by linarith+
  then have "unat pos' = unat pos + ?k"
    unfolding pos' by (subst unat_add_small) (simp_all add: unat_of_nat)
  with len show eq: "unat pos' = unat pos + length out" by simp
  show "drop (unat pos) log = out @ drop (unat pos') log"
  proof -
    have "out = take (length out) (drop (unat pos) log)"
      by (simp add: out min_def)
    then show ?thesis
      using eq by (metis add.commute append_take_drop_id drop_drop)
  qed
  show "unat pos \<le> length log" "length out \<le> unat n" using in_window len by auto
  show "unat pos' \<le> length log" using in_window len eq by linarith
  show "length out < unat n \<Longrightarrow> unat pos' = length log" using in_window len eq by simp
qed

lemma read_total:
  assumes "holds s log" "unat pos \<le> length log" "length log - unat pos \<le> retained s"
  obtains out pos' where "read s pos n = Inr (out, pos')"
  using read_inside [OF assms, of n] by blast

lemma read_everything:
  assumes "holds s log" "unat pos \<le> length log" "length log - unat pos \<le> retained s"
    "retained s \<le> unat n"
  shows "read s pos n = Inr (drop (unat pos) log, of_nat (length log))"
proof -
  have k: "min (unat n) (length log - unat pos) = length log - unat pos"
    using assms(3,4) by simp
  have "pos + of_nat (length log - unat pos) = of_nat (unat pos + (length log - unat pos))"
    by simp
  then have "pos + of_nat (length log - unat pos) = of_nat (length log)"
    using assms(2) by (metis le_add_diff_inverse)
  then show ?thesis
    using read_inside [OF assms(1-3), of n] k assms(3,4) by simp
qed

end

end
