(* ===== verification/Ring.thy ===== *)
theory Ring
  imports Abi Interfaces
begin

text \<open>
  The observation ring of \<open>src/common.c\<close> (and \<open>hfior_ring_depth\<close> of \<open>abi.h\<close>):
  creating the mapping, publishing one record, draining into the shared tail, reading a
  snapshot through a private cursor. Positions are 64-bit words, as in the code. Two
  abstractions relate the mapping to lists: \<open>ring_contents\<close> (the records between the
  shared tail and the head) makes publish and drain a bounded queue, also where the
  64-bit counters wrap; \<open>ring_hist\<close> (everything ever published) makes the snapshot
  read a read of an append-only log.
\<close>

section \<open>Operations\<close>

definition hfior_is_power_of_two_u32 :: "u32 \<Rightarrow> bool" where
  "hfior_is_power_of_two_u32 value \<longleftrightarrow> value \<noteq> 0 \<and> value AND (value - 1) = 0"

definition hfior_mapping_size :: "u32 \<Rightarrow> u64" where
  "hfior_mapping_size capacity =
     of_nat sizeof_ring_header + ucast capacity * of_nat sizeof_record"

text \<open>\<open>CLOCK_MONOTONIC\<close> of \<open>time.h\<close> on Linux.\<close>

definition CLOCK_MONOTONIC :: u32 where "CLOCK_MONOTONIC = 1"

text \<open>
  A null \<open>header\<close> is \<open>None\<close>; what the mapping held before does not matter, it is
  cleared. \<open>now\<close> is what \<open>hfior_now_ns\<close> returns. The mapping may be larger than the
  ring needs: the slots are those that fit in \<open>mapping_size\<close> bytes.
\<close>

definition hfior_initialize_mapping ::
    "hfior_ring_header option \<Rightarrow> u64 \<Rightarrow> u32 \<Rightarrow> u64 \<Rightarrow> string option \<Rightarrow> u16 \<Rightarrow> u16 \<Rightarrow> u16 \<Rightarrow> u16 \<Rightarrow>
     u64 \<Rightarrow> u64 \<Rightarrow> errno + hfior_ring_header" where
  "hfior_initialize_mapping header mapping_size capacity features device_name
     bustype vendor product version generation now =
   (if header = None \<or> \<not> hfior_is_power_of_two_u32 capacity \<or>
       mapping_size < hfior_mapping_size capacity
    then Inl EINVAL
    else Inr \<lparr>
      metadata = \<lparr>
        md_magic = HFIOR_MAGIC,
        md_abi_version = HFIOR_ABI_VERSION,
        md_header_size = of_nat sizeof_ring_header,
        md_record_size = of_nat sizeof_record,
        md_capacity = capacity,
        md_features = features,
        md_source_clock_id = CLOCK_MONOTONIC,
        md_input_bustype = bustype,
        md_input_vendor = vendor,
        md_input_product = product,
        md_input_version = version,
        md_device_name =
          (case device_name of None \<Rightarrow> [] | Some name \<Rightarrow> take (HFIOR_MAX_DEVICE_NAME - 1) name)\<rparr>,
      producer = \<lparr>
        pl_head = 0, pl_next_sequence = 1, pl_dropped_newest = 0, pl_eager_send_drops = 0,
        pl_generation = generation, pl_heartbeat_ns = now, pl_urgent_writes = 0\<rparr>,
      consumer = \<lparr>
        cl_tail = 0, cl_deadline_ns = 0, cl_heartbeat_ns = 0, cl_drains = 0,
        cl_records_consumed = 0, cl_generation_seen = generation\<rparr>,
      stats = \<lparr>
        sl_records_published = 0, sl_motion_frames = 0, sl_button_frames = 0,
        sl_wheel_frames = 0, sl_syn_dropped_frames = 0, sl_device_reconnects = 0,
        sl_eager_packets_sent = 0\<rparr>,
      slots = replicate ((unat mapping_size - sizeof_ring_header) div sizeof_record) zero_record\<rparr>)"

text \<open>The index a position is masked to, and the slot there.\<close>

definition ring_index :: "hfior_ring_header \<Rightarrow> u64 \<Rightarrow> nat" where
  "ring_index header position =
     unat (position AND ucast (md_capacity (metadata header) - 1))"

definition slot_at :: "hfior_ring_header \<Rightarrow> u64 \<Rightarrow> hfior_record" where
  "slot_at header position = slots header ! ring_index header position"

text \<open>The statistics line after a record is published.\<close>

definition count_published :: "hfior_record \<Rightarrow> hfior_stats_line \<Rightarrow> hfior_stats_line" where
  "count_published r s0 =
     (let s1 = s0\<lparr>sl_records_published := sl_records_published s0 + 1\<rparr>;
          s2 = (if has_flag r HFIOR_RECORD_MOTION
                then s1\<lparr>sl_motion_frames := sl_motion_frames s1 + 1\<rparr> else s1);
          s3 = (if has_flag r HFIOR_RECORD_BUTTON
                then s2\<lparr>sl_button_frames := sl_button_frames s2 + 1\<rparr> else s2);
          s4 = (if has_flag r HFIOR_RECORD_WHEEL
                then s3\<lparr>sl_wheel_frames := sl_wheel_frames s3 + 1\<rparr> else s3);
          s5 = (if has_flag r HFIOR_RECORD_SYN_DROPPED
                then s4\<lparr>sl_syn_dropped_frames := sl_syn_dropped_frames s4 + 1\<rparr> else s4)
      in s5)"

definition hfior_ring_publish ::
    "hfior_ring_header \<Rightarrow> hfior_record \<Rightarrow> bool \<times> hfior_ring_header" where
  "hfior_ring_publish header r =
     (let head = pl_head (producer header);
          tail = cl_tail (consumer header);
          capacity = md_capacity (metadata header)
      in if head - tail \<ge> ucast capacity
         then (False, header\<lparr>producer := (producer header)
                \<lparr>pl_dropped_newest := pl_dropped_newest (producer header) + 1\<rparr>\<rparr>)
         else (True, header\<lparr>
                slots := (slots header)[ring_index header head := r],
                producer := (producer header)\<lparr>pl_head := head + 1\<rparr>,
                stats := count_published r (stats header)\<rparr>))"

text \<open>The copy loop of the two readers: \<open>n\<close> slots from position \<open>from\<close> on.\<close>

definition copy_slots :: "hfior_ring_header \<Rightarrow> u64 \<Rightarrow> nat \<Rightarrow> hfior_record list" where
  "copy_slots header from n = map (\<lambda>i. slot_at header (from + of_nat i)) [0..<n]"

text \<open>
  The result is the records written to \<open>out\<close> (their number is the return value) and
  the header with the advanced tail.
\<close>

definition hfior_ring_drain ::
    "hfior_ring_header \<Rightarrow> u64 \<Rightarrow> u64 \<Rightarrow> hfior_record list \<times> hfior_ring_header" where
  "hfior_ring_drain header max_records now =
     (let tail = cl_tail (consumer header);
          head = pl_head (producer header);
          available = (if head - tail > max_records then max_records else head - tail);
          out = copy_slots header tail (unat available)
      in if available \<noteq> 0
         then (out, header\<lparr>consumer := (consumer header)\<lparr>
                cl_tail := tail + available,
                cl_drains := cl_drains (consumer header) + 1,
                cl_records_consumed := cl_records_consumed (consumer header) + available,
                cl_heartbeat_ns := now\<rparr>\<rparr>)
         else (out, header))"

text \<open>
  Null pointers are \<open>None\<close>, for \<open>out\<close> the flag \<open>out_null\<close>. A result carries the
  records written to \<open>out\<close> and the new value of \<open>*local_tail\<close>, which an error leaves
  as it was.
\<close>

definition hfior_ring_read_snapshot ::
    "hfior_ring_header option \<Rightarrow> u64 option \<Rightarrow> bool \<Rightarrow> u64 \<Rightarrow>
     errno + (hfior_record list \<times> u64)" where
  "hfior_ring_read_snapshot header local_tail out_null max_records =
     (case (header, local_tail) of
        (Some header, Some tail) \<Rightarrow>
          if out_null \<and> max_records \<noteq> 0 then Inl EINVAL
          else
            let head = pl_head (producer header);
                capacity = md_capacity (metadata header)
            in if tail > head \<or> head - tail > ucast capacity then Inl EOVERFLOW
               else
                 let available = (if head - tail > max_records then max_records else head - tail)
                 in Inr (copy_slots header tail (unat available), tail + available)
      | _ \<Rightarrow> Inl EINVAL)"

definition hfior_ring_depth :: "hfior_ring_header \<Rightarrow> u64" where
  "hfior_ring_depth header = pl_head (producer header) - cl_tail (consumer header)"

section \<open>Well-formed rings and their contents\<close>

abbreviation ring_head :: "hfior_ring_header \<Rightarrow> u64" where
  "ring_head header \<equiv> pl_head (producer header)"

abbreviation ring_tail :: "hfior_ring_header \<Rightarrow> u64" where
  "ring_tail header \<equiv> cl_tail (consumer header)"

abbreviation ring_dropped :: "hfior_ring_header \<Rightarrow> u64" where
  "ring_dropped header \<equiv> pl_dropped_newest (producer header)"

definition ring_capacity :: "hfior_ring_header \<Rightarrow> nat" where
  "ring_capacity header = unat (md_capacity (metadata header))"

definition ring_wf :: "hfior_ring_header \<Rightarrow> bool" where
  "ring_wf header \<longleftrightarrow>
     hfior_is_power_of_two_u32 (md_capacity (metadata header)) \<and>
     md_header_size (metadata header) = of_nat sizeof_ring_header \<and>
     md_record_size (metadata header) = of_nat sizeof_record \<and>
     ring_capacity header \<le> length (slots header) \<and>
     unat (hfior_ring_depth header) \<le> ring_capacity header"

definition ring_contents :: "hfior_ring_header \<Rightarrow> hfior_record list" where
  "ring_contents header =
     copy_slots header (ring_tail header) (unat (hfior_ring_depth header))"

text \<open>Everything ever published is \<open>log\<close>, and the newest \<open>capacity\<close> of it are in the slots.\<close>

definition ring_hist :: "hfior_ring_header \<Rightarrow> hfior_record list \<Rightarrow> bool" where
  "ring_hist header log \<longleftrightarrow>
     ring_wf header \<and> unat (ring_head header) = length log \<and>
     unat (ring_tail header) \<le> length log \<and>
     (\<forall>j < length log. length log \<le> j + ring_capacity header \<longrightarrow>
        slot_at header (of_nat j) = log ! j)"

section \<open>Indices\<close>

lemma power_of_two_u32D:
  assumes "hfior_is_power_of_two_u32 c"
  obtains k where "k < 32" "unat c = 2 ^ k"
proof -
  have "c \<noteq> 0" "c AND (c - 1) = 0"
    using assms by (simp_all add: hfior_is_power_of_two_u32_def)
  moreover have "unat (c AND (c - 1)) = unat c AND (unat c - 1)"
    using \<open>c \<noteq> 0\<close> by (simp add: unsigned_and_eq unat_minus_one)
  ultimately obtain k where k: "unat c = 2 ^ k"
    using nat_and_pred_zero_pow2 [of "unat c"] by (auto simp: unat_gt_0)
  have "(2 :: nat) ^ k < 2 ^ 32" using k unat_less_pow [of c] by simp
  then have "k < 32" by (rule power_less_imp_less_exp [rotated]) simp
  with k that show thesis by blast
qed

lemma power_of_two_u32_iff: "hfior_is_power_of_two_u32 c \<longleftrightarrow> (\<exists>k<32. unat c = 2 ^ k)"
proof
  assume "hfior_is_power_of_two_u32 c"
  then show "\<exists>k<32. unat c = 2 ^ k" by (metis power_of_two_u32D)
next
  assume "\<exists>k<32. unat c = 2 ^ k"
  then obtain k where k: "unat c = 2 ^ k" by blast
  then have "c \<noteq> 0" by auto
  moreover have "unat (c AND (c - 1)) = 0"
    using \<open>c \<noteq> 0\<close> k nat_pow2_and_pred [of k] by (simp add: unsigned_and_eq unat_minus_one)
  ultimately show "hfior_is_power_of_two_u32 c"
    by (simp add: hfior_is_power_of_two_u32_def unat_eq_zero)
qed

lemma ring_index_mod:
  assumes "hfior_is_power_of_two_u32 (md_capacity (metadata h))"
  shows "ring_index h p = unat p mod ring_capacity h"
proof -
  let ?c = "md_capacity (metadata h)"
  obtain k where k: "k < 32" "unat ?c = 2 ^ k"
    using assms by (rule power_of_two_u32D)
  have "?c \<noteq> 0" using k by auto
  then have "unat (ucast (?c - 1) :: u64) = 2 ^ k - 1"
    using k by (simp add: unat_minus_one)
  then have "ring_index h p = unat p AND mask k"
    by (simp add: ring_index_def unsigned_and_eq mask_eq_exp_minus_1)
  then show ?thesis
    using k by (simp add: ring_capacity_def flip: take_bit_eq_mask take_bit_eq_mod)
qed

lemma ring_capacity_pow2:
  assumes "ring_wf h"
  obtains k where "k < 32" "ring_capacity h = 2 ^ k"
  using assms unfolding ring_wf_def ring_capacity_def by (metis power_of_two_u32D)

lemma ring_capacity_pos: "ring_wf h \<Longrightarrow> 0 < ring_capacity h"
  by (metis ring_capacity_pow2 zero_less_power zero_less_numeral)

lemma ring_capacity_less: "ring_capacity h < 2 ^ 32"
  using unat_less_pow [of "md_capacity (metadata h)"] by (simp add: ring_capacity_def)

lemma ring_index_less: "ring_wf h \<Longrightarrow> ring_index h p < length (slots h)"
  using ring_index_mod [of h p] ring_capacity_pos [of h]
  by (auto simp: ring_wf_def intro: less_le_trans [OF mod_less_divisor])

lemma ring_index_add:
  assumes "ring_wf h"
  shows "ring_index h (p + of_nat i) = (unat p + i) mod ring_capacity h"
proof -
  obtain k where k: "k < 32" "ring_capacity h = 2 ^ k"
    using assms by (rule ring_capacity_pow2)
  have "ring_index h (p + of_nat i) = unat (p + of_nat i) mod 2 ^ k"
    using assms k by (simp add: ring_wf_def ring_index_mod)
  also have "\<dots> = (unat p + i) mod 2 ^ k"
    using k by (intro unat_add_of_nat_mod) simp
  finally show ?thesis using k by simp
qed

text \<open>Positions within one capacity of each other do not share a slot.\<close>

lemma ring_index_inj:
  assumes "ring_wf h" "i < ring_capacity h" "j < ring_capacity h"
  shows "ring_index h (p + of_nat i) = ring_index h (p + of_nat j) \<longleftrightarrow> i = j"
  using assms mod_add_eq_imp_eq [of "unat p" i "ring_capacity h" j]
  by (auto simp: ring_index_add)

lemma length_copy_slots [simp]: "length (copy_slots h p n) = n"
  by (simp add: copy_slots_def)

lemma nth_copy_slots [simp]: "i < n \<Longrightarrow> copy_slots h p n ! i = slot_at h (p + of_nat i)"
  by (simp add: copy_slots_def)

lemma take_copy_slots: "take m (copy_slots h p n) = copy_slots h p (min m n)"
  by (simp add: copy_slots_def take_map take_upt min_def)

lemma drop_copy_slots: "drop m (copy_slots h p n) = copy_slots h (p + of_nat m) (n - m)"
  by (rule nth_equalityI) (simp_all add: add.assoc)

lemma copy_slots_cong:
  assumes "\<And>i. i < n \<Longrightarrow> slot_at h (p + of_nat i) = slot_at h' (p + of_nat i)"
  shows "copy_slots h p n = copy_slots h' p n"
  using assms by (simp add: copy_slots_def)

lemma length_ring_contents [simp]: "length (ring_contents h) = unat (hfior_ring_depth h)"
  by (simp add: ring_contents_def)

lemma ring_head_tail: "ring_head h = ring_tail h + of_nat (unat (hfior_ring_depth h))"
  by (simp add: hfior_ring_depth_def)

section \<open>Publish and drain as a bounded queue\<close>

lemma ring_full_iff:
  "ring_head h - ring_tail h \<ge> ucast (md_capacity (metadata h)) \<longleftrightarrow>
   ring_capacity h \<le> length (ring_contents h)"
  by (simp add: word_le_nat_alt hfior_ring_depth_def ring_capacity_def)

lemma publish_result:
  "fst (hfior_ring_publish h r) = (length (ring_contents h) < ring_capacity h)"
  using ring_full_iff [of h] by (auto simp: hfior_ring_publish_def Let_def)

lemma publish_metadata [simp]: "metadata (snd (hfior_ring_publish h r)) = metadata h"
  by (simp add: hfior_ring_publish_def Let_def)

lemma publish_consumer [simp]: "consumer (snd (hfior_ring_publish h r)) = consumer h"
  by (simp add: hfior_ring_publish_def Let_def)

lemma publish_slots_length [simp]: "length (slots (snd (hfior_ring_publish h r))) = length (slots h)"
  by (simp add: hfior_ring_publish_def Let_def)

lemma ring_capacity_publish [simp]: "ring_capacity (snd (hfior_ring_publish h r)) = ring_capacity h"
  by (simp add: ring_capacity_def)

lemma ring_index_publish [simp]: "ring_index (snd (hfior_ring_publish h r)) = ring_index h"
  by (simp add: ring_index_def fun_eq_iff)

lemma publish_head:
  "ring_head (snd (hfior_ring_publish h r)) =
     (if fst (hfior_ring_publish h r) then ring_head h + 1 else ring_head h)"
  by (simp add: hfior_ring_publish_def Let_def)

lemma publish_dropped:
  "ring_dropped (snd (hfior_ring_publish h r)) =
     (if fst (hfior_ring_publish h r) then ring_dropped h else ring_dropped h + 1)"
  by (simp add: hfior_ring_publish_def Let_def)

lemma publish_refused_slots:
  "\<not> fst (hfior_ring_publish h r) \<Longrightarrow> slots (snd (hfior_ring_publish h r)) = slots h"
  by (simp add: hfior_ring_publish_def Let_def split: if_splits)

lemma publish_slot:
  assumes "ring_wf h" "fst (hfior_ring_publish h r)"
  shows "slot_at (snd (hfior_ring_publish h r)) p =
    (if ring_index h p = ring_index h (ring_head h) then r else slot_at h p)"
  using assms ring_index_less [of h "ring_head h"]
  by (auto simp: hfior_ring_publish_def Let_def slot_at_def ring_index_def split: if_splits)

lemma publish_depth:
  assumes "ring_wf h"
  shows "unat (hfior_ring_depth (snd (hfior_ring_publish h r))) =
    (if fst (hfior_ring_publish h r) then unat (hfior_ring_depth h) + 1 else unat (hfior_ring_depth h))"
proof (cases "fst (hfior_ring_publish h r)")
  case True
  then have "unat (hfior_ring_depth h) < 2 ^ 32"
    using publish_result [of h r] ring_capacity_less [of h] by simp
  then have "unat (hfior_ring_depth h + 1) = unat (hfior_ring_depth h) + 1"
    by (intro unat_Suc_small) simp
  then show ?thesis
    using True by (simp add: hfior_ring_depth_def publish_head algebra_simps)
next
  case False
  then show ?thesis by (simp add: hfior_ring_depth_def publish_head)
qed

lemma publish_contents:
  assumes wf: "ring_wf h"
  shows "ring_contents (snd (hfior_ring_publish h r)) =
    (if length (ring_contents h) < ring_capacity h then ring_contents h @ [r] else ring_contents h)"
proof (cases "fst (hfior_ring_publish h r)")
  case True
  let ?d = "unat (hfior_ring_depth h)" and ?h' = "snd (hfior_ring_publish h r)"
  have d: "?d < ring_capacity h" using True publish_result [of h r] by simp
  have slot: "slot_at ?h' (ring_tail h + of_nat i) =
      (if i = ?d then r else slot_at h (ring_tail h + of_nat i))" if "i \<le> ?d" for i
    using publish_slot [OF wf True, of "ring_tail h + of_nat i"] that d
      ring_index_inj [OF wf, of i ?d "ring_tail h"] ring_head_tail [of h] by auto
  have "ring_contents ?h' = ring_contents h @ [r]"
    unfolding ring_contents_def
    using True publish_depth [OF wf, of r]
    by (intro nth_equalityI) (auto simp: slot slot [of ?d, simplified] nth_append less_Suc_eq)
  with d show ?thesis by simp
next
  case False
  moreover from this have "slots (snd (hfior_ring_publish h r)) = slots h"
    by (rule publish_refused_slots)
  ultimately show ?thesis
    using publish_depth [OF wf, of r] publish_result [of h r]
    by (auto simp: ring_contents_def slot_at_def intro: copy_slots_cong)
qed

lemma publish_wf [ring_intros]: "ring_wf h \<Longrightarrow> ring_wf (snd (hfior_ring_publish h r))"
  using publish_depth [of h r] publish_result [of h r] by (auto simp: ring_wf_def)

lemma drain_available:
  "fst (hfior_ring_drain h n now) = copy_slots h (ring_tail h)
     (min (unat n) (unat (hfior_ring_depth h)))"
  by (auto simp: hfior_ring_drain_def Let_def hfior_ring_depth_def word_less_nat_alt)

lemma drain_result: "fst (hfior_ring_drain h n now) = take (unat n) (ring_contents h)"
  by (simp add: drain_available ring_contents_def take_copy_slots)

lemma drain_frame [simp]:
  "metadata (snd (hfior_ring_drain h n now)) = metadata h"
  "producer (snd (hfior_ring_drain h n now)) = producer h"
  "slots (snd (hfior_ring_drain h n now)) = slots h"
  "stats (snd (hfior_ring_drain h n now)) = stats h"
  by (simp_all add: hfior_ring_drain_def Let_def)

lemma ring_capacity_drain [simp]: "ring_capacity (snd (hfior_ring_drain h n now)) = ring_capacity h"
  by (simp add: ring_capacity_def)

lemma slot_at_drain [simp]: "slot_at (snd (hfior_ring_drain h n now)) = slot_at h"
  by (simp add: slot_at_def ring_index_def fun_eq_iff)

lemma drain_tail:
  "ring_tail (snd (hfior_ring_drain h n now)) =
     ring_tail h + of_nat (min (unat n) (unat (hfior_ring_depth h)))"
proof (cases "n < hfior_ring_depth h")
  case True
  then show ?thesis
    by (auto simp: hfior_ring_drain_def Let_def hfior_ring_depth_def word_less_nat_alt min_def)
next
  case False
  then have "min (unat n) (unat (hfior_ring_depth h)) = unat (hfior_ring_depth h)"
    by (simp add: word_less_nat_alt)
  with False show ?thesis
    by (simp add: hfior_ring_drain_def Let_def hfior_ring_depth_def)
qed

lemma drain_depth:
  "unat (hfior_ring_depth (snd (hfior_ring_drain h n now))) =
     unat (hfior_ring_depth h) - min (unat n) (unat (hfior_ring_depth h))"
proof -
  let ?k = "of_nat (min (unat n) (unat (hfior_ring_depth h))) :: u64"
  have k: "unat ?k = min (unat n) (unat (hfior_ring_depth h))"
    by (auto simp: min_def)
  have "hfior_ring_depth (snd (hfior_ring_drain h n now)) = hfior_ring_depth h - ?k"
    by (simp only: hfior_ring_depth_def drain_frame drain_tail) simp
  then show ?thesis
    using k by (simp add: unat_sub_le word_le_nat_alt)
qed

lemma drain_contents:
  "ring_contents (snd (hfior_ring_drain h n now)) = drop (unat n) (ring_contents h)"
proof (cases "unat n \<le> unat (hfior_ring_depth h)")
  case True
  then have "drop (unat n) (ring_contents h) =
      copy_slots h (ring_tail h + n) (unat (hfior_ring_depth h) - unat n)"
    by (simp add: ring_contents_def drop_copy_slots)
  moreover have "ring_tail (snd (hfior_ring_drain h n now)) = ring_tail h + n"
    using True by (simp add: drain_tail min_def)
  ultimately show ?thesis
    using True by (simp add: ring_contents_def drain_depth copy_slots_def)
next
  case False
  then have "unat (hfior_ring_depth (snd (hfior_ring_drain h n now))) = 0"
    by (simp add: drain_depth)
  then show ?thesis
    using False by (simp add: ring_contents_def copy_slots_def)
qed

lemma drain_wf [ring_intros]: "ring_wf h \<Longrightarrow> ring_wf (snd (hfior_ring_drain h n now))"
  by (auto simp: ring_wf_def drain_depth intro: le_trans [OF diff_le_self])

lemma ring_wf_within: "ring_wf h \<Longrightarrow> unat (hfior_ring_depth h) \<le> ring_capacity h"
  by (simp add: ring_wf_def)

interpretation ring_fifo: bounded_fifo ring_contents ring_capacity ring_wf
    hfior_ring_publish "\<lambda>h (n, now). hfior_ring_drain h n now" "\<lambda>(n, now). unat n"
  by unfold_locales
    (auto simp: ring_wf_within publish_result publish_contents drain_result drain_contents
      intro: publish_wf drain_wf split: prod.split)

section \<open>A fresh mapping\<close>

lemma mapping_size_unat:
  "unat (hfior_mapping_size c) = sizeof_ring_header + unat c * sizeof_record"
proof -
  have "unat c * 32 < 2 ^ 37" using unat_less_pow [of c] by simp
  moreover from this have "unat (ucast c * 32 :: u64) = unat c * 32"
    by (simp add: unat_word_ariths)
  ultimately show ?thesis
    by (simp add: hfior_mapping_size_def sizeof_defs)
qed

lemma initialize_mapping_ok:
  assumes "hfior_initialize_mapping header sz c feats name b v p ver gen now = Inr h"
  shows "ring_wf h" "ring_contents h = []" "ring_capacity h = unat c"
    "ring_head h = 0" "ring_tail h = 0" "ring_dropped h = 0"
    "pl_next_sequence (producer h) = 1" "pl_generation (producer h) = gen"
    "unat c \<le> length (slots h)"
proof -
  have c: "hfior_is_power_of_two_u32 c" "\<not> sz < hfior_mapping_size c"
    using assms by (auto simp: hfior_initialize_mapping_def split: if_splits)
  have "sizeof_ring_header + unat c * sizeof_record \<le> unat sz"
    using c(2) by (simp add: word_less_nat_alt mapping_size_unat not_less)
  then have room: "unat c \<le> (unat sz - sizeof_ring_header) div sizeof_record"
    by (simp add: sizeof_defs)
  have h: "slots h = replicate ((unat sz - sizeof_ring_header) div sizeof_record) zero_record"
      "md_capacity (metadata h) = c" "md_header_size (metadata h) = of_nat sizeof_ring_header"
      "md_record_size (metadata h) = of_nat sizeof_record"
      "ring_head h = 0 \<and> ring_tail h = 0 \<and> ring_dropped h = 0"
      "pl_next_sequence (producer h) = 1" "pl_generation (producer h) = gen"
    using assms by (auto simp: hfior_initialize_mapping_def split: if_splits)
  then show "ring_wf h" "ring_contents h = []" "ring_capacity h = unat c" "ring_head h = 0"
    "ring_tail h = 0" "ring_dropped h = 0" "pl_next_sequence (producer h) = 1"
    "pl_generation (producer h) = gen" "unat c \<le> length (slots h)"
    using c room
    by (simp_all add: ring_wf_def ring_capacity_def hfior_ring_depth_def ring_contents_def
        copy_slots_def)
qed

section \<open>The ring as a log\<close>

lemma ring_hist_initial:
  "hfior_initialize_mapping header sz c feats name b v p ver gen now = Inr h \<Longrightarrow> ring_hist h []"
  using initialize_mapping_ok [of header sz c feats name b v p ver gen now h]
  by (simp add: ring_hist_def)

lemma ring_hist_wf: "ring_hist h log \<Longrightarrow> ring_wf h"
  by (simp add: ring_hist_def)

lemma ring_hist_depth:
  assumes "ring_hist h log"
  shows "unat (hfior_ring_depth h) = length log - unat (ring_tail h)"
  using assms by (simp add: ring_hist_def hfior_ring_depth_def unat_sub_le word_le_nat_alt)

lemma ring_hist_copy:
  assumes hist: "ring_hist h log" and win: "unat p + n \<le> length log"
    "length log \<le> unat p + ring_capacity h"
  shows "copy_slots h p n = take n (drop (unat p) log)"
proof (rule nth_equalityI)
  show "length (copy_slots h p n) = length (take n (drop (unat p) log))"
    using win by simp
next
  fix i assume "i < length (copy_slots h p n)"
  then have i: "i < n" by simp
  have "slot_at h (of_nat j) = log ! j" if "j < length log" "length log \<le> j + ring_capacity h" for j
    using hist that by (simp add: ring_hist_def)
  from this [of "unat p + i"] show "copy_slots h p n ! i = take n (drop (unat p) log) ! i"
    using i win by simp
qed

lemma ring_hist_head:
  assumes "ring_hist h log"
  shows "ring_head h = of_nat (length log)"
proof -
  have "of_nat (unat (ring_head h)) = ring_head h" by simp
  with assms show ?thesis by (simp add: ring_hist_def)
qed

text \<open>The unread records are the end of the log from the shared tail on.\<close>

lemma ring_hist_contents:
  assumes "ring_hist h log"
  shows "ring_contents h = drop (unat (ring_tail h)) log"
proof -
  have "unat (hfior_ring_depth h) \<le> ring_capacity h" "unat (ring_tail h) \<le> length log"
    using assms by (auto simp: ring_hist_def ring_wf_def)
  then show ?thesis
    using ring_hist_copy [OF assms, of "ring_tail h" "unat (hfior_ring_depth h)"]
    by (simp add: ring_contents_def ring_hist_depth [OF assms])
qed

lemma ring_hist_publish:
  assumes hist: "ring_hist h log" and room: "length log + 1 < 2 ^ 64"
  shows "ring_hist (snd (hfior_ring_publish h r))
    (if fst (hfior_ring_publish h r) then log @ [r] else log)"
proof (cases "fst (hfior_ring_publish h r)")
  case True
  let ?h' = "snd (hfior_ring_publish h r)" and ?c = "ring_capacity h"
  have wf: "ring_wf h" and head: "unat (ring_head h) = length log"
    using hist by (simp_all add: ring_hist_def)
  have idx: "ring_index h (of_nat j) = j mod ?c" if "j \<le> length log" for j
    using that room ring_index_mod [of h "of_nat j"] wf
    by (simp add: ring_wf_def unat_of_nat take_bit_nat_eq_self_iff)
  have "slot_at ?h' (of_nat j) = (log @ [r]) ! j"
    if j: "j < length log + 1" "length log + 1 \<le> j + ?c" for j
  proof (cases "j = length log")
    case True': True
    have "ring_index h (of_nat j) = ring_index h (ring_head h)"
      using True' ring_hist_head [OF hist] by simp
    then show ?thesis
      using publish_slot [OF wf True, of "of_nat j"] True' by simp
  next
    case False
    with j have "j < length log" by simp
    moreover have "j mod ?c \<noteq> length log mod ?c"
      using mod_eq_imp_eq_window [of j ?c "length log"] j False by auto
    moreover have "ring_index h (ring_head h) = length log mod ?c"
      using idx [of "length log"] ring_hist_head [OF hist] by simp
    ultimately show ?thesis
      using publish_slot [OF wf True, of "of_nat j"] idx [of j] hist j
      by (simp add: ring_hist_def nth_append)
  qed
  moreover have "unat (ring_head ?h') = length log + 1"
    using True head room by (simp add: publish_head unat_Suc_small)
  ultimately show ?thesis
    using True hist publish_wf [OF wf, of r] by (simp add: ring_hist_def)
next
  case False
  then show ?thesis
    using hist publish_wf [of h r] publish_refused_slots [OF False] publish_head [of h r]
    by (simp add: ring_hist_def slot_at_def)
qed

text \<open>
  Moving the shared tail forward, up to the head, keeps the log: by a drain, or by the
  acknowledgement handler of the bridge.
\<close>

lemma ring_hist_advance:
  assumes "ring_hist h log" "producer h' = producer h" "metadata h' = metadata h"
    "slots h' = slots h" "unat (ring_tail h) \<le> unat (ring_tail h')"
    "unat (ring_tail h') \<le> length log"
  shows "ring_hist h' log"
proof -
  have "unat (ring_head h') = length log" using assms by (simp add: ring_hist_def)
  then have "unat (hfior_ring_depth h') = length log - unat (ring_tail h')"
    using assms(6) by (simp add: hfior_ring_depth_def unat_sub_le word_le_nat_alt)
  moreover have "length log - unat (ring_tail h) \<le> ring_capacity h"
    using assms(1) ring_hist_depth [OF assms(1)] by (simp add: ring_hist_def ring_wf_def)
  ultimately show ?thesis
    using assms by (auto simp: ring_hist_def ring_wf_def ring_capacity_def slot_at_def ring_index_def)
qed

text \<open>Only the metadata, the slots and the two positions matter to the log.\<close>

lemma ring_hist_cong:
  assumes "metadata h' = metadata h" "slots h' = slots h" "ring_head h' = ring_head h"
    "ring_tail h' = ring_tail h"
  shows "ring_hist h' log = ring_hist h log"
  using assms
  by (simp add: ring_hist_def ring_wf_def ring_capacity_def hfior_ring_depth_def slot_at_def
      ring_index_def)

lemma ring_hist_update [simp]:
  "pl_head p = ring_head h \<Longrightarrow> ring_hist (h\<lparr>producer := p\<rparr>) log = ring_hist h log"
  "cl_tail c = ring_tail h \<Longrightarrow> ring_hist (h\<lparr>consumer := c\<rparr>) log = ring_hist h log"
  "ring_hist (h\<lparr>stats := s\<rparr>) log = ring_hist h log"
  by (rule ring_hist_cong, simp_all)+

lemma ring_hist_drain:
  assumes "ring_hist h log"
  shows "ring_hist (snd (hfior_ring_drain h n now)) log"
proof (rule ring_hist_advance [OF assms])
  let ?k = "min (unat n) (unat (hfior_ring_depth h))"
  have "unat (ring_tail h) + ?k \<le> length log"
    using ring_hist_depth [OF assms] assms unfolding ring_hist_def by linarith
  moreover have "length log < 2 ^ 64"
    using assms unat_less_pow [of "ring_head h"] by (simp add: ring_hist_def)
  ultimately have "unat (ring_tail h + of_nat ?k) = unat (ring_tail h) + ?k"
    by (subst unat_add_small) (simp_all add: unat_of_nat take_bit_nat_eq_self_iff)
  then show "unat (ring_tail h) \<le> unat (ring_tail (snd (hfior_ring_drain h n now)))"
    "unat (ring_tail (snd (hfior_ring_drain h n now))) \<le> length log"
    using \<open>unat (ring_tail h) + ?k \<le> length log\<close> by (simp_all only: drain_tail)
qed simp_all

definition ring_read :: "hfior_ring_header \<Rightarrow> u64 \<Rightarrow> u64 \<Rightarrow> errno + (hfior_record list \<times> u64)" where
  "ring_read h tail n = hfior_ring_read_snapshot (Some h) (Some tail) False n"

lemma ring_read_inside:
  assumes hist: "ring_hist h log" and p: "unat p \<le> length log"
    "length log - unat p \<le> ring_capacity h"
  shows "ring_read h p n = Inr (take (unat n) (drop (unat p) log),
    p + of_nat (min (unat n) (length log - unat p)))"
proof -
  have "p \<le> ring_head h" using p hist by (simp add: ring_hist_def word_le_nat_alt)
  then have d: "unat (ring_head h - p) = length log - unat p"
    using hist by (simp add: ring_hist_def unat_sub_le)
  let ?k = "min (unat n) (length log - unat p)"
  have k: "(if ring_head h - p > n then n else ring_head h - p) = of_nat ?k"
    using word_clip [of n "ring_head h - p"] d by simp
  have "unat (of_nat ?k :: u64) = ?k"
    using unat_word_clip [of n "ring_head h - p"] d by simp
  then have "ring_read h p n = Inr (copy_slots h p ?k, p + of_nat ?k)"
    using p d \<open>p \<le> ring_head h\<close>
    unfolding ring_read_def hfior_ring_read_snapshot_def Let_def k
    by (simp add: word_less_nat_alt ring_capacity_def not_less word_le_nat_alt
        ring_hist_head [OF hist])
  moreover have "copy_slots h p ?k = take (unat n) (drop (unat p) log)"
    using ring_hist_copy [OF hist, of p ?k] p by (auto simp: min_def)
  ultimately show ?thesis by simp
qed

lemma ring_read_outside:
  assumes hist: "ring_hist h log"
    and "\<not> (unat p \<le> length log \<and> length log - unat p \<le> ring_capacity h)"
  shows "ring_read h p n = Inl EOVERFLOW"
proof (cases "unat p \<le> length log")
  case True
  then have "p \<le> ring_head h" using hist by (simp add: ring_hist_def word_le_nat_alt)
  then have "unat (ring_head h - p) = length log - unat p"
    using hist by (simp add: ring_hist_def unat_sub_le)
  then show ?thesis
    using assms True
    by (simp add: ring_read_def hfior_ring_read_snapshot_def Let_def word_less_nat_alt
        ring_capacity_def)
next
  case False
  then show ?thesis
    using hist
    by (simp add: ring_read_def hfior_ring_read_snapshot_def Let_def word_less_nat_alt ring_hist_def)
qed

interpretation ring_log: snapshot_log ring_hist ring_capacity ring_read
proof unfold_locales
  fix h :: hfior_ring_header and log
  assume "ring_hist h log"
  then show "length log < 2 ^ 64"
    using unat_less_pow [of "ring_head h"] by (simp add: ring_hist_def)
qed (auto intro: ring_read_inside ring_read_outside)

section \<open>A ring for evaluation\<close>

text \<open>A fresh ring of two slots, and the ring with one record in it.\<close>

definition demo_ring :: hfior_ring_header where
  "demo_ring = (case hfior_initialize_mapping (Some \<lparr>metadata = \<lparr>md_magic = 0, md_abi_version = 0,
       md_header_size = 0, md_record_size = 0, md_capacity = 0, md_features = 0, md_source_clock_id = 0,
       md_input_bustype = 0, md_input_vendor = 0, md_input_product = 0, md_input_version = 0,
       md_device_name = []\<rparr>,
     producer = \<lparr>pl_head = 0, pl_next_sequence = 0, pl_dropped_newest = 0, pl_eager_send_drops = 0,
       pl_generation = 0, pl_heartbeat_ns = 0, pl_urgent_writes = 0\<rparr>,
     consumer = \<lparr>cl_tail = 0, cl_deadline_ns = 0, cl_heartbeat_ns = 0, cl_drains = 0,
       cl_records_consumed = 0, cl_generation_seen = 0\<rparr>,
     stats = \<lparr>sl_records_published = 0, sl_motion_frames = 0, sl_button_frames = 0, sl_wheel_frames = 0,
       sl_syn_dropped_frames = 0, sl_device_reconnects = 0, sl_eager_packets_sent = 0\<rparr>,
     slots = []\<rparr>) (hfior_mapping_size 2) 2 0 None 0 0 0 0 1 0 of Inr h \<Rightarrow> h)"

lemma demo_ring_init:
  "\<exists>header now. hfior_initialize_mapping header (hfior_mapping_size 2) 2 0 None 0 0 0 0 1 now = Inr demo_ring"
proof -
  have "\<exists>ring. hfior_initialize_mapping (Some header) (hfior_mapping_size 2) 2 0 None 0 0 0 0 1 0 = Inr ring" for header
    by (simp add: hfior_initialize_mapping_def hfior_is_power_of_two_u32_def)
  then show ?thesis unfolding demo_ring_def by (metis sum.case(2))
qed

lemma demo_ring_facts:
  "ring_hist demo_ring []" "ring_wf demo_ring" "ring_contents demo_ring = []" "ring_capacity demo_ring = 2"
  "ring_tail demo_ring = 0" "ring_head demo_ring = 0" "ring_dropped demo_ring = 0"
proof -
  obtain header now where r:
    "hfior_initialize_mapping header (hfior_mapping_size 2) 2 0 None 0 0 0 0 1 now = Inr demo_ring"
    using demo_ring_init by blast
  show "ring_hist demo_ring []" "ring_wf demo_ring" "ring_contents demo_ring = []"
    "ring_capacity demo_ring = 2" "ring_tail demo_ring = 0" "ring_head demo_ring = 0" "ring_dropped demo_ring = 0"
    using initialize_mapping_ok [OF r] ring_hist_initial [OF r] by simp_all
qed

definition demo_record :: hfior_record where
  "demo_record = zero_record\<lparr>r_sequence := 1, r_dx := 5\<rparr>"

definition demo_ring1 :: hfior_ring_header where
  "demo_ring1 = snd (hfior_ring_publish demo_ring demo_record)"

lemma demo_ring1_facts:
  "ring_hist demo_ring1 [demo_record]" "ring_capacity demo_ring1 = 2" "ring_tail demo_ring1 = 0"
  "ring_contents demo_ring1 = [demo_record]" "ring_wf demo_ring1"
proof -
  have ok: "fst (hfior_ring_publish demo_ring demo_record)"
    by (simp add: publish_result demo_ring_facts hfior_ring_depth_def)
  show "ring_hist demo_ring1 [demo_record]"
    using ring_hist_publish [OF demo_ring_facts(1), of demo_record] ok by (simp add: demo_ring1_def)
  show "ring_capacity demo_ring1 = 2" "ring_tail demo_ring1 = 0"
    by (simp_all add: demo_ring1_def demo_ring_facts)
  show "ring_contents demo_ring1 = [demo_record]" "ring_wf demo_ring1"
    using publish_contents [OF demo_ring_facts(2), of demo_record] publish_wf [OF demo_ring_facts(2)]
    by (simp_all add: demo_ring1_def demo_ring_facts hfior_ring_depth_def)
qed

section \<open>Properties\<close>

text \<open>The ring is initialized exactly when there is a mapping, the capacity is a power of two and
  the mapping is large enough for the header and that many records.\<close>

lemma initialize_mapping_accepts:
  "(\<exists>h. hfior_initialize_mapping header sz c feats name bus v p ver gen now = Inr h) \<longleftrightarrow>
    header \<noteq> None \<and> (\<exists>k<32. unat c = 2 ^ k) \<and> 384 + 32 * unat c \<le> unat sz"
  by (auto simp: hfior_initialize_mapping_def power_of_two_u32_iff word_less_nat_alt mapping_size_unat
      sizeof_defs not_less mult.commute)

lemma run_dropped:
  assumes "fifo_run hfior_ring_publish (\<lambda>h (n, now). hfior_ring_drain h n now) h ops = (h', acc, ref, del)"
  shows "ring_dropped h' = ring_dropped h + of_nat (length ref)"
  using assms
proof (induction ops arbitrary: h acc ref del)
  case (Cons op ops)
  then show ?case
  proof (cases op)
    case (Put r)
    show ?thesis
      using Cons.prems Cons.IH [of "snd (hfior_ring_publish h r)"] publish_dropped [of h r]
      by (auto simp: Put split_def Let_def prod_eq_iff split: if_splits)
  next
    case (Get n)
    show ?thesis
      using Cons.prems Cons.IH [of "snd (hfior_ring_drain h (fst n) (snd n))"]
      by (auto simp: Get split_def Let_def prod_eq_iff)
  qed
qed simp

text \<open>C8: Over any sequence of publications and drains from a fresh mapping, also past the point where
  the 64-bit counters wrap, nothing accepted is lost, repeated or reordered: what was accepted is what
  was drained followed by what the ring still holds; the ring never holds more than its capacity; and
  the drop counter is the number of refused records.\<close>

theorem ring_conserves:
  assumes "hfior_initialize_mapping header sz c feats name bus v p ver gen now = Inr h"
    "fifo_run hfior_ring_publish (\<lambda>h (n, now). hfior_ring_drain h n now) h ops = (h', acc, ref, del)"
  shows "acc = del @ ring_contents h' \<and> length (ring_contents h') \<le> unat c \<and>
    ring_dropped h' = of_nat (length ref)"
proof -
  note init = initialize_mapping_ok [OF assms(1)]
  have "ring_contents h @ acc = del @ ring_contents h'"
    using ring_fifo.run_conserves [OF init(1) assms(2)] .
  moreover have "length (ring_contents h') \<le> ring_capacity h'" "ring_capacity h' = unat c"
    using ring_fifo.run_inv [OF init(1) assms(2)] ring_fifo.within [of h'] init(3) by auto
  ultimately show ?thesis
    using run_dropped [OF assms(2)] init by simp
qed

definition demo_ops :: "(hfior_record, u64 \<times> u64) fifo_op list" where
  "demo_ops = [Put demo_record, Put demo_record, Put demo_record, Get (1, 0)]"

lemma ring_conserves_witness:
  "\<exists>h' acc ref del. fifo_run hfior_ring_publish (\<lambda>h (n, now). hfior_ring_drain h n now) demo_ring demo_ops =
     (h', acc, ref, del) \<and> acc = del @ ring_contents h' \<and> length (ring_contents h') \<le> 2"
proof -
  obtain header now where r:
    "hfior_initialize_mapping header (hfior_mapping_size 2) 2 0 None 0 0 0 0 1 now = Inr demo_ring"
    using demo_ring_init by blast
  obtain h' acc ref del where run: "fifo_run hfior_ring_publish (\<lambda>h (n, now). hfior_ring_drain h n now)
      demo_ring demo_ops = (h', acc, ref, del)" by (metis prod_cases4)
  from ring_conserves [OF r run] run show ?thesis by simp
qed

text \<open>C20: A read through a private cursor on a ring that holds the log of everything published gives
  the next records of the log, at most as many as asked for, and moves the cursor past exactly those,
  if the cursor is not ahead of the log and nothing it has not read was overwritten; in every other case
  it fails with \<open>EOVERFLOW\<close>.\<close>

theorem snapshot_read_exact:
  assumes "ring_hist h rlog"
  shows "hfior_ring_read_snapshot (Some h) (Some p) False n =
    (if unat p \<le> length rlog \<and> length rlog \<le> unat p + ring_capacity h
     then Inr (take (unat n) (drop (unat p) rlog), p + of_nat (min (unat n) (length rlog - unat p)))
     else Inl EOVERFLOW)"
  using ring_read_inside [OF assms, of p n] ring_read_outside [OF assms, of p n]
  by (auto simp: ring_read_def)

lemma snapshot_read_exact_witness:
  "hfior_ring_read_snapshot (Some demo_ring1) (Some 0) False 8 = Inr ([demo_record], 1) \<and>
   hfior_ring_read_snapshot (Some demo_ring1) (Some 2) False 8 = Inl EOVERFLOW"
  using snapshot_read_exact [OF demo_ring1_facts(1), of 0 8] snapshot_read_exact [OF demo_ring1_facts(1), of 2 8]
  by (simp add: demo_ring1_facts)

text \<open>C21: Every slot the ring operations access lies inside the mapping: whatever the 64-bit position,
  the record it is masked to ends within the bytes that were mapped.\<close>

theorem accesses_inside_mapping:
  assumes "hfior_initialize_mapping header sz c feats name bus v p ver gen now = Inr h"
    "metadata h' = metadata h"
  shows "sizeof_ring_header + (ring_index h' pos + 1) * sizeof_record \<le> unat sz"
proof -
  note init = initialize_mapping_ok [OF assms(1)]
  have "ring_index h' pos = ring_index h pos" using assms(2) by (simp add: ring_index_def)
  then have "ring_index h' pos < unat c"
    using ring_index_mod [of h pos] init(1,3) ring_capacity_pos [OF init(1)]
    by (simp add: ring_wf_def)
  moreover have "sizeof_ring_header + unat c * sizeof_record \<le> unat sz"
    using assms(1) by (auto simp: hfior_initialize_mapping_def word_less_nat_alt mapping_size_unat not_less
        split: if_splits)
  ultimately show ?thesis by (simp add: sizeof_defs)
qed

lemma accesses_inside_mapping_witness:
  "sizeof_ring_header + (ring_index demo_ring 18446744073709551615 + 1) * sizeof_record \<le> 448"
proof -
  obtain header now where r:
    "hfior_initialize_mapping header (hfior_mapping_size 2) 2 0 None 0 0 0 0 1 now = Inr demo_ring"
    using demo_ring_init by blast
  show ?thesis
    using accesses_inside_mapping [OF r refl, of "18446744073709551615"]
    by (simp only: mapping_size_unat) (simp add: sizeof_defs)
qed

end
