(* ===== verification/Interleaving.thy ===== *)
theory Interleaving
  imports Ring
begin

text \<open>
  The ring under concurrency: \<open>hfior_ring_publish\<close> and the two readers of
  \<open>src/common.c\<close> cut into their single shared accesses, interleaved freely.
  The producer's 32-byte slot write is not atomic, so while it is under way the slot may
  hold any value. Loads of the other side's counter may be stale: the producer may see
  any earlier tail, the consumer any earlier head not below its own cursor; an acquire
  load of a head makes the slots below it visible, which is what the code's
  release/acquire pair provides. The shared tail moves to any position the consumer has
  finished reading: at once by \<open>hfior_ring_drain\<close>, later by an acknowledgement.
\<close>

section \<open>States and steps\<close>

datatype producer_pc =
    P_Idle
  | P_Start hfior_record                 \<comment> \<open>\<open>hfior_ring_publish\<close> called\<close>
  | P_Loaded hfior_record u64 u64        \<comment> \<open>head and tail loaded\<close>
  | P_Writing hfior_record u64           \<comment> \<open>inside the struct copy into the slot\<close>
  | P_Written hfior_record u64           \<comment> \<open>slot complete, head not yet stored\<close>
  | P_Committed hfior_record             \<comment> \<open>head stored, statistics not yet counted\<close>

datatype consumer_pc =
    C_Idle
  | C_Copy nat "hfior_record list"       \<comment> \<open>records wanted, records copied so far\<close>

text \<open>
  \<open>rs_cursor\<close> is the consumer's private position, \<open>rs_published\<close> and \<open>rs_delivered\<close> record
  what was committed and what the consumer's finished reads returned.
\<close>

record ring_system =
  rs_mem :: hfior_ring_header
  rs_ppc :: producer_pc
  rs_cpc :: consumer_pc
  rs_cursor :: u64
  rs_published :: "hfior_record list"
  rs_delivered :: "hfior_record list"

definition store_slot :: "hfior_ring_header \<Rightarrow> u64 \<Rightarrow> hfior_record \<Rightarrow> hfior_ring_header" where
  "store_slot h pos r = h\<lparr>slots := (slots h)[ring_index h pos := r]\<rparr>"

definition store_head :: "hfior_ring_header \<Rightarrow> u64 \<Rightarrow> hfior_ring_header" where
  "store_head h pos = h\<lparr>producer := (producer h)\<lparr>pl_head := pos\<rparr>\<rparr>"

definition store_tail :: "hfior_ring_header \<Rightarrow> u64 \<Rightarrow> hfior_ring_header" where
  "store_tail h pos = h\<lparr>consumer := (consumer h)\<lparr>cl_tail := pos\<rparr>\<rparr>"

definition count_drop :: "hfior_ring_header \<Rightarrow> hfior_ring_header" where
  "count_drop h = h\<lparr>producer := (producer h)\<lparr>pl_dropped_newest := ring_dropped h + 1\<rparr>\<rparr>"

definition count_stats :: "hfior_ring_header \<Rightarrow> hfior_record \<Rightarrow> hfior_ring_header" where
  "count_stats h r = h\<lparr>stats := count_published r (stats h)\<rparr>"

text \<open>
  The commit rule stops at \<open>2^64 - 1\<close> publications (more than seventy million years
  at 8 kHz), so that positions of the model do not wrap.
\<close>

inductive ring_step :: "ring_system \<Rightarrow> ring_system \<Rightarrow> bool" where
  publish_call: "rs_ppc s = P_Idle \<Longrightarrow> ring_step s (s\<lparr>rs_ppc := P_Start r\<rparr>)"
| load_tail: "rs_ppc s = P_Start r \<Longrightarrow> t \<le> ring_tail (rs_mem s) \<Longrightarrow>
    ring_step s (s\<lparr>rs_ppc := P_Loaded r (ring_head (rs_mem s)) t\<rparr>)"
| refuse: "rs_ppc s = P_Loaded r h t \<Longrightarrow> h - t \<ge> ucast (md_capacity (metadata (rs_mem s))) \<Longrightarrow>
    ring_step s (s\<lparr>rs_ppc := P_Idle, rs_mem := count_drop (rs_mem s)\<rparr>)"
| write_begin: "rs_ppc s = P_Loaded r h t \<Longrightarrow> \<not> h - t \<ge> ucast (md_capacity (metadata (rs_mem s))) \<Longrightarrow>
    ring_step s (s\<lparr>rs_ppc := P_Writing r h\<rparr>)"
| write_torn: "rs_ppc s = P_Writing r h \<Longrightarrow>
    ring_step s (s\<lparr>rs_mem := store_slot (rs_mem s) h garbage\<rparr>)"
| write_end: "rs_ppc s = P_Writing r h \<Longrightarrow>
    ring_step s (s\<lparr>rs_ppc := P_Written r h, rs_mem := store_slot (rs_mem s) h r\<rparr>)"
| commit: "rs_ppc s = P_Written r h \<Longrightarrow> unat h + 1 < 2 ^ 64 \<Longrightarrow>
    ring_step s (s\<lparr>rs_ppc := P_Committed r, rs_mem := store_head (rs_mem s) (h + 1),
      rs_published := rs_published s @ [r]\<rparr>)"
| publish_return: "rs_ppc s = P_Committed r \<Longrightarrow>
    ring_step s (s\<lparr>rs_ppc := P_Idle, rs_mem := count_stats (rs_mem s) r\<rparr>)"
| load_head: "rs_cpc s = C_Idle \<Longrightarrow> rs_cursor s \<le> h \<Longrightarrow> h \<le> ring_head (rs_mem s) \<Longrightarrow>
    n = min (unat (max_records :: u64)) (unat (h - rs_cursor s)) \<Longrightarrow>
    ring_step s (s\<lparr>rs_cpc := C_Copy n []\<rparr>)"
| copy_record: "rs_cpc s = C_Copy n out \<Longrightarrow> length out < n \<Longrightarrow>
    ring_step s (s\<lparr>rs_cpc := C_Copy n (out @ [slot_at (rs_mem s) (rs_cursor s + of_nat (length out))])\<rparr>)"
| read_return: "rs_cpc s = C_Copy n out \<Longrightarrow> length out = n \<Longrightarrow>
    ring_step s (s\<lparr>rs_cpc := C_Idle, rs_cursor := rs_cursor s + of_nat n, rs_delivered := rs_delivered s @ out\<rparr>)"
| reclaim: "ring_tail (rs_mem s) \<le> t \<Longrightarrow> t \<le> rs_cursor s \<Longrightarrow>
    ring_step s (s\<lparr>rs_mem := store_tail (rs_mem s) t\<rparr>)"

definition initial_system :: "hfior_ring_header \<Rightarrow> ring_system" where
  "initial_system h = \<lparr>rs_mem = h, rs_ppc = P_Idle, rs_cpc = C_Idle, rs_cursor = 0,
     rs_published = [], rs_delivered = []\<rparr>"

inductive ring_reachable :: "hfior_ring_header \<Rightarrow> ring_system \<Rightarrow> bool" for h where
  start: "ring_reachable h (initial_system h)"
| step: "ring_reachable h s \<Longrightarrow> ring_step s t \<Longrightarrow> ring_reachable h t"

section \<open>The invariant\<close>

fun writing :: "producer_pc \<Rightarrow> bool" where
  "writing (P_Writing r h) = True"
| "writing (P_Written r h) = True"
| "writing _ = False"

text \<open>What the producer knows at each point of a publication.\<close>

fun producer_ok :: "ring_system \<Rightarrow> producer_pc \<Rightarrow> bool" where
  "producer_ok s (P_Loaded r h t) = (h = ring_head (rs_mem s) \<and> t \<le> ring_tail (rs_mem s))"
| "producer_ok s (P_Writing r h) =
     (h = ring_head (rs_mem s) \<and> length (rs_published s) < unat (ring_tail (rs_mem s)) + ring_capacity (rs_mem s))"
| "producer_ok s (P_Written r h) =
     (h = ring_head (rs_mem s) \<and> length (rs_published s) < unat (ring_tail (rs_mem s)) + ring_capacity (rs_mem s) \<and>
      slot_at (rs_mem s) h = r)"
| "producer_ok s _ = True"

fun consumer_ok :: "ring_system \<Rightarrow> consumer_pc \<Rightarrow> bool" where
  "consumer_ok s C_Idle = True"
| "consumer_ok s (C_Copy n out) =
     (unat (rs_cursor s) + n \<le> length (rs_published s) \<and> length out \<le> n \<and>
      out = take (length out) (drop (unat (rs_cursor s)) (rs_published s)))"

definition ring_inv :: "ring_system \<Rightarrow> bool" where
  "ring_inv s \<longleftrightarrow>
     hfior_is_power_of_two_u32 (md_capacity (metadata (rs_mem s))) \<and>
     ring_capacity (rs_mem s) \<le> length (slots (rs_mem s)) \<and>
     unat (ring_head (rs_mem s)) = length (rs_published s) \<and>
     ring_tail (rs_mem s) \<le> rs_cursor s \<and> unat (rs_cursor s) \<le> length (rs_published s) \<and>
     length (rs_published s) \<le> unat (ring_tail (rs_mem s)) + ring_capacity (rs_mem s) \<and>
     (\<forall>j < length (rs_published s).
        length (rs_published s) + (if writing (rs_ppc s) then 1 else 0) \<le> j + ring_capacity (rs_mem s) \<longrightarrow>
        slot_at (rs_mem s) (of_nat j) = rs_published s ! j) \<and>
     rs_delivered s = take (unat (rs_cursor s)) (rs_published s) \<and>
     producer_ok s (rs_ppc s) \<and> consumer_ok s (rs_cpc s)"


lemma store_frame [simp]:
  "metadata (store_slot h p r) = metadata h" "metadata (store_head h p) = metadata h"
  "metadata (store_tail h p) = metadata h" "metadata (count_drop h) = metadata h"
  "metadata (count_stats h r) = metadata h"
  "length (slots (store_slot h p r)) = length (slots h)" "slots (store_head h p) = slots h"
  "slots (store_tail h p) = slots h" "slots (count_drop h) = slots h" "slots (count_stats h r) = slots h"
  "ring_head (store_slot h p r) = ring_head h" "ring_head (store_head h p) = p"
  "ring_head (store_tail h p) = ring_head h" "ring_head (count_drop h) = ring_head h"
  "ring_head (count_stats h r) = ring_head h"
  "ring_tail (store_slot h p r) = ring_tail h" "ring_tail (store_head h p) = ring_tail h"
  "ring_tail (store_tail h p) = p" "ring_tail (count_drop h) = ring_tail h"
  "ring_tail (count_stats h r) = ring_tail h"
  by (simp_all add: store_slot_def store_head_def store_tail_def count_drop_def count_stats_def)

lemma store_index [simp]:
  "ring_index (store_slot h p r) = ring_index h" "ring_index (store_head h p) = ring_index h"
  "ring_index (store_tail h p) = ring_index h" "ring_index (count_drop h) = ring_index h"
  "ring_index (count_stats h r) = ring_index h"
  by (simp_all add: ring_index_def fun_eq_iff)

lemma store_capacity [simp]:
  "ring_capacity (store_slot h p r) = ring_capacity h" "ring_capacity (store_head h p) = ring_capacity h"
  "ring_capacity (store_tail h p) = ring_capacity h" "ring_capacity (count_drop h) = ring_capacity h"
  "ring_capacity (count_stats h r) = ring_capacity h"
  by (simp_all add: ring_capacity_def)

lemma store_slot_at [simp]:
  "slot_at (store_head h p) = slot_at h" "slot_at (store_tail h p) = slot_at h"
  "slot_at (count_drop h) = slot_at h" "slot_at (count_stats h r) = slot_at h"
  by (simp_all add: slot_at_def fun_eq_iff)

lemma inv_index: "ring_inv s \<Longrightarrow> ring_index (rs_mem s) p = unat p mod ring_capacity (rs_mem s)"
  by (simp add: ring_inv_def ring_index_mod)

lemma inv_index_less: "ring_inv s \<Longrightarrow> ring_index (rs_mem s) p < length (slots (rs_mem s))"
  using inv_index [of s p]
  by (auto simp: ring_inv_def ring_capacity_def hfior_is_power_of_two_u32_def unat_gt_0
      intro!: less_le_trans [OF mod_less_divisor])

lemma inv_slot:
  assumes "ring_inv s"
  shows "slot_at (store_slot (rs_mem s) p r) q =
     (if ring_index (rs_mem s) p = ring_index (rs_mem s) q then r else slot_at (rs_mem s) q)"
  using inv_index_less [OF assms, of p]
  by (simp add: slot_at_def) (simp add: store_slot_def)

lemma inv_short: "ring_inv s \<Longrightarrow> length (rs_published s) < 2 ^ 64"
  using unat_less_pow [of "ring_head (rs_mem s)"] by (simp add: ring_inv_def)

lemma inv_head:
  assumes "ring_inv s"
  shows "ring_head (rs_mem s) = of_nat (length (rs_published s))"
proof -
  have "of_nat (unat (ring_head (rs_mem s))) = ring_head (rs_mem s)" by simp
  with assms show ?thesis by (simp add: ring_inv_def)
qed

lemma inv_retained:
  "ring_inv s \<Longrightarrow> j < length (rs_published s) \<Longrightarrow>
   length (rs_published s) + (if writing (rs_ppc s) then 1 else 0) \<le> j + ring_capacity (rs_mem s) \<Longrightarrow>
   slot_at (rs_mem s) (of_nat j) = rs_published s ! j"
  by (simp add: ring_inv_def)

lemma consumer_ok_cong:
  "rs_cursor t = rs_cursor s \<Longrightarrow> rs_published t = rs_published s @ rs \<Longrightarrow> consumer_ok s pc \<Longrightarrow> consumer_ok t pc"
  by (cases pc) auto

lemma producer_ok_cong:
  "ring_head (rs_mem t) = ring_head (rs_mem s) \<Longrightarrow> ring_tail (rs_mem s) \<le> ring_tail (rs_mem t) \<Longrightarrow>
   ring_capacity (rs_mem t) = ring_capacity (rs_mem s) \<Longrightarrow> slot_at (rs_mem t) = slot_at (rs_mem s) \<Longrightarrow>
   rs_published t = rs_published s \<Longrightarrow> producer_ok s pc \<Longrightarrow> producer_ok t pc"
  by (cases pc) (auto simp: word_le_nat_alt)

text \<open>
  The slot a publication writes is the one of the next position; it is not the slot of
  any unread position.
\<close>

lemma inv_write_apart:
  assumes inv: "ring_inv s"
    and "j < length (rs_published s)" "length (rs_published s) < j + ring_capacity (rs_mem s)"
  shows "ring_index (rs_mem s) (ring_head (rs_mem s)) \<noteq> ring_index (rs_mem s) (of_nat j)"
  using assms mod_eq_imp_eq_window [of j "ring_capacity (rs_mem s)" "length (rs_published s)"]
    inv_short [OF inv]
  by (auto simp: inv_index inv_head unat_of_nat_index)

lemma inv_copy:
  assumes inv: "ring_inv s" and pc: "rs_cpc s = C_Copy n out" and more: "length out < n"
  shows "slot_at (rs_mem s) (rs_cursor s + of_nat (length out)) =
    rs_published s ! (unat (rs_cursor s) + length out)"
proof -
  let ?j = "unat (rs_cursor s) + length out"
  have j: "?j < length (rs_published s)" "unat (ring_tail (rs_mem s)) \<le> ?j"
    using inv pc more by (auto simp: ring_inv_def word_le_nat_alt)
  have "length (rs_published s) + (if writing (rs_ppc s) then 1 else 0) \<le> ?j + ring_capacity (rs_mem s)"
    using inv j(2) by (cases "rs_ppc s") (auto simp: ring_inv_def)
  from inv_retained [OF inv j(1) this] show ?thesis by simp
qed

section \<open>Every step keeps the invariant\<close>

lemma ring_inv_write:
  assumes inv: "ring_inv s" and w: "rs_ppc s = P_Writing r h \<or> rs_ppc s = P_Written r h"
    and pc: "rs_ppc t = P_Writing r h \<or> rs_ppc t = P_Written r h \<and> v = r"
    and t: "rs_mem t = store_slot (rs_mem s) h v" "rs_cpc t = rs_cpc s" "rs_cursor t = rs_cursor s"
      "rs_published t = rs_published s" "rs_delivered t = rs_delivered s"
  shows "ring_inv t"
proof -
  have h: "h = ring_head (rs_mem s)" "length (rs_published s) < unat (ring_tail (rs_mem s)) + ring_capacity (rs_mem s)"
    using inv w by (auto simp: ring_inv_def)
  have "slot_at (rs_mem t) (of_nat j) = rs_published t ! j"
    if "j < length (rs_published t)" "length (rs_published t) + 1 \<le> j + ring_capacity (rs_mem t)" for j
    using that t inv_write_apart [OF inv, of j] inv_slot [OF inv, of h v] inv w h
    by (auto simp: ring_inv_def)
  moreover have "slot_at (rs_mem t) h = v"
    using t inv_slot [OF inv, of h v h] by simp
  moreover have "consumer_ok t (rs_cpc t)"
    using inv t consumer_ok_cong [of t s "[]"] by (simp add: ring_inv_def)
  ultimately show ?thesis
    using inv t h pc by (auto simp: ring_inv_def)
qed

lemma ring_inv_commit:
  assumes inv: "ring_inv s" and pc: "rs_ppc s = P_Written r h" and room: "unat h + 1 < 2 ^ 64"
  shows "ring_inv (s\<lparr>rs_ppc := P_Committed r, rs_mem := store_head (rs_mem s) (h + 1),
    rs_published := rs_published s @ [r]\<rparr>)"
proof -
  have h: "h = ring_head (rs_mem s)" "length (rs_published s) < unat (ring_tail (rs_mem s)) + ring_capacity (rs_mem s)"
      "slot_at (rs_mem s) h = r"
    using inv pc by (auto simp: ring_inv_def)
  have len: "unat h = length (rs_published s)" using inv h by (simp add: ring_inv_def)
  have "unat (h + 1) = length (rs_published s) + 1"
    using room len by (simp add: unat_Suc_small)
  moreover have "slot_at (rs_mem s) (of_nat j) = (rs_published s @ [r]) ! j"
    if "j < length (rs_published s) + 1" "length (rs_published s) + 1 \<le> j + ring_capacity (rs_mem s)" for j
    using that inv pc h inv_head [OF inv] by (auto simp: ring_inv_def nth_append less_Suc_eq)
  moreover have "consumer_ok (s\<lparr>rs_ppc := P_Committed r, rs_mem := store_head (rs_mem s) (h + 1),
      rs_published := rs_published s @ [r]\<rparr>) (rs_cpc s)"
    using inv by - (rule consumer_ok_cong [of _ s "[r]"], simp_all add: ring_inv_def)
  ultimately show ?thesis
    using inv h len by (auto simp: ring_inv_def)
qed

lemma ring_inv_producer_move:
  assumes inv: "ring_inv s" and ok: "producer_ok s pc" and w: "writing (rs_ppc s) \<longrightarrow> writing pc"
  shows "ring_inv (s\<lparr>rs_ppc := pc\<rparr>)"
proof -
  have "producer_ok (s\<lparr>rs_ppc := pc\<rparr>) pc"
    using ok by - (rule producer_ok_cong [of _ s], simp_all)
  moreover have "consumer_ok (s\<lparr>rs_ppc := pc\<rparr>) (rs_cpc s)"
    using inv by - (rule consumer_ok_cong [of _ s "[]"], simp_all add: ring_inv_def)
  ultimately show ?thesis
    using inv w by (auto simp: ring_inv_def)
qed

lemma ring_inv_count:
  assumes inv: "ring_inv s" and w: "\<not> writing (rs_ppc s)"
    and m: "m = count_drop (rs_mem s) \<or> m = count_stats (rs_mem s) r"
  shows "ring_inv (s\<lparr>rs_ppc := P_Idle, rs_mem := m\<rparr>)"
proof -
  have "consumer_ok (s\<lparr>rs_ppc := P_Idle, rs_mem := m\<rparr>) (rs_cpc s)"
    using inv by - (rule consumer_ok_cong [of _ s "[]"], simp_all add: ring_inv_def)
  then show ?thesis
    using inv w m by (auto simp: ring_inv_def)
qed

lemma ring_inv_read_return:
  assumes inv: "ring_inv s" and pc: "rs_cpc s = C_Copy n out" "length out = n"
  shows "ring_inv (s\<lparr>rs_cpc := C_Idle, rs_cursor := rs_cursor s + of_nat n, rs_delivered := rs_delivered s @ out\<rparr>)"
proof -
  have n: "unat (rs_cursor s) + n \<le> length (rs_published s)"
    using inv pc by (simp add: ring_inv_def)
  then have c: "unat (rs_cursor s + of_nat n) = unat (rs_cursor s) + n"
    using inv_short [OF inv] by (subst unat_add_small) (simp_all add: unat_of_nat_index)
  have out: "out = take n (drop (unat (rs_cursor s)) (rs_published s))"
    using inv pc by (simp add: ring_inv_def)
  then have "rs_delivered s @ out = take (unat (rs_cursor s) + n) (rs_published s)"
    using inv by (simp add: ring_inv_def take_add)
  moreover have "producer_ok (s\<lparr>rs_cpc := C_Idle, rs_cursor := rs_cursor s + of_nat n,
      rs_delivered := rs_delivered s @ out\<rparr>) (rs_ppc s)"
    using inv by - (rule producer_ok_cong [of _ s], simp_all add: ring_inv_def)
  ultimately show ?thesis
    using inv c n by (auto simp: ring_inv_def word_le_nat_alt)
qed

lemma ring_inv_consumer_move:
  assumes inv: "ring_inv s" and ok: "consumer_ok s pc"
  shows "ring_inv (s\<lparr>rs_cpc := pc\<rparr>)"
proof -
  have "consumer_ok (s\<lparr>rs_cpc := pc\<rparr>) pc"
    using ok by - (rule consumer_ok_cong [of _ s "[]"], simp_all)
  moreover have "producer_ok (s\<lparr>rs_cpc := pc\<rparr>) (rs_ppc s)"
    using inv by - (rule producer_ok_cong [of _ s], simp_all add: ring_inv_def)
  ultimately show ?thesis
    using inv by (auto simp: ring_inv_def)
qed

lemma ring_inv_reclaim:
  assumes inv: "ring_inv s" and t: "ring_tail (rs_mem s) \<le> t" "t \<le> rs_cursor s"
  shows "ring_inv (s\<lparr>rs_mem := store_tail (rs_mem s) t\<rparr>)"
proof -
  have le: "unat (ring_tail (rs_mem s)) \<le> unat t" using t by (simp add: word_le_nat_alt)
  have "producer_ok (s\<lparr>rs_mem := store_tail (rs_mem s) t\<rparr>) (rs_ppc s)"
    using inv t by - (rule producer_ok_cong [of _ s], simp_all add: ring_inv_def)
  moreover have "consumer_ok (s\<lparr>rs_mem := store_tail (rs_mem s) t\<rparr>) (rs_cpc s)"
    using inv by - (rule consumer_ok_cong [of _ s "[]"], simp_all add: ring_inv_def)
  ultimately show ?thesis
    using inv t le by (auto simp: ring_inv_def)
qed

lemma ring_inv_step:
  assumes "ring_step s t" "ring_inv s"
  shows "ring_inv t"
  using assms
proof (cases rule: ring_step.cases)
  case (write_begin r h tl)
  have "unat (h - tl) < ring_capacity (rs_mem s)"
    using write_begin by (simp add: word_le_nat_alt ring_capacity_def)
  moreover have "unat (h - tl) = unat h - unat tl" "unat tl \<le> unat (ring_tail (rs_mem s))"
      "unat h = length (rs_published s)" "h = ring_head (rs_mem s)"
      "unat (ring_tail (rs_mem s)) \<le> length (rs_published s)"
    using assms(2) write_begin by (auto simp: ring_inv_def word_le_nat_alt unat_sub_le)
  ultimately have "producer_ok s (P_Writing r h)" by simp
  then show ?thesis
    using assms(2) write_begin by (auto intro: ring_inv_producer_move)
next
  case (write_torn r h garbage)
  then show ?thesis
    by (intro ring_inv_write [OF assms(2), of r h _ garbage]) auto
next
  case (write_end r h)
  then show ?thesis
    by (intro ring_inv_write [OF assms(2), of r h _ r]) auto
next
  case (load_head h n max_records)
  have "unat (rs_cursor s) + n \<le> length (rs_published s)"
    using assms(2) load_head by (auto simp: ring_inv_def word_le_nat_alt unat_sub_le)
  then show ?thesis
    using assms(2) load_head by (auto intro: ring_inv_consumer_move)
next
  case (copy_record n out)
  have n: "unat (rs_cursor s) + n \<le> length (rs_published s)" "out = take (length out) (drop (unat (rs_cursor s)) (rs_published s))"
    using assms(2) copy_record by (auto simp: ring_inv_def)
  have "out @ [rs_published s ! (unat (rs_cursor s) + length out)] =
      take (Suc (length out)) (drop (unat (rs_cursor s)) (rs_published s))"
    using n copy_record(3) by (simp add: take_Suc_conv_app_nth)
  then have "consumer_ok s (C_Copy n (out @ [slot_at (rs_mem s) (rs_cursor s + of_nat (length out))]))"
    using n copy_record inv_copy [OF assms(2) copy_record(2,3)] by simp
  then show ?thesis
    using assms(2) copy_record by (auto intro: ring_inv_consumer_move)
qed (auto intro: ring_inv_producer_move ring_inv_count ring_inv_commit ring_inv_read_return
    ring_inv_reclaim)


lemma ring_inv_initial:
  assumes "ring_wf h" "ring_head h = 0" "ring_tail h = 0"
  shows "ring_inv (initial_system h)"
  using assms by (simp add: ring_inv_def initial_system_def ring_wf_def)

lemma reachable_inv:
  assumes "ring_reachable h s" "ring_wf h" "ring_head h = 0" "ring_tail h = 0"
  shows "ring_inv s"
  using assms by (induction rule: ring_reachable.induct) (auto intro: ring_inv_initial ring_inv_step)

lemma ring_step_capacity: "ring_step s t \<Longrightarrow> metadata (rs_mem t) = metadata (rs_mem s)"
  by (auto elim: ring_step.cases)

lemma reachable_metadata: "ring_reachable h s \<Longrightarrow> metadata (rs_mem s) = metadata h"
  by (induction rule: ring_reachable.induct) (auto simp: initial_system_def ring_step_capacity)


section \<open>Macro steps\<close>

lemma four_steps: "R a b \<Longrightarrow> R b c \<Longrightarrow> R c d \<Longrightarrow> R d e \<Longrightarrow> R\<^sup>*\<^sup>* a e"
  by (rule converse_rtranclp_into_rtranclp, assumption)+ simp

lemma six_steps: "R a b \<Longrightarrow> R b c \<Longrightarrow> R c d \<Longrightarrow> R d e \<Longrightarrow> R e f \<Longrightarrow> R f g \<Longrightarrow> R\<^sup>*\<^sup>* a g"
  by (rule converse_rtranclp_into_rtranclp, assumption)+ simp

text \<open>A whole uninterrupted publication, and a whole uninterrupted read of one record.\<close>

definition after_publish :: "ring_system \<Rightarrow> hfior_record \<Rightarrow> ring_system" where
  "after_publish s r =
     s\<lparr>rs_mem := count_stats (store_head (store_slot (rs_mem s) (ring_head (rs_mem s)) r)
          (ring_head (rs_mem s) + 1)) r,
       rs_published := rs_published s @ [r]\<rparr>"

lemma ring_steps_publish:
  assumes "rs_ppc s = P_Idle" "unat (hfior_ring_depth (rs_mem s)) < ring_capacity (rs_mem s)"
    "unat (ring_head (rs_mem s)) + 1 < 2 ^ 64"
  shows "ring_step\<^sup>*\<^sup>* s (after_publish s r)"
proof -
  let ?m = "rs_mem s" and ?h = "ring_head (rs_mem s)"
  let ?s1 = "s\<lparr>rs_ppc := P_Start r\<rparr>"
  let ?s2 = "?s1\<lparr>rs_ppc := P_Loaded r ?h (ring_tail ?m)\<rparr>"
  let ?s3 = "?s2\<lparr>rs_ppc := P_Writing r ?h\<rparr>"
  let ?s4 = "?s3\<lparr>rs_ppc := P_Written r ?h, rs_mem := store_slot ?m ?h r\<rparr>"
  let ?s5 = "?s4\<lparr>rs_ppc := P_Committed r, rs_mem := store_head (store_slot ?m ?h r) (?h + 1),
    rs_published := rs_published s @ [r]\<rparr>"
  let ?s6 = "?s5\<lparr>rs_ppc := P_Idle,
    rs_mem := count_stats (store_head (store_slot ?m ?h r) (?h + 1)) r\<rparr>"
  have "ring_step s ?s1" using assms(1) by (rule ring_step.publish_call)
  moreover have "ring_step ?s1 ?s2"
    using ring_step.load_tail [of ?s1 r "ring_tail ?m"] by simp
  moreover have "ring_step ?s2 ?s3"
    using ring_step.write_begin [of ?s2 r ?h "ring_tail ?m"] assms(2)
    by (simp add: word_le_nat_alt hfior_ring_depth_def ring_capacity_def)
  moreover have "ring_step ?s3 ?s4"
    using ring_step.write_end [of ?s3 r ?h] by simp
  moreover have "ring_step ?s4 ?s5"
    using ring_step.commit [of ?s4 r ?h] assms(3) by simp
  moreover have "ring_step ?s5 ?s6"
    using ring_step.publish_return [of ?s5 r] by simp
  ultimately have "ring_step\<^sup>*\<^sup>* s ?s6" by (rule six_steps)
  moreover have "?s6 = after_publish s r"
    using assms(1) by (cases s) (simp add: after_publish_def)
  ultimately show ?thesis by (simp only:)
qed

lemma after_publish_simps [simp]:
  "rs_ppc (after_publish s r) = rs_ppc s" "rs_cpc (after_publish s r) = rs_cpc s"
  "rs_cursor (after_publish s r) = rs_cursor s" "rs_delivered (after_publish s r) = rs_delivered s"
  "rs_published (after_publish s r) = rs_published s @ [r]"
  "ring_head (rs_mem (after_publish s r)) = ring_head (rs_mem s) + 1"
  "ring_tail (rs_mem (after_publish s r)) = ring_tail (rs_mem s)"
  "ring_capacity (rs_mem (after_publish s r)) = ring_capacity (rs_mem s)"
  "ring_index (rs_mem (after_publish s r)) = ring_index (rs_mem s)"
  "metadata (rs_mem (after_publish s r)) = metadata (rs_mem s)"
  by (simp_all add: after_publish_def)

fun after_publishes :: "ring_system \<Rightarrow> hfior_record list \<Rightarrow> ring_system" where
  "after_publishes s [] = s"
| "after_publishes s (r # rs) = after_publishes (after_publish s r) rs"

lemma after_publishes_simps [simp]:
  "rs_ppc (after_publishes s rs) = rs_ppc s" "rs_cpc (after_publishes s rs) = rs_cpc s"
  "rs_cursor (after_publishes s rs) = rs_cursor s"
  "rs_published (after_publishes s rs) = rs_published s @ rs"
  "ring_head (rs_mem (after_publishes s rs)) = ring_head (rs_mem s) + of_nat (length rs)"
  "ring_tail (rs_mem (after_publishes s rs)) = ring_tail (rs_mem s)"
  "ring_capacity (rs_mem (after_publishes s rs)) = ring_capacity (rs_mem s)"
  "ring_index (rs_mem (after_publishes s rs)) = ring_index (rs_mem s)"
  "metadata (rs_mem (after_publishes s rs)) = metadata (rs_mem s)"
  by (induction rs arbitrary: s) (simp_all add: algebra_simps)

lemma ring_steps_publishes:
  assumes "rs_ppc s = P_Idle"
    "unat (hfior_ring_depth (rs_mem s)) + length rs \<le> ring_capacity (rs_mem s)"
    "unat (ring_head (rs_mem s)) + length rs < 2 ^ 64"
  shows "ring_step\<^sup>*\<^sup>* s (after_publishes s rs)"
  using assms
proof (induction rs arbitrary: s)
  case Nil
  then show ?case by simp
next
  case (Cons r rs)
  let ?t = "after_publish s r"
  have "unat (hfior_ring_depth (rs_mem s)) + 1 < 2 ^ 64"
    using Cons.prems(2) ring_capacity_less [of "rs_mem s"] by simp
  then have d: "unat (hfior_ring_depth (rs_mem s) + 1) = unat (hfior_ring_depth (rs_mem s)) + 1"
    by (intro unat_Suc_small) simp
  have "hfior_ring_depth (rs_mem ?t) = hfior_ring_depth (rs_mem s) + 1"
    by (simp add: hfior_ring_depth_def algebra_simps)
  then have "unat (hfior_ring_depth (rs_mem ?t)) + length rs \<le> ring_capacity (rs_mem ?t)"
    using Cons.prems(2) d by simp
  moreover have "unat (ring_head (rs_mem ?t)) + length rs < 2 ^ 64"
    using Cons.prems(3) by (simp add: unat_Suc_small)
  ultimately have "ring_step\<^sup>*\<^sup>* ?t (after_publishes ?t rs)"
    using Cons.prems(1) by (intro Cons.IH) simp_all
  moreover have "ring_step\<^sup>*\<^sup>* s ?t"
    using Cons.prems by (intro ring_steps_publish) simp_all
  ultimately show ?case by simp
qed

lemma ring_steps_read_one:
  assumes "rs_cpc s = C_Idle" "rs_cursor s = 0" "ring_head (rs_mem s) = 1" "ring_tail (rs_mem s) = 0"
  shows "ring_step\<^sup>*\<^sup>* s (s\<lparr>rs_cursor := 1, rs_mem := store_tail (rs_mem s) 1,
    rs_delivered := rs_delivered s @ [slot_at (rs_mem s) 0]\<rparr>)"
proof -
  let ?r = "slot_at (rs_mem s) 0"
  let ?s1 = "s\<lparr>rs_cpc := C_Copy 1 []\<rparr>"
  let ?s2 = "?s1\<lparr>rs_cpc := C_Copy 1 [?r]\<rparr>"
  let ?s3 = "?s2\<lparr>rs_cpc := C_Idle, rs_cursor := 1, rs_delivered := rs_delivered s @ [?r]\<rparr>"
  let ?s4 = "?s3\<lparr>rs_mem := store_tail (rs_mem s) 1\<rparr>"
  have "ring_step s ?s1"
    using ring_step.load_head [of s 1 1 1] assms by simp
  moreover have "ring_step ?s1 ?s2"
    using ring_step.copy_record [of ?s1 1 "[]"] assms(2) by simp
  moreover have "ring_step ?s2 ?s3"
    using ring_step.read_return [of ?s2 1 "[?r]"] assms(2) by simp
  moreover have "ring_step ?s3 ?s4"
    using ring_step.reclaim [of ?s3 1] assms(4) by simp
  ultimately have "ring_step\<^sup>*\<^sup>* s ?s4" by (rule four_steps)
  moreover have "?s4 = s\<lparr>rs_cursor := 1, rs_mem := store_tail (rs_mem s) 1,
      rs_delivered := rs_delivered s @ [?r]\<rparr>"
    using assms(1) by (cases s) simp
  ultimately show ?thesis by (simp only:)
qed

lemma ring_steps_torn:
  assumes "rs_ppc s = P_Idle" "unat (hfior_ring_depth (rs_mem s)) < ring_capacity (rs_mem s)"
  shows "ring_step\<^sup>*\<^sup>* s (s\<lparr>rs_ppc := P_Writing r (ring_head (rs_mem s)),
    rs_mem := store_slot (rs_mem s) (ring_head (rs_mem s)) garbage\<rparr>)"
proof -
  let ?m = "rs_mem s" and ?h = "ring_head (rs_mem s)"
  let ?s1 = "s\<lparr>rs_ppc := P_Start r\<rparr>"
  let ?s2 = "?s1\<lparr>rs_ppc := P_Loaded r ?h (ring_tail ?m)\<rparr>"
  let ?s3 = "?s2\<lparr>rs_ppc := P_Writing r ?h\<rparr>"
  let ?s4 = "?s3\<lparr>rs_mem := store_slot ?m ?h garbage\<rparr>"
  have "ring_step s ?s1" using assms(1) by (rule ring_step.publish_call)
  moreover have "ring_step ?s1 ?s2"
    using ring_step.load_tail [of ?s1 r "ring_tail ?m"] by simp
  moreover have "ring_step ?s2 ?s3"
    using ring_step.write_begin [of ?s2 r ?h "ring_tail ?m"] assms(2)
    by (simp add: word_le_nat_alt hfior_ring_depth_def ring_capacity_def)
  moreover have "ring_step ?s3 ?s4"
    using ring_step.write_torn [of ?s3 r ?h garbage] by simp
  ultimately have "ring_step\<^sup>*\<^sup>* s ?s4" by (rule four_steps)
  then show ?thesis by simp
qed

lemma reachable_steps: "ring_step\<^sup>*\<^sup>* s t \<Longrightarrow> ring_reachable h s \<Longrightarrow> ring_reachable h t"
  by (induction rule: rtranclp_induct) (auto intro: ring_reachable.step)

section \<open>Properties\<close>

text \<open>C4: However the producer and the consumer interleave, with torn slot writes and stale loads of
  the other side's counter, what the consumer's finished reads delivered is exactly the first records
  published, in order; a read under way has copied only published records, the next ones in order, and
  no torn slot value; and the cursor never passes what was published.\<close>

theorem delivered_is_published_prefix:
  assumes "ring_reachable h s" "ring_wf h" "ring_head h = 0" "ring_tail h = 0"
  shows "rs_delivered s = take (unat (rs_cursor s)) (rs_published s) \<and>
    unat (rs_cursor s) \<le> length (rs_published s) \<and>
    (\<forall>n out. rs_cpc s = C_Copy n out \<longrightarrow>
       out = take (length out) (drop (unat (rs_cursor s)) (rs_published s)))"
  using reachable_inv [OF assms] by (auto simp: ring_inv_def)

definition demo_system :: ring_system where
  "demo_system = (let s = after_publish (initial_system demo_ring) demo_record
     in s\<lparr>rs_cursor := 1, rs_mem := store_tail (rs_mem s) 1,
          rs_delivered := rs_delivered s @ [slot_at (rs_mem s) 0]\<rparr>)"

lemma demo_system_reachable: "ring_reachable demo_ring demo_system" "rs_cursor demo_system = 1"
  "rs_published demo_system = [demo_record]"
proof -
  let ?s = "after_publish (initial_system demo_ring) demo_record"
  have i: "rs_mem (initial_system demo_ring) = demo_ring" "rs_ppc (initial_system demo_ring) = P_Idle"
    "rs_cpc (initial_system demo_ring) = C_Idle" "rs_cursor (initial_system demo_ring) = 0"
    "rs_published (initial_system demo_ring) = []"
    by (simp_all add: initial_system_def)
  have "ring_step\<^sup>*\<^sup>* (initial_system demo_ring) ?s"
    by (rule ring_steps_publish) (simp_all add: i demo_ring_facts hfior_ring_depth_def)
  moreover have "ring_step\<^sup>*\<^sup>* ?s demo_system"
    unfolding demo_system_def Let_def
    by (rule ring_steps_read_one) (simp_all add: i demo_ring_facts)
  ultimately show "ring_reachable demo_ring demo_system"
    using reachable_steps [OF rtranclp_trans ring_reachable.start] by blast
  show "rs_cursor demo_system = 1" "rs_published demo_system = [demo_record]"
    by (simp_all add: demo_system_def Let_def i)
qed

lemma delivered_is_published_prefix_witness: "rs_delivered demo_system = [demo_record]"
  using delivered_is_published_prefix [OF demo_system_reachable(1)] demo_system_reachable(2,3)
  by (simp add: demo_ring_facts)

text \<open>How many steps the producer has left.\<close>

fun steps_left :: "producer_pc \<Rightarrow> nat" where
  "steps_left P_Idle = 0"
| "steps_left (P_Start r) = 5"
| "steps_left (P_Loaded r h t) = 4"
| "steps_left (P_Writing r h) = 3"
| "steps_left (P_Written r h) = 2"
| "steps_left (P_Committed r) = 1"

lemma producer_progress:
  assumes "ring_inv s" "rs_ppc s \<noteq> P_Idle" "unat (ring_head (rs_mem s)) + 1 < 2 ^ 64"
  shows "\<exists>t. ring_step s t \<and> steps_left (rs_ppc t) < steps_left (rs_ppc s) \<and> rs_cpc t = rs_cpc s \<and>
    rs_cursor t = rs_cursor s \<and> ring_tail (rs_mem t) = ring_tail (rs_mem s) \<and>
    (rs_ppc t = P_Idle \<or> unat (ring_head (rs_mem t)) + 1 < 2 ^ 64 \<or> (\<exists>r. rs_ppc t = P_Committed r))"
proof (cases "rs_ppc s")
  case (P_Start r)
  then show ?thesis using assms(3) ring_step.load_tail [OF P_Start order.refl] by force
next
  case (P_Loaded r h t)
  then show ?thesis
    using assms(3) ring_step.refuse [OF P_Loaded] ring_step.write_begin [OF P_Loaded]
    by (cases "h - t \<ge> ucast (md_capacity (metadata (rs_mem s)))") force+
next
  case (P_Writing r h)
  then show ?thesis using assms(3) ring_step.write_end [OF P_Writing] by force
next
  case (P_Written r h)
  then have "unat h + 1 < 2 ^ 64" using assms(1,3) by (simp add: ring_inv_def)
  from ring_step.commit [OF P_Written this] show ?thesis
    by (intro exI conjI) (assumption, simp_all add: P_Written)
next
  case (P_Committed r)
  then show ?thesis using ring_step.publish_return [OF P_Committed] by force
qed (use assms in simp)

lemma producer_finishes:
  assumes "ring_inv s" "unat (ring_head (rs_mem s)) + 1 < 2 ^ 64 \<or> (\<exists>r. rs_ppc s = P_Committed r)"
  shows "\<exists>n t. n \<le> steps_left (rs_ppc s) \<and> (ring_step ^^ n) s t \<and> rs_ppc t = P_Idle \<and>
    rs_cpc t = rs_cpc s \<and> rs_cursor t = rs_cursor s \<and> ring_tail (rs_mem t) = ring_tail (rs_mem s)"
  using assms
proof (induction "steps_left (rs_ppc s)" arbitrary: s rule: less_induct)
  case less
  show ?case
  proof (cases "rs_ppc s = P_Idle")
    case True
    then show ?thesis by (intro exI [of _ 0] exI [of _ s]) simp
  next
    case False
    have "\<exists>t. ring_step s t \<and> steps_left (rs_ppc t) < steps_left (rs_ppc s) \<and> rs_cpc t = rs_cpc s \<and>
      rs_cursor t = rs_cursor s \<and> ring_tail (rs_mem t) = ring_tail (rs_mem s) \<and>
      (rs_ppc t = P_Idle \<or> unat (ring_head (rs_mem t)) + 1 < 2 ^ 64 \<or> (\<exists>r. rs_ppc t = P_Committed r))"
    proof (cases "\<exists>r. rs_ppc s = P_Committed r")
      case True
      then obtain r where "rs_ppc s = P_Committed r" by blast
      then show ?thesis using ring_step.publish_return [of s r] by force
    next
      case False
      then show ?thesis using less.prems producer_progress [OF less.prems(1) \<open>rs_ppc s \<noteq> P_Idle\<close>] by blast
    qed
    then obtain t where t: "ring_step s t" "steps_left (rs_ppc t) < steps_left (rs_ppc s)"
      "rs_cpc t = rs_cpc s" "rs_cursor t = rs_cursor s" "ring_tail (rs_mem t) = ring_tail (rs_mem s)"
      "rs_ppc t = P_Idle \<or> unat (ring_head (rs_mem t)) + 1 < 2 ^ 64 \<or> (\<exists>r. rs_ppc t = P_Committed r)"
      by blast
    have inv: "ring_inv t" using ring_inv_step [OF t(1) less.prems(1)] .
    have "\<exists>n u. n \<le> steps_left (rs_ppc t) \<and> (ring_step ^^ n) t u \<and> rs_ppc u = P_Idle \<and>
        rs_cpc u = rs_cpc t \<and> rs_cursor u = rs_cursor t \<and> ring_tail (rs_mem u) = ring_tail (rs_mem t)"
    proof (cases "rs_ppc t = P_Idle")
      case True
      then show ?thesis by (intro exI [of _ 0] exI [of _ t]) simp
    next
      case False
      with t(6) show ?thesis using less.hyps [OF t(2) inv] by blast
    qed
    then obtain n u where u: "n \<le> steps_left (rs_ppc t)" "(ring_step ^^ n) t u" "rs_ppc u = P_Idle"
      "rs_cpc u = rs_cpc t" "rs_cursor u = rs_cursor t" "ring_tail (rs_mem u) = ring_tail (rs_mem t)"
      by blast
    have "(ring_step ^^ Suc n) s u" using relpowp_Suc_I2 [OF t(1) u(2)] .
    then show ?thesis
      using t u by (intro exI [of _ "Suc n"] exI [of _ u]) simp
  qed
qed



end
