(* ===== verification/Policy.thy ===== *)
theory Policy
  imports Interleaving
begin

text \<open>
  The consumer policies of \<open>src/policy.c\<close> over a read-only ring: a cursor with a
  private tail, explicit acknowledgement over the control socket, the bounded
  stable latch, and the newest-record query. The ring is shared with the producer, so
  an operation that looks at it several times takes the ring it sees each time.
\<close>

record hfior_cursor =
  cu_control_socket_fd :: int
  cu_generation :: u64
  cu_local_tail :: u64
  cu_acknowledged_tail :: u64

text \<open>
  A null \<open>cursor\<close> is the flag \<open>cursor_null\<close> of each operation, a null \<open>ring\<close> is \<open>None\<close>,
  a null \<open>out\<close> the flag \<open>out_null\<close>.
\<close>

definition hfior_cursor_init ::
    "bool \<Rightarrow> hfior_ring_header option \<Rightarrow> int \<Rightarrow> u64 \<Rightarrow> bool \<Rightarrow> errno + hfior_cursor" where
  "hfior_cursor_init cursor_null ring control_socket_fd generation begin_at_current_head =
     (case ring of
        None \<Rightarrow> Inl EINVAL
      | Some ring \<Rightarrow>
          if cursor_null \<or> md_magic (metadata ring) \<noteq> HFIOR_MAGIC \<or>
             md_abi_version (metadata ring) \<noteq> HFIOR_ABI_VERSION
          then Inl EINVAL
          else
            let head = pl_head (producer ring); tail = cl_tail (consumer ring);
                start = (if begin_at_current_head then head else tail)
            in Inr \<lparr>cu_control_socket_fd = control_socket_fd, cu_generation = generation,
                    cu_local_tail = start, cu_acknowledged_tail = start\<rparr>)"

text \<open>The result and the cursor afterwards; \<open>ring\<close> is the mapping as this read sees it.\<close>

definition hfior_cursor_drain ::
    "bool \<Rightarrow> hfior_cursor \<Rightarrow> hfior_ring_header \<Rightarrow> bool \<Rightarrow> u64 \<Rightarrow>
     (errno + hfior_record list) \<times> hfior_cursor" where
  "hfior_cursor_drain cursor_null cursor ring out_null max_records =
     (if cursor_null then (Inl EINVAL, cursor)
      else
        case hfior_ring_read_snapshot (Some ring) (Some (cu_local_tail cursor)) out_null max_records of
          Inl e \<Rightarrow> (Inl e, cursor)
        | Inr (out, tail) \<Rightarrow> (Inr out, cursor\<lparr>cu_local_tail := tail\<rparr>))"

text \<open>
  The return code, the cursor afterwards and the bytes handed to \<open>send\<close>, if any.
  \<open>answer\<close> is what \<open>send\<close> does; it is not retried.
\<close>

definition hfior_cursor_ack ::
    "bool \<Rightarrow> hfior_cursor \<Rightarrow> syscall \<Rightarrow> int \<times> hfior_cursor \<times> u8 list option" where
  "hfior_cursor_ack cursor_null cursor answer =
     (if cursor_null \<or> cu_control_socket_fd cursor < 0 then (- 1, cursor, None)
      else if cu_local_tail cursor = cu_acknowledged_tail cursor then (0, cursor, None)
      else
        let message = \<lparr>
              ack_header = \<lparr>mh_type = HFIOR_MSG_ACK, mh_size = of_nat sizeof_ack_message\<rparr>,
              ack_generation = cu_generation cursor,
              ack_consumed_tail = cu_local_tail cursor\<rparr>;
            bytes = encode_ack message
        in if answer = Returned (int sizeof_ack_message)
           then (0, cursor\<lparr>cu_acknowledged_tail := cu_local_tail cursor\<rparr>, Some bytes)
           else (- 1, cursor, Some bytes))"

text \<open>
  The passes of the latch. \<open>views (2 * pass)\<close> is the ring the snapshot of a pass reads,
  \<open>views (2 * pass + 1)\<close> the one whose head is loaded after it; \<open>out\<close> is what the
  earlier passes stored.
\<close>

fun latch_passes ::
    "(nat \<Rightarrow> hfior_ring_header) \<Rightarrow> u64 \<Rightarrow> nat \<Rightarrow> nat \<Rightarrow> hfior_cursor \<Rightarrow> hfior_record list \<Rightarrow>
     (errno + hfior_record list) \<times> hfior_cursor" where
  "latch_passes views max_records 0 pass cursor out = (Inr out, cursor)"
| "latch_passes views max_records (Suc left) pass cursor out =
     (if \<not> of_nat (length out) < max_records then (Inr out, cursor)
      else
        case hfior_cursor_drain False cursor (views (2 * pass)) False
               (max_records - of_nat (length out)) of
          (Inl e, cursor1) \<Rightarrow> (Inl e, cursor1)
        | (Inr recs, cursor1) \<Rightarrow>
            if pl_head (producer (views (2 * pass + 1))) = cu_local_tail cursor1
            then (Inr (out @ recs), cursor1)
            else latch_passes views max_records left (Suc pass) cursor1 (out @ recs))"

definition hfior_cursor_stable_latch ::
    "bool \<Rightarrow> hfior_cursor \<Rightarrow> (nat \<Rightarrow> hfior_ring_header) \<Rightarrow> bool \<Rightarrow> u64 \<Rightarrow> u32 \<Rightarrow>
     (errno + hfior_record list) \<times> hfior_cursor" where
  "hfior_cursor_stable_latch cursor_null cursor views out_null max_records max_passes =
     (if cursor_null \<or> (out_null \<and> max_records \<noteq> 0) \<or> max_passes = 0 then (Inl EINVAL, cursor)
      else latch_passes views max_records (unat max_passes) 0 cursor [])"

text \<open>
  \<open>None\<close> is the result \<open>false\<close> without a record stored; \<open>Some (found, r)\<close> is the
  record stored to \<open>*out\<close> and the result. The head, the tail and the slot are loaded
  one after the other, from the rings \<open>at_head\<close>, \<open>at_tail\<close> and \<open>at_slot\<close>.
\<close>

definition hfior_cursor_latest_committed ::
    "bool \<Rightarrow> hfior_ring_header \<Rightarrow> hfior_ring_header \<Rightarrow> hfior_ring_header \<Rightarrow> bool \<Rightarrow>
     (bool \<times> hfior_record) option" where
  "hfior_cursor_latest_committed cursor_null at_head at_tail at_slot out_null =
     (if cursor_null \<or> out_null then None
      else
        let head = pl_head (producer at_head)
        in if head = 0 then None
           else
             let tail = cl_tail (consumer at_tail)
             in if head < tail \<or> head - tail > ucast (md_capacity (metadata at_tail)) then None
                else let r = slot_at at_slot (head - 1) in Some (r_sequence r \<noteq> 0, r))"

section \<open>One drain\<close>

lemma cursor_drain_read:
  "hfior_cursor_drain False cursor ring False n =
     (case ring_read ring (cu_local_tail cursor) n of
        Inl e \<Rightarrow> (Inl e, cursor) | Inr (out, tail) \<Rightarrow> (Inr out, cursor\<lparr>cu_local_tail := tail\<rparr>))"
  by (simp add: hfior_cursor_drain_def ring_read_def)

lemma cursor_drain_ok:
  assumes hist: "ring_hist ring log" and p: "unat (cu_local_tail cursor) \<le> length log"
    "length log \<le> unat (cu_local_tail cursor) + ring_capacity ring"
  obtains out cursor1 where "hfior_cursor_drain False cursor ring False n = (Inr out, cursor1)"
    "unat (cu_local_tail cursor1) = unat (cu_local_tail cursor) + length out"
    "unat (cu_local_tail cursor1) \<le> length log"
    "drop (unat (cu_local_tail cursor)) log = out @ drop (unat (cu_local_tail cursor1)) log"
    "length out \<le> unat n" "length out < unat n \<Longrightarrow> unat (cu_local_tail cursor1) = length log"
    "cursor1 = cursor\<lparr>cu_local_tail := cu_local_tail cursor1\<rparr>"
proof -
  have "length log - unat (cu_local_tail cursor) \<le> ring_capacity ring" using p(2) by simp
  then obtain out tail where r: "ring_read ring (cu_local_tail cursor) n = Inr (out, tail)"
    using ring_log.read_total [OF hist p(1)] by blast
  show thesis
    by (rule that [of out "cursor\<lparr>cu_local_tail := tail\<rparr>"])
      (use ring_log.read_step [OF hist r] in \<open>simp_all add: cursor_drain_read r\<close>)
qed

section \<open>The stable latch\<close>

text \<open>
  What the latch sees while it runs: an append-only log that stays within one capacity
  of the cursor, because the producer never overwrites what is not acknowledged.
\<close>

definition latch_views ::
    "(nat \<Rightarrow> hfior_ring_header) \<Rightarrow> (nat \<Rightarrow> hfior_record list) \<Rightarrow> u64 \<Rightarrow> bool" where
  "latch_views views logs from \<longleftrightarrow>
     (\<forall>n. ring_hist (views n) (logs n) \<and> prefix (logs n) (logs (Suc n)) \<and>
          length (logs n) \<le> unat from + ring_capacity (views n)) \<and>
     unat from \<le> length (logs 0)"

lemma latch_views_prefix:
  assumes "latch_views views logs from" "m \<le> n"
  shows "prefix (logs m) (logs n)"
  using assms(2)
proof (induction n rule: dec_induct)
  case (step n)
  then show ?case
    using assms(1) by (auto simp: latch_views_def intro: prefix_order.trans)
qed simp

lemma prefix_take_drop:
  assumes "prefix xs ys" "from + n \<le> length xs"
  shows "take n (drop from xs) = take n (drop from ys)"
  using assms by (auto simp: prefix_def)

text \<open>
  The loop's invariant: what has been stored are the log's records from \<open>from\<close> up to
  the cursor. At the end the buffer is full, the passes are used up, or the cursor is at
  the head that was loaded last.
\<close>

lemma latch_passes_correct:
  assumes views: "latch_views views logs from"
    and max_len: "length out \<le> unat max_records"
    and tail: "unat (cu_local_tail cursor) = unat from + length out"
      "unat (cu_local_tail cursor) \<le> length (logs (2 * pass))"
    and out: "out = take (length out) (drop (unat from) (logs (2 * pass)))"
  shows "\<exists>out' cursor' n. latch_passes views max_records left pass cursor out = (Inr out', cursor') \<and>
    cursor' = cursor\<lparr>cu_local_tail := cu_local_tail cursor'\<rparr> \<and>
    unat (cu_local_tail cursor') = unat from + length out' \<and>
    length out' \<le> unat max_records \<and> length out \<le> length out' \<and>
    n \<le> 2 * (pass + left) \<and> unat (cu_local_tail cursor') \<le> length (logs n) \<and>
    out' = take (length out') (drop (unat from) (logs n)) \<and>
    (0 < left \<longrightarrow> length out' < unat max_records \<longrightarrow>
       length (logs (2 * pass)) \<le> unat (cu_local_tail cursor'))"
  using max_len tail out
proof (induction left arbitrary: pass cursor out)
  case 0
  then show ?case
    by (intro exI [of _ out] exI [of _ cursor] exI [of _ "2 * pass"]) simp
next
  case (Suc left)
  have max64: "length out < 2 ^ 64"
    using Suc.prems(1) unat_less_pow [of max_records] by simp
  show ?case
  proof (cases "of_nat (length out) < max_records")
    case False
    then have "length out = unat max_records"
      using Suc.prems(1) max64 by (simp add: word_less_nat_alt unat_of_nat_index)
    with False Suc.prems show ?thesis
      by (intro exI [of _ out] exI [of _ cursor] exI [of _ "2 * pass"]) simp
  next
    case True
    let ?n = "max_records - of_nat (length out)"
    have room: "unat ?n = unat max_records - length out"
      using True max64 by (simp add: unat_sub_le word_le_nat_alt word_less_nat_alt unat_of_nat_index)
    let ?log = "logs (2 * pass)" and ?from = "unat (cu_local_tail cursor)"
    have "ring_hist (views (2 * pass)) ?log" "length ?log \<le> ?from + ring_capacity (views (2 * pass))"
      using views Suc.prems(2) by (auto simp: latch_views_def intro: le_trans)
    then obtain recs cursor1 where d:
        "hfior_cursor_drain False cursor (views (2 * pass)) False ?n = (Inr recs, cursor1)"
        "unat (cu_local_tail cursor1) = ?from + length recs"
        "unat (cu_local_tail cursor1) \<le> length ?log"
        "drop ?from ?log = recs @ drop (unat (cu_local_tail cursor1)) ?log"
        "length recs \<le> unat ?n"
        "length recs < unat ?n \<Longrightarrow> unat (cu_local_tail cursor1) = length ?log"
        "cursor1 = cursor\<lparr>cu_local_tail := cu_local_tail cursor1\<rparr>"
      using cursor_drain_ok [of "views (2 * pass)" ?log cursor ?n] Suc.prems(3) by blast
    let ?out = "out @ recs"
    have tail1: "unat (cu_local_tail cursor1) = unat from + length ?out"
      using d(2) Suc.prems(2) by simp
    have len1: "length ?out \<le> unat max_records" using d(5) room Suc.prems(1) by simp
    have "recs = take (length recs) (drop ?from ?log)" using d(4) by simp
    then have out1: "?out = take (length ?out) (drop (unat from) ?log)"
      using Suc.prems(2,4) by (metis add.commute drop_drop length_append take_add)
    have caught: "length ?out < unat max_records \<longrightarrow> length ?log \<le> unat (cu_local_tail cursor1)"
      using d(6) room len1 by auto
    show ?thesis
    proof (cases "pl_head (producer (views (2 * pass + 1))) = cu_local_tail cursor1")
      case stop: True
      then show ?thesis
        using True d(1,3,7) tail1 len1 out1 caught
        by (intro exI [of _ ?out] exI [of _ cursor1] exI [of _ "2 * pass"]) simp
    next
      case go: False
      have pre: "prefix ?log (logs (2 * Suc pass))"
        using latch_views_prefix [OF views, of "2 * pass" "2 * Suc pass"] by simp
      have "unat (cu_local_tail cursor1) \<le> length (logs (2 * Suc pass))"
        using d(3) prefix_length_le [OF pre] by simp
      moreover have "take (length ?out) (drop (unat from) ?log) =
          take (length ?out) (drop (unat from) (logs (2 * Suc pass)))"
        by (rule prefix_take_drop [OF pre]) (use tail1 d(3) in simp)
      then have "?out = take (length ?out) (drop (unat from) (logs (2 * Suc pass)))"
        using out1 by (rule trans [rotated])
      ultimately obtain out' cursor' n where IH:
          "latch_passes views max_records left (Suc pass) cursor1 ?out = (Inr out', cursor')"
          "cursor' = cursor1\<lparr>cu_local_tail := cu_local_tail cursor'\<rparr>"
          "unat (cu_local_tail cursor') = unat from + length out'"
          "length out' \<le> unat max_records" "length ?out \<le> length out'"
          "n \<le> 2 * (Suc pass + left)" "unat (cu_local_tail cursor') \<le> length (logs n)"
          "out' = take (length out') (drop (unat from) (logs n))"
        using Suc.IH [OF len1 tail1] by blast
      have "cursor' = cursor\<lparr>cu_local_tail := cu_local_tail cursor'\<rparr>"
        using IH(2) d(7) by (metis hfior_cursor.update_convs(3) hfior_cursor.surjective)
      moreover have "length out' < unat max_records \<longrightarrow> length ?log \<le> unat (cu_local_tail cursor')"
        using caught IH(3,5) tail1 by auto
      ultimately show ?thesis
        using True go d(1) IH
        by (intro exI [of _ out'] exI [of _ cursor'] exI [of _ n]) simp
    qed
  qed
qed


text \<open>C6: The stable latch, run while the producer keeps publishing, returns the records that
  follow the cursor, in order and without a gap or a repetition; its cursor moves past exactly
  those; it never acknowledges; and unless the caller's buffer filled up it returned at least
  everything committed when it was called.\<close>

theorem stable_latch_complete:
  assumes "latch_views views logs (cu_local_tail cursor)" "max_passes \<noteq> 0"
  shows "\<exists>out cursor' n.
    hfior_cursor_stable_latch False cursor views False max_records max_passes = (Inr out, cursor') \<and>
    cursor' = cursor\<lparr>cu_local_tail := cu_local_tail cursor'\<rparr> \<and>
    unat (cu_local_tail cursor') = unat (cu_local_tail cursor) + length out \<and>
    length out \<le> unat max_records \<and>
    n \<le> 2 * unat max_passes \<and>
    out = take (length out) (drop (unat (cu_local_tail cursor)) (logs n)) \<and>
    (length out < unat max_records \<longrightarrow> length (logs 0) \<le> unat (cu_local_tail cursor'))"
proof -
  have "unat (cu_local_tail cursor) \<le> length (logs 0)" "0 < unat max_passes"
    using assms by (simp_all add: latch_views_def unat_gt_0)
  then show ?thesis
    using latch_passes_correct [OF assms(1), of "[]" max_records cursor 0 "unat max_passes"]
      assms(2)
    by (auto simp: hfior_cursor_stable_latch_def)
qed

lemma stable_latch_complete_witness:
  "\<exists>out cursor'. hfior_cursor_stable_latch False \<lparr>cu_control_socket_fd = 3, cu_generation = 1,
       cu_local_tail = 0, cu_acknowledged_tail = 0\<rparr> (\<lambda>_. demo_ring1) False 8 4 = (Inr out, cursor') \<and>
     1 \<le> unat (cu_local_tail cursor')"
proof -
  have "latch_views (\<lambda>_. demo_ring1) (\<lambda>_. [demo_record]) 0"
    by (simp add: latch_views_def demo_ring1_facts)
  then have "latch_views (\<lambda>_. demo_ring1) (\<lambda>_. [demo_record]) (cu_local_tail \<lparr>cu_control_socket_fd = 3,
      cu_generation = 1, cu_local_tail = 0, cu_acknowledged_tail = 0\<rparr>)" by simp
  from stable_latch_complete [OF this, of 4 8] show ?thesis by auto
qed

text \<open>C25: On a ring that does not change meanwhile, the newest-record query returns the record
  published last, and reports it unless its sequence number is zero.\<close>

theorem latest_committed_newest:
  assumes hist: "ring_hist ring log" and "log \<noteq> []"
  shows "hfior_cursor_latest_committed False ring ring ring False =
    Some (r_sequence (last log) \<noteq> 0, last log)"
proof -
  have head: "unat (ring_head ring) = length log" using hist by (simp add: ring_hist_def)
  then have "ring_head ring \<noteq> 0" using assms(2) by auto
  moreover have "ring_tail ring \<le> ring_head ring"
    using hist by (simp add: ring_hist_def word_le_nat_alt)
  moreover have "\<not> ring_head ring - ring_tail ring > ucast (md_capacity (metadata ring))"
    using ring_wf_within [OF ring_hist_wf [OF hist]]
    by (simp add: word_less_nat_alt hfior_ring_depth_def ring_capacity_def)
  moreover have "slot_at ring (ring_head ring - 1) = last log"
  proof -
    have "ring_head ring - 1 = of_nat (length log - 1)"
      using ring_hist_head [OF hist] assms(2) by (simp add: of_nat_diff Suc_le_eq)
    moreover have "slot_at ring (of_nat (length log - 1)) = log ! (length log - 1)"
      using hist assms(2) ring_capacity_pos [OF ring_hist_wf [OF hist]] by (simp add: ring_hist_def)
    ultimately show ?thesis using assms(2) by (simp add: last_conv_nth)
  qed
  ultimately show ?thesis
    by (simp add: hfior_cursor_latest_committed_def Let_def not_less)
qed


lemma latest_committed_newest_witness:
  "hfior_cursor_latest_committed False demo_ring1 demo_ring1 demo_ring1 False = Some (True, demo_record)"
  using latest_committed_newest [OF demo_ring1_facts(1)] by (simp add: demo_record_def)

text \<open>C26: The newest-record query is not safe on a ring that is fully acknowledged: between its
  loads of the counters and its copy of the slot the producer can come round the whole ring and be
  in the middle of overwriting that very slot. Every garbage value with a nonzero sequence number
  can then be returned as a committed record, although it was never published.\<close>

theorem latest_committed_torn:
  assumes "ring_wf h" "ring_head h = 0" "ring_tail h = 0" "r_sequence garbage \<noteq> 0"
  shows "\<exists>s1 s2. ring_reachable h s1 \<and> ring_step\<^sup>*\<^sup>* s1 s2 \<and>
    hfior_cursor_latest_committed False (rs_mem s1) (rs_mem s1) (rs_mem s2) False = Some (True, garbage) \<and>
    garbage \<notin> set (rs_published s2)"
proof -
  let ?c = "ring_capacity h" and ?s0 = "initial_system h"
  let ?a = "after_publish ?s0 zero_record"
  let ?s1 = "?a\<lparr>rs_cursor := 1, rs_mem := store_tail (rs_mem ?a) 1,
    rs_delivered := rs_delivered ?a @ [slot_at (rs_mem ?a) 0]\<rparr>"
  let ?b = "after_publishes ?s1 (replicate (?c - 1) zero_record)"
  let ?s2 = "?b\<lparr>rs_ppc := P_Writing zero_record (ring_head (rs_mem ?b)),
    rs_mem := store_slot (rs_mem ?b) (ring_head (rs_mem ?b)) garbage\<rparr>"
  have c: "0 < ?c" "?c < 2 ^ 32"
    using ring_capacity_pos [OF assms(1)] ring_capacity_less [of h] by simp_all
  have init [simp]: "rs_mem ?s0 = h" "rs_ppc ?s0 = P_Idle" "rs_cpc ?s0 = C_Idle" "rs_cursor ?s0 = 0"
    "rs_published ?s0 = []"
    by (simp_all add: initial_system_def)
  have "ring_step\<^sup>*\<^sup>* ?s0 ?a"
    using assms(2,3) c by (intro ring_steps_publish) (simp_all add: hfior_ring_depth_def)
  moreover have "ring_step\<^sup>*\<^sup>* ?a ?s1"
    using assms(2,3) by (intro ring_steps_read_one) simp_all
  ultimately have "ring_step\<^sup>*\<^sup>* ?s0 ?s1" by (rule rtranclp_trans)
  then have r1: "ring_reachable h ?s1"
    by (rule reachable_steps) (rule ring_reachable.start)
  have "ring_step\<^sup>*\<^sup>* ?s1 ?b"
    using assms(2) c by (intro ring_steps_publishes) (simp_all add: hfior_ring_depth_def)
  moreover have "unat (of_nat (?c - 1) :: u64) = ?c - 1"
    using c by (intro unat_of_nat_index) simp
  then have "unat (of_nat ?c - 1 :: u64) = ?c - 1"
    using c by (simp add: of_nat_diff)
  then have "ring_step\<^sup>*\<^sup>* ?b ?s2"
    using assms(2) c by (intro ring_steps_torn) (simp_all add: hfior_ring_depth_def)
  ultimately have steps: "ring_step\<^sup>*\<^sup>* ?s1 ?s2" by (rule rtranclp_trans)
  have inv: "ring_inv ?b"
    using reachable_inv [OF reachable_steps [OF \<open>ring_step\<^sup>*\<^sup>* ?s1 ?b\<close> r1]] assms by simp
  have hd: "ring_head (rs_mem ?b) = of_nat ?c"
    using assms(2) c by (simp add: of_nat_diff)
  then have "ring_index (rs_mem ?b) (ring_head (rs_mem ?b)) = ring_index (rs_mem ?b) 0"
    using c by (simp only: inv_index [OF inv]) (simp add: unat_of_nat_index)
  then have "slot_at (rs_mem ?s2) 0 = garbage"
    using inv_slot [OF inv, of "ring_head (rs_mem ?b)" garbage 0] by simp
  moreover have "garbage \<noteq> zero_record" using assms(4) by (auto simp: zero_record_def)
  then have "garbage \<notin> set (rs_published ?s2)" by auto
  ultimately show ?thesis
    using r1 steps assms
    by (intro exI [of _ ?s1] exI [of _ ?s2])
      (simp add: hfior_cursor_latest_committed_def Let_def)
qed

lemma latest_committed_torn_witness:
  "\<exists>s1 s2. ring_reachable demo_ring s1 \<and> ring_step\<^sup>*\<^sup>* s1 s2 \<and>
    hfior_cursor_latest_committed False (rs_mem s1) (rs_mem s1) (rs_mem s2) False = Some (True, demo_record) \<and>
    demo_record \<notin> set (rs_published s2)"
  using latest_committed_torn [of demo_ring demo_record] by (simp add: demo_ring_facts demo_record_def)

end
