(* ===== verification/Transport.thy ===== *)
theory Transport
  imports Abi
begin

text \<open>
  The process and the kernel: the helpers of \<open>src/common.c\<close> over clocks, sockets,
  descriptors and the environment. What the kernel answers is a parameter: a
  \<open>kernel\<close> holds the answers of the successive system calls, any function of their
  number, and the trace of what the process did to the outside. An operation takes the
  kernel and returns it with the calls it made counted and its effects appended.
\<close>

section \<open>The kernel as the process sees it\<close>

text \<open>
  A control message header the kernel delivers with \<open>recvmsg\<close>: descriptors installed in
  the process (\<open>SCM_RIGHTS\<close>), or another kind, which the code skips.
\<close>

datatype cmsg = Rights "int list" | Other_cmsg

record received =
  rv_bytes :: "u8 list"
  rv_truncated :: bool            \<comment> \<open>\<open>MSG_CTRUNC\<close> is set\<close>
  rv_cmsgs :: "cmsg list"

datatype receipt = Recv_interrupted receipt | Received received | Recv_failed errno

text \<open>What a \<open>poll\<close> answers; an interruption may be by one of the stop signals.\<close>

datatype poll_answer = Poll_interrupted bool | Poll_failed errno | Poll_timeout | Poll_ready "u16 list"

definition POLLIN :: u16 where "POLLIN = 0x001"
definition POLLERR :: u16 where "POLLERR = 0x008"
definition POLLHUP :: u16 where "POLLHUP = 0x010"
definition POLLNVAL :: u16 where "POLLNVAL = 0x020"

text \<open>
  The input subsystem: a \<open>struct input_event\<close> (its value a signed 32-bit word), what a
  read of the device answers (\<open>Ragged\<close> is a byte count that is no multiple of the
  event size), and what opening it yields: the descriptor, whether \<open>EVIOCSCLOCKID\<close>
  succeeded, and the identity and the name it reports.
\<close>

record input_event =
  ev_sec :: int
  ev_usec :: int
  ev_type :: u16
  ev_code :: u16
  ev_value :: u32

datatype device_read =
    Read_events "input_event list" | Read_ragged | Read_eof | Read_interrupted | Read_failed errno

record input_id =
  id_bustype :: u16
  id_vendor :: u16
  id_product :: u16
  id_version :: u16

record device_open =
  do_fd :: int
  do_clock_set :: bool
  do_id :: input_id
  do_name :: "string option"

text \<open>
  What the outside sees of the process. \<open>Sent fd flags bytes fds\<close> is a message that
  reached the peer, \<open>Signalled fd n\<close> an \<open>n\<close> added to an eventfd counter, \<open>Wrote_output path lines\<close>
  a file that was closed with these lines in it, \<open>Printed lines\<close> lines on the standard output,
  \<open>Restricted path uid\<close> a \<open>chmod\<close> to 0600 with a \<open>chown\<close> to the user.
\<close>

datatype effect =
    Sent int u32 "u8 list" "int list"
  | Signalled int u64
  | Slept nat nat
  | Timer_set int u64 u64
  | Polled int
  | Closed int
  | Warned string
  | Made_directory string
  | Opened_output string
  | Wrote_output string "string list"
  | Printed "string list"
  | Paused nat nat
  | Shut_down_reading int
  | Connected int string
  | Bound int string
  | Restricted string u32
  | Listening int
  | Unlinked string
  | Resized int u64
  | Mapped int u64
  | Unmapped u64
  | Sealed int

record kernel =
  k_clock :: "u32 \<Rightarrow> nat \<Rightarrow> (int \<times> int) option"
  k_clock_reads :: nat
  k_calls :: "nat \<Rightarrow> syscall"
  k_calls_made :: nat
  k_recvs :: "nat \<Rightarrow> receipt"
  k_recvs_made :: nat
  k_polls :: "nat \<Rightarrow> poll_answer"
  k_polls_made :: nat
  k_reads :: "nat \<Rightarrow> device_read"
  k_reads_made :: nat
  k_keys :: "nat \<Rightarrow> u64 list option"
  k_keys_asked :: nat
  k_opens :: "nat \<Rightarrow> errno + device_open"
  k_opens_made :: nat
  k_counters :: "nat \<Rightarrow> u64 option"   \<comment> \<open>reads of an eventfd\<close>
  k_counters_read :: nat
  k_trace :: "effect list"

definition emit :: "effect \<Rightarrow> kernel \<Rightarrow> kernel" where
  "emit e k = k\<lparr>k_trace := k_trace k @ [e]\<rparr>"

definition kernel_call :: "kernel \<Rightarrow> syscall \<times> kernel" where
  "kernel_call k = (k_calls k (k_calls_made k), k\<lparr>k_calls_made := Suc (k_calls_made k)\<rparr>)"

definition kernel_recv :: "kernel \<Rightarrow> receipt \<times> kernel" where
  "kernel_recv k = (k_recvs k (k_recvs_made k), k\<lparr>k_recvs_made := Suc (k_recvs_made k)\<rparr>)"

definition kernel_poll :: "kernel \<Rightarrow> poll_answer \<times> kernel" where
  "kernel_poll k = (k_polls k (k_polls_made k), k\<lparr>k_polls_made := Suc (k_polls_made k)\<rparr>)"

definition kernel_read :: "kernel \<Rightarrow> device_read \<times> kernel" where
  "kernel_read k = (k_reads k (k_reads_made k), k\<lparr>k_reads_made := Suc (k_reads_made k)\<rparr>)"

definition kernel_keys :: "kernel \<Rightarrow> u64 list option \<times> kernel" where
  "kernel_keys k = (k_keys k (k_keys_asked k), k\<lparr>k_keys_asked := Suc (k_keys_asked k)\<rparr>)"

definition kernel_open :: "kernel \<Rightarrow> (errno + device_open) \<times> kernel" where
  "kernel_open k = (k_opens k (k_opens_made k), k\<lparr>k_opens_made := Suc (k_opens_made k)\<rparr>)"

definition kernel_counter :: "kernel \<Rightarrow> u64 option \<times> kernel" where
  "kernel_counter k = (k_counters k (k_counters_read k), k\<lparr>k_counters_read := Suc (k_counters_read k)\<rparr>)"

lemmas kernel_ask_defs =
  kernel_call_def kernel_recv_def kernel_poll_def kernel_read_def kernel_keys_def kernel_open_def

text \<open>A kernel that answers every call with 0 and has no input, for evaluation.\<close>

definition quiet_kernel :: kernel where
  "quiet_kernel = \<lparr>k_clock = (\<lambda>_ n. Some (int n, 0)), k_clock_reads = 0,
     k_calls = (\<lambda>_. Returned 0), k_calls_made = 0,
     k_recvs = (\<lambda>_. Recv_failed EAGAIN), k_recvs_made = 0,
     k_polls = (\<lambda>_. Poll_timeout), k_polls_made = 0,
     k_reads = (\<lambda>_. Read_failed EAGAIN), k_reads_made = 0,
     k_keys = (\<lambda>_. None), k_keys_asked = 0,
     k_opens = (\<lambda>_. Inl ENOENT), k_opens_made = 0,
     k_counters = (\<lambda>_. None), k_counters_read = 0, k_trace = []\<rparr>"

text \<open>
  How a computation of a process ends: \<open>die\<close> and \<open>fatal\<close> end the process with a failure. A loop
  that has not ended within its fuel is \<open>Unfinished\<close>.
\<close>

datatype 'a outcome = Done 'a | Died string | Unfinished

fun after :: "'a outcome \<Rightarrow> ('a \<Rightarrow> 'b outcome) \<Rightarrow> 'b outcome" where
  "after (Done x) f = f x"
| "after (Died what) f = Died what"
| "after Unfinished f = Unfinished"

lemma after_done: "after out f = Done y \<longleftrightarrow> (\<exists>x. out = Done x \<and> f x = Done y)"
  by (cases out) simp_all

lemma after_died: "after out f = Died what \<longleftrightarrow> out = Died what \<or> (\<exists>x. out = Done x \<and> f x = Died what)"
  by (cases out) simp_all

section \<open>Clocks\<close>

text \<open>\<open>tv_sec\<close> and \<open>tv_nsec\<close> are converted to \<open>uint64_t\<close>; the arithmetic wraps.\<close>

definition hfior_now_ns :: "u32 \<Rightarrow> kernel \<Rightarrow> u64 \<times> kernel" where
  "hfior_now_ns clock_id k =
     ((case k_clock k clock_id (k_clock_reads k) of
         None \<Rightarrow> 0
       | Some (sec, nsec) \<Rightarrow> word_of_int sec * 1000000000 + word_of_int nsec),
      k\<lparr>k_clock_reads := Suc (k_clock_reads k)\<rparr>)"

text \<open>
  \<open>clock_nanosleep\<close> returns its error instead of setting \<open>errno\<close>; a nonzero one other
  than \<open>EINTR\<close> is returned negated.
\<close>

definition hfior_sleep_until_ns :: "u64 \<Rightarrow> kernel \<Rightarrow> (errno + unit) \<times> kernel" where
  "hfior_sleep_until_ns deadline_ns k =
     (let sec = unat (deadline_ns div 1000000000);
          nsec = unat (deadline_ns mod 1000000000);
          (answer, k1) = kernel_call k;
          k2 = emit (Slept sec nsec) k1
      in case retry_eintr answer of
           Failed e \<Rightarrow> (Inl e, k2)
         | _ \<Rightarrow> (Inr (), k2))"

section \<open>Messages and descriptors\<close>

definition MSG_DONTWAIT :: u32 where "MSG_DONTWAIT = 0x40"
definition MSG_NOSIGNAL :: u32 where "MSG_NOSIGNAL = 0x4000"

text \<open>
  A \<open>Returned n\<close> answer of \<open>sendmsg\<close> or \<open>send\<close> has \<open>0 \<le> n\<close>: the peer receives the first
  \<open>n\<close> bytes.
\<close>

definition hfior_send_fds ::
    "int \<Rightarrow> u8 list \<Rightarrow> int list \<Rightarrow> u32 \<Rightarrow> kernel \<Rightarrow> (errno + unit) \<times> kernel" where
  "hfior_send_fds socket_fd message fds flags k =
     (if length fds > 8 then (Inl E2BIG, k)
      else
        let (answer, k1) = kernel_call k
        in case retry_eintr answer of
             Failed e \<Rightarrow> (Inl e, k1)
           | Returned n \<Rightarrow>
               let k2 = emit (Sent socket_fd (flags OR MSG_NOSIGNAL) (take (nat n) message) fds) k1
               in if n \<noteq> int (length message) then (Inl EIO, k2) else (Inr (), k2)
           | Interrupted _ \<Rightarrow> (Inl EIO, k1))"

text \<open>
  The descriptors of one control message: kept while there is room in \<open>fds\<close>, closed
  otherwise.
\<close>

fun take_rights :: "nat \<Rightarrow> int list \<Rightarrow> int list \<Rightarrow> kernel \<Rightarrow> int list \<times> kernel" where
  "take_rights fd_capacity fds [] k = (fds, k)"
| "take_rights fd_capacity fds (fd # rest) k =
     (if length fds < fd_capacity then take_rights fd_capacity (fds @ [fd]) rest k
      else take_rights fd_capacity fds rest (emit (Closed fd) k))"

fun take_cmsgs :: "nat \<Rightarrow> int list \<Rightarrow> cmsg list \<Rightarrow> kernel \<Rightarrow> int list \<times> kernel" where
  "take_cmsgs fd_capacity fds [] k = (fds, k)"
| "take_cmsgs fd_capacity fds (Other_cmsg # rest) k = take_cmsgs fd_capacity fds rest k"
| "take_cmsgs fd_capacity fds (Rights found # rest) k =
     (let (fds1, k1) = take_rights fd_capacity fds found k
      in take_cmsgs fd_capacity fds1 rest k1)"

fun retry_recv :: "receipt \<Rightarrow> receipt" where
  "retry_recv (Recv_interrupted again) = retry_recv again"
| "retry_recv (Received r) = Received r"
| "retry_recv (Recv_failed e) = Recv_failed e"

text \<open>
  The result is the bytes received (their number is the return value, 0 at the end of
  the stream) with the descriptors stored to \<open>fds\<close>, whose number is \<open>*fd_count\<close>.
\<close>

definition hfior_recv_fds ::
    "nat \<Rightarrow> nat \<Rightarrow> kernel \<Rightarrow> (errno + (u8 list \<times> int list)) \<times> kernel" where
  "hfior_recv_fds message_capacity fd_capacity k =
     (let (answer, k1) = kernel_recv k
      in case retry_recv answer of
           Recv_failed e \<Rightarrow> (Inl e, k1)
         | Received r \<Rightarrow>
             let bytes = take message_capacity (rv_bytes r)
             in if bytes = [] then (Inr ([], []), k1)
                else if rv_truncated r then (Inl EMSGSIZE, k1)
                else let (fds, k2) = take_cmsgs fd_capacity [] (rv_cmsgs r) k1
                     in (Inr (bytes, fds), k2)
         | Recv_interrupted _ \<Rightarrow> (Inl EIO, k1))"

definition O_NONBLOCK :: u32 where "O_NONBLOCK = 0x800"

text \<open>
  The answers of the two \<open>fcntl\<close> calls are \<open>getfl\<close> and \<open>setfl\<close> of the new flags; the result
  is \<open>None\<close> for -1.
\<close>

definition hfior_set_nonblocking ::
    "u32 option \<Rightarrow> (u32 \<Rightarrow> u32 option) \<Rightarrow> bool \<Rightarrow> u32 option" where
  "hfior_set_nonblocking getfl setfl enabled =
     (case getfl of
        None \<Rightarrow> None
      | Some old_flags \<Rightarrow>
          setfl (if enabled then old_flags OR O_NONBLOCK else old_flags AND NOT O_NONBLOCK))"

section \<open>The runtime socket\<close>

text \<open>\<open>%lu\<close>: the decimal digits of a number.\<close>

fun decimal :: "nat \<Rightarrow> string" where
  "decimal n = (if n < 10 then [char_of (48 + n)] else decimal (n div 10) @ [char_of (48 + n mod 10)])"

declare decimal.simps [simp del]

text \<open>
  \<open>mkdir\<close> is the error of the \<open>mkdir\<close> call, if it fails. A string is written to \<open>out\<close>
  only up to \<open>out_size\<close> bytes with its terminating zero.
\<close>

definition hfior_make_runtime_socket_path ::
    "string option \<Rightarrow> u32 \<Rightarrow> errno option \<Rightarrow> nat \<Rightarrow> string \<Rightarrow> errno + string" where
  "hfior_make_runtime_socket_path runtime_dir uid mkdir out_size leaf =
     (let fallback = ''/tmp/hfior-'' @ decimal (unat uid);
          path = (\<lambda>runtime. let out = runtime @ ''/'' @ leaf
                            in if length out \<ge> out_size then Inl ENAMETOOLONG else Inr out)
      in if runtime_dir = None \<or> runtime_dir = Some []
         then (case mkdir of
                 None \<Rightarrow> path fallback
               | Some e \<Rightarrow> if e \<noteq> EEXIST then Inl e else path fallback)
         else path (the runtime_dir))"

record ucred =
  uc_pid :: int
  uc_uid :: u32
  uc_gid :: u32

text \<open>The result carries \<open>*peer_pid\<close>.\<close>

definition hfior_verify_same_uid_peer :: "errno + ucred \<Rightarrow> u32 \<Rightarrow> errno + int" where
  "hfior_verify_same_uid_peer credentials expected_uid =
     (case credentials of
        Inl e \<Rightarrow> Inl e
      | Inr c \<Rightarrow> if uc_uid c \<noteq> expected_uid then Inl EACCES else Inr (uc_pid c))"

section \<open>Buttons and mode names\<close>

definition BTN_8 :: u16 where "BTN_8 = 0x108"
definition BTN_9 :: u16 where "BTN_9 = 0x109"
definition BTN_LEFT :: u16 where "BTN_LEFT = 0x110"
definition BTN_RIGHT :: u16 where "BTN_RIGHT = 0x111"
definition BTN_MIDDLE :: u16 where "BTN_MIDDLE = 0x112"
definition BTN_SIDE :: u16 where "BTN_SIDE = 0x113"
definition BTN_EXTRA :: u16 where "BTN_EXTRA = 0x114"
definition BTN_FORWARD :: u16 where "BTN_FORWARD = 0x115"
definition BTN_BACK :: u16 where "BTN_BACK = 0x116"
definition BTN_TASK :: u16 where "BTN_TASK = 0x117"

lemmas btn_defs =
  BTN_8_def BTN_9_def BTN_LEFT_def BTN_RIGHT_def BTN_MIDDLE_def BTN_SIDE_def BTN_EXTRA_def
  BTN_FORWARD_def BTN_BACK_def BTN_TASK_def

definition hfior_button_bit_from_linux_code :: "u16 \<Rightarrow> u16" where
  "hfior_button_bit_from_linux_code code =
     (if code = BTN_LEFT then HFIOR_BUTTON_LEFT
      else if code = BTN_RIGHT then HFIOR_BUTTON_RIGHT
      else if code = BTN_MIDDLE then HFIOR_BUTTON_MIDDLE
      else if code = BTN_SIDE then HFIOR_BUTTON_SIDE
      else if code = BTN_EXTRA then HFIOR_BUTTON_EXTRA
      else if code = BTN_FORWARD then HFIOR_BUTTON_FORWARD
      else if code = BTN_BACK then HFIOR_BUTTON_BACK
      else if code = BTN_TASK then HFIOR_BUTTON_TASK
      else if code = BTN_8 then HFIOR_BUTTON_8
      else if code = BTN_9 then HFIOR_BUTTON_9
      else 0)"

definition hfior_mode_name :: "u32 \<Rightarrow> string" where
  "hfior_mode_name mode =
     (if mode = HFIOR_MODE_HFIOR then ''hfior''
      else if mode = HFIOR_MODE_EAGER_THREAD then ''eager-thread''
      else if mode = HFIOR_MODE_EAGER_FRAME then ''eager-frame''
      else ''unknown'')"

section \<open>What the operations do\<close>

lemma emit_simps [simp]:
  "k_trace (emit e k) = k_trace k @ [e]" "k_clock (emit e k) = k_clock k"
  "k_clock_reads (emit e k) = k_clock_reads k" "k_calls (emit e k) = k_calls k"
  "k_calls_made (emit e k) = k_calls_made k" "k_recvs (emit e k) = k_recvs k"
  "k_recvs_made (emit e k) = k_recvs_made k" "k_polls (emit e k) = k_polls k"
  "k_polls_made (emit e k) = k_polls_made k" "k_reads (emit e k) = k_reads k"
  "k_reads_made (emit e k) = k_reads_made k" "k_keys (emit e k) = k_keys k"
  "k_keys_asked (emit e k) = k_keys_asked k" "k_opens (emit e k) = k_opens k"
  "k_opens_made (emit e k) = k_opens_made k"
  by (simp_all add: emit_def)

lemma kernel_ask_trace [simp]:
  "k_trace (snd (kernel_call k)) = k_trace k" "k_trace (snd (kernel_recv k)) = k_trace k"
  "k_trace (snd (kernel_poll k)) = k_trace k" "k_trace (snd (kernel_read k)) = k_trace k"
  "k_trace (snd (kernel_keys k)) = k_trace k" "k_trace (snd (kernel_open k)) = k_trace k"
  by (simp_all add: kernel_ask_defs)

lemma now_ns_frame [frame_simps]: "k_trace (snd (hfior_now_ns c k)) = k_trace k"
  by (simp add: hfior_now_ns_def)

lemma retry_recv_cases: "(\<exists>r. retry_recv a = Received r) \<or> (\<exists>e. retry_recv a = Recv_failed e)"
  by (induction a rule: retry_recv.induct) auto

text \<open>All descriptors of the control messages, in order.\<close>

fun cmsg_fds :: "cmsg list \<Rightarrow> int list" where
  "cmsg_fds [] = []"
| "cmsg_fds (Other_cmsg # rest) = cmsg_fds rest"
| "cmsg_fds (Rights found # rest) = found @ cmsg_fds rest"

definition closes :: "int list \<Rightarrow> effect list" where
  "closes fds = map Closed fds"

lemma take_rights_split:
  assumes "length fds \<le> c"
  shows "fst (take_rights c fds found k) = take c (fds @ found) \<and>
    k_trace (snd (take_rights c fds found k)) = k_trace k @ closes (drop c (fds @ found))"
  using assms
  by (induction found arbitrary: fds k) (auto simp: closes_def take_Cons' drop_Cons')

lemma take_cmsgs_split:
  assumes "length fds \<le> c"
  shows "fst (take_cmsgs c fds cs k) = take c (fds @ cmsg_fds cs) \<and>
    k_trace (snd (take_cmsgs c fds cs k)) = k_trace k @ closes (drop c (fds @ cmsg_fds cs))"
  using assms
proof (induction c fds cs k rule: take_cmsgs.induct)
  case (3 c fds found rest k)
  let ?r = "take_rights c fds found k"
  have r: "fst ?r = take c (fds @ found)"
    "k_trace (snd ?r) = k_trace k @ closes (drop c (fds @ found))"
    using take_rights_split [OF "3.prems"] by auto
  have len: "length (take c (fds @ found)) \<le> c" by simp
  have IH: "fst (take_cmsgs c (take c (fds @ found)) rest (snd ?r)) =
      take c (take c (fds @ found) @ cmsg_fds rest)"
    "k_trace (snd (take_cmsgs c (take c (fds @ found)) rest (snd ?r))) =
      k_trace (snd ?r) @ closes (drop c (take c (fds @ found) @ cmsg_fds rest))"
    using "3.IH" [of ?r "fst ?r" "snd ?r"] r(1) len by (metis prod.collapse)+
  have split: "take_cmsgs c fds (Rights found # rest) k = take_cmsgs c (take c (fds @ found)) rest (snd ?r)"
    using r(1) by (simp add: split_def)
  show ?case
    unfolding split cmsg_fds.simps using IH r(2) "3.prems"
    by (cases "length (fds @ found) \<le> c") (auto simp: closes_def min_def)
qed (auto simp: closes_def)

lemma send_fds_cases:
  obtains (failed) e where "retry_eintr (k_calls k (k_calls_made k)) = Failed e"
  | (sent) n where "retry_eintr (k_calls k (k_calls_made k)) = Returned n"
  using retry_eintr_cases [of "k_calls k (k_calls_made k)"] by blast

text \<open>Every known button code has a bit of its own in the mask; all others have none.\<close>

lemma button_bits_disjoint:
  "hfior_button_bit_from_linux_code c AND hfior_button_bit_from_linux_code d \<noteq> 0 \<longleftrightarrow>
    c = d \<and> hfior_button_bit_from_linux_code c \<noteq> 0"
  by (simp add: hfior_button_bit_from_linux_code_def button_bit_defs btn_defs)

section \<open>Properties\<close>

text \<open>C28: A message received with descriptors is handed over with the first descriptors the
  caller has room for, in the order the control messages carry them; every further descriptor the
  kernel installed in the process is closed, so none of them leaks.\<close>

theorem recv_fds_conserves:
  assumes "retry_recv (k_recvs k (k_recvs_made k)) = Received r"
    "take message_capacity (rv_bytes r) \<noteq> []" "\<not> rv_truncated r"
  shows "\<exists>k1. hfior_recv_fds message_capacity fd_capacity k =
      (Inr (take message_capacity (rv_bytes r), take fd_capacity (cmsg_fds (rv_cmsgs r))), k1) \<and>
    k_trace k1 = k_trace k @ closes (drop fd_capacity (cmsg_fds (rv_cmsgs r)))"
proof -
  let ?k0 = "k\<lparr>k_recvs_made := Suc (k_recvs_made k)\<rparr>"
  have "fst (take_cmsgs fd_capacity [] (rv_cmsgs r) ?k0) = take fd_capacity (cmsg_fds (rv_cmsgs r))"
    "k_trace (snd (take_cmsgs fd_capacity [] (rv_cmsgs r) ?k0)) =
      k_trace k @ closes (drop fd_capacity (cmsg_fds (rv_cmsgs r)))"
    using take_cmsgs_split [of "[]" fd_capacity "rv_cmsgs r" ?k0] by simp_all
  then show ?thesis
    using assms by (simp add: hfior_recv_fds_def kernel_recv_def split_def)
qed

definition two_rights_kernel :: "bool \<Rightarrow> kernel" where
  "two_rights_kernel truncated = quiet_kernel\<lparr>k_recvs := (\<lambda>_. Recv_interrupted (Received
     \<lparr>rv_bytes = [1, 2], rv_truncated = truncated, rv_cmsgs = [Rights [7], Other_cmsg, Rights [8, 9]]\<rparr>))\<rparr>"

lemma recv_fds_conserves_witness:
  "\<exists>k1. hfior_recv_fds 8 2 (two_rights_kernel False) = (Inr ([1, 2], [7, 8]), k1) \<and>
    k_trace k1 = [Closed 9]"
  using recv_fds_conserves [of "two_rights_kernel False"
      "\<lparr>rv_bytes = [1, 2], rv_truncated = False, rv_cmsgs = [Rights [7], Other_cmsg, Rights [8, 9]]\<rparr>" 8 2]
  by (simp add: two_rights_kernel_def quiet_kernel_def closes_def)

text \<open>C29: When the control data were truncated the message is refused with \<open>EMSGSIZE\<close>, but the
  descriptors the kernel had already installed are neither returned nor closed: whatever they are,
  the process keeps them open without knowing them.\<close>

theorem recv_fds_truncated_leaks:
  assumes "retry_recv (k_recvs k (k_recvs_made k)) = Received r"
    "take message_capacity (rv_bytes r) \<noteq> []" "rv_truncated r"
  shows "\<exists>k1. hfior_recv_fds message_capacity fd_capacity k = (Inl EMSGSIZE, k1) \<and>
    k_trace k1 = k_trace k"
  using assms by (simp add: hfior_recv_fds_def kernel_recv_def)

lemma recv_fds_truncated_leaks_witness:
  "\<exists>k1. hfior_recv_fds 8 2 (two_rights_kernel True) = (Inl EMSGSIZE, k1) \<and> k_trace k1 = []"
  using recv_fds_truncated_leaks [of "two_rights_kernel True"
      "\<lparr>rv_bytes = [1, 2], rv_truncated = True, rv_cmsgs = [Rights [7], Other_cmsg, Rights [8, 9]]\<rparr>" 8 2]
  by (simp add: two_rights_kernel_def quiet_kernel_def)

text \<open>A send reports success exactly when the whole message, with all its descriptors, reached
  the peer, however often the call was interrupted; more than eight descriptors are refused and
  nothing is sent.\<close>

lemma send_fds_success:
  assumes "\<And>n. retry_eintr (k_calls k (k_calls_made k)) = Returned n \<Longrightarrow> 0 \<le> n \<and> n \<le> int (length m)"
  shows "fst (hfior_send_fds fd m fds fl k) = Inr () \<longleftrightarrow>
    length fds \<le> 8 \<and>
    k_trace (snd (hfior_send_fds fd m fds fl k)) = k_trace k @ [Sent fd (fl OR MSG_NOSIGNAL) m fds]"
proof (cases k rule: send_fds_cases)
  case (failed e)
  then show ?thesis by (simp add: hfior_send_fds_def kernel_call_def)
next
  case (sent n)
  have "take (nat n) m = m \<longleftrightarrow> n = int (length m)"
    using assms [OF sent] by (auto simp: take_all_iff)
  then show ?thesis
    using sent by (auto simp: hfior_send_fds_def kernel_call_def Let_def)
qed

lemma send_fds_success_witness:
  "fst (hfior_send_fds 5 [1, 2, 3] [6] 0
      (quiet_kernel\<lparr>k_calls := (\<lambda>_. Interrupted (Returned 3))\<rparr>)) = Inr () \<and>
   k_trace (snd (hfior_send_fds 5 [1, 2, 3] [6] 0
      (quiet_kernel\<lparr>k_calls := (\<lambda>_. Interrupted (Returned 3))\<rparr>))) = [Sent 5 MSG_NOSIGNAL [1, 2, 3] [6]]"
  using send_fds_success [of "quiet_kernel\<lparr>k_calls := (\<lambda>_. Interrupted (Returned 3))\<rparr>" "[1, 2, 3]" 5 "[6]" 0]
  by (simp add: hfior_send_fds_def kernel_call_def quiet_kernel_def)

end
