(* ===== verification/Metrics.thy ===== *)
theory Metrics
  imports Prelude Complex_Main "HOL-Library.Log_Nat" "HOL-Library.Multiset"
begin

text \<open>
  The numeric side of \<open>src/common.c\<close>: the growing vector of nanosecond samples, its
  maximum, percentile and means, and binary floating point. A finite \<open>double\<close> is the rational number it
  stands for; every arithmetic operation of the C code is the exact one followed by
  \<open>round_double\<close> (round to nearest, ties to even, with the subnormal spacing at the
  bottom). Overflow to infinity does not occur for the magnitudes the code uses, the
  multiplications and additions are not contracted to fused ones (x86-64 without \<open>-march\<close>), and
  no caller passes a NaN.
\<close>

section \<open>Binary floating point\<close>

definition round_half_even :: "rat \<Rightarrow> int" where
  "round_half_even x =
     (let f = \<lfloor>x\<rfloor>; d = x - of_int f
      in if d < 1 / 2 then f else if d > 1 / 2 then f + 1 else if even f then f else f + 1)"

text \<open>The exponent \<open>e\<close> with \<open>2^e \<le> x < 2^(e+1)\<close>, for a positive \<open>x\<close>.\<close>

definition binade :: "rat \<Rightarrow> int" where
  "binade x =
     (let (p, q) = quotient_of x; b = bitlen p - bitlen q
      in if 2 powi b \<le> x then b else b - 1)"

definition round_to :: "int \<Rightarrow> int \<Rightarrow> rat \<Rightarrow> rat" where
  "round_to precision least x =
     (if x = 0 then 0
      else let ulp = 2 powi (max (binade \<bar>x\<bar> - precision + 1) least)
           in of_int (round_half_even (x / ulp)) * ulp)"

definition round_double :: "rat \<Rightarrow> rat" where "round_double = round_to 53 (- 1074)"

text \<open>\<open>(uint64_t)x\<close>, defined for \<open>0 \<le> x < 2^64\<close>.\<close>

definition u64_of_double :: "rat \<Rightarrow> u64" where "u64_of_double x = word_of_int \<lfloor>x\<rfloor>"

definition double_of_u64 :: "u64 \<Rightarrow> rat" where "double_of_u64 w = round_double (of_nat (unat w))"

section \<open>The vector of samples\<close>

text \<open>
  \<open>v_data\<close> are the first \<open>length\<close> elements of the allocation of \<open>v_capacity\<close>
  elements. \<open>grown\<close> is whether \<open>realloc\<close> succeeds; \<open>None\<close> is \<open>abort\<close>.
\<close>

record hfior_u64_vec =
  v_data :: "u64 list"
  v_capacity :: nat

definition hfior_vec_push :: "bool \<Rightarrow> hfior_u64_vec \<Rightarrow> u64 \<Rightarrow> hfior_u64_vec option" where
  "hfior_vec_push grown vec v =
     (if length (v_data vec) = v_capacity vec
      then (let new_capacity = (if v_capacity vec \<noteq> 0 then v_capacity vec * 2 else 4096)
            in if \<not> grown then None
               else Some \<lparr>v_data = v_data vec @ [v], v_capacity = new_capacity\<rparr>)
      else Some (vec\<lparr>v_data := v_data vec @ [v]\<rparr>))"

definition hfior_vec_free :: "hfior_u64_vec \<Rightarrow> hfior_u64_vec" where
  "hfior_vec_free vec = \<lparr>v_data = [], v_capacity = 0\<rparr>"

definition compare_u64 :: "u64 \<Rightarrow> u64 \<Rightarrow> int" where
  "compare_u64 a b = of_bool (a > b) - of_bool (a < b)"

definition hfior_max_ns :: "hfior_u64_vec \<Rightarrow> u64" where
  "hfior_max_ns vec = fold (\<lambda>x maximum. if x > maximum then x else maximum) (v_data vec) 0"

section \<open>What they compute\<close>

definition vec_ok :: "hfior_u64_vec \<Rightarrow> bool" where
  "vec_ok vec \<longleftrightarrow> length (v_data vec) \<le> v_capacity vec"

lemma max_fold:
  fixes m :: u64
  shows "fold (\<lambda>x maximum. if x > maximum then x else maximum) xs m = Max (set (m # xs))"
proof (induction xs arbitrary: m)
  case Nil
  show ?case by simp
next
  case (Cons x xs)
  have "Max (set ((if x > m then x else m) # xs)) = Max (set (m # x # xs))"
    by (cases "xs = []") (auto simp: max_def)
  with Cons.IH show ?case by simp
qed

text \<open>Growing keeps the samples within their allocation: a push that returns has appended
  exactly the value, and the length never exceeds the capacity of the allocation written to.\<close>

theorem vec_push_within:
  assumes "vec_ok vec" "hfior_vec_push grown vec v = Some vec1"
  shows "v_data vec1 = v_data vec @ [v] \<and> vec_ok vec1"
  using assms by (auto simp: hfior_vec_push_def vec_ok_def Let_def split: if_splits)

lemma vec_push_within_witness:
  "v_data \<lparr>v_data = [7 :: u64], v_capacity = 4096\<rparr> = [] @ [7] \<and>
   vec_ok \<lparr>v_data = [7], v_capacity = 4096\<rparr>"
  using vec_push_within [of "\<lparr>v_data = [], v_capacity = 0\<rparr>" True 7 "\<lparr>v_data = [7], v_capacity = 4096\<rparr>"]
  by (simp add: vec_ok_def hfior_vec_push_def)

text \<open>The maximum of the samples is their greatest, and 0 when there are none.\<close>

theorem max_ns_correct:
  "hfior_max_ns vec = (if v_data vec = [] then 0 else Max (set (v_data vec)))"
  unfolding hfior_max_ns_def max_fold by simp

section \<open>Order statistics and means\<close>

text \<open>
  \<open>long double\<close> is the 80-bit format of x86: 64 bits of precision.
\<close>

definition round_long :: "rat \<Rightarrow> rat" where "round_long = round_to 64 (- 16445)"

definition double_of_nat :: "nat \<Rightarrow> rat" where "double_of_nat n = round_double (of_nat n)"

text \<open>
  \<open>qsort\<close> with \<open>compare_u64\<close> leaves the data in ascending order; equal elements cannot be told
  apart. The vector afterwards is the second component of the result.
\<close>

definition hfior_percentile_ns :: "hfior_u64_vec \<Rightarrow> rat \<Rightarrow> rat \<times> hfior_u64_vec" where
  "hfior_percentile_ns vec percentile =
     (if v_data vec = [] then (0, vec)
      else
        let p1 = (if percentile < 0 then 0 else percentile);
            p2 = (if p1 > 100 then 100 else p1);
            p = round_double (p2 / 100);
            data = sort (v_data vec);
            rank = round_double (p * double_of_nat (length data - 1));
            lo = nat \<lfloor>rank\<rfloor>;
            hi = nat \<lceil>rank\<rceil>;
            fraction = round_double (rank - double_of_nat lo)
        in (round_double
              (round_double (double_of_u64 (data ! lo) * round_double (1 - fraction)) +
               round_double (double_of_u64 (data ! hi) * fraction)),
            vec\<lparr>v_data := data\<rparr>))"

text \<open>A \<open>uint64_t\<close> is exact as a \<open>long double\<close>; the running sum is rounded at every addition.\<close>

definition long_sum :: "u64 list \<Rightarrow> rat" where
  "long_sum data = fold (\<lambda>x sum. round_long (sum + of_nat (unat x))) data 0"

definition hfior_worst_fraction_mean_ns :: "hfior_u64_vec \<Rightarrow> rat \<Rightarrow> rat \<times> hfior_u64_vec" where
  "hfior_worst_fraction_mean_ns vec fraction =
     (if v_data vec = [] then (0, vec)
      else
        let f1 = (if fraction \<le> 0 then round_double (1 / double_of_nat (length (v_data vec))) else fraction);
            f = (if f1 > 1 then 1 else f1);
            data = sort (v_data vec);
            wanted = nat \<lceil>round_double (f * double_of_nat (length data))\<rceil>;
            count = (if wanted = 0 then 1 else wanted);
            start = length data - count
        in (round_double (round_long (long_sum (drop start data) / of_nat count)), vec\<lparr>v_data := data\<rparr>))"

definition hfior_mean_ns :: "hfior_u64_vec \<Rightarrow> rat" where
  "hfior_mean_ns vec =
     (if v_data vec = [] then 0
      else round_double (round_long (long_sum (v_data vec) / of_nat (length (v_data vec)))))"

section \<open>Rounding\<close>

lemma round_half_even_of_int [simp]: "round_half_even (of_int n) = n"
  by (simp add: round_half_even_def Let_def)

lemma round_half_even_le:
  assumes "x \<le> of_int n"
  shows "round_half_even x \<le> n"
proof (cases "x = of_int n")
  case False
  then have "x < of_int n" using assms by simp
  then have "\<lfloor>x\<rfloor> < n" by (simp add: floor_less_iff)
  then show ?thesis by (simp add: round_half_even_def Let_def)
qed simp

lemma round_half_even_ge:
  assumes "of_int n \<le> x"
  shows "n \<le> round_half_even x"
proof -
  have "n \<le> \<lfloor>x\<rfloor>" using assms by (simp add: le_floor_iff)
  then show ?thesis by (simp add: round_half_even_def Let_def)
qed

lemma binade_le:
  assumes "0 < x"
  shows "2 powi (binade x) \<le> x"
proof -
  obtain p q where pq: "quotient_of x = (p, q)" by fastforce
  have q: "0 < q" using quotient_of_denom_pos [OF pq] .
  have x: "x = of_int p / of_int q" using quotient_of_div [OF pq] .
  have p: "0 < p" using assms q unfolding x by (simp add: zero_less_divide_iff)
  let ?b = "bitlen p - bitlen q"
  have bp: "2 ^ nat (bitlen p - 1) \<le> p" "0 < bitlen p"
    using bitlen_bounds [OF p] p bitlen_eq_zero_iff [of p] bitlen_nonneg [of p] by linarith+
  have bq: "q < 2 ^ nat (bitlen q)" "0 < bitlen q"
    using bitlen_bounds [OF q] q bitlen_eq_zero_iff [of q] bitlen_nonneg [of q] by linarith+
  have "2 powi (?b - 1) = (2 powi (bitlen p - 1) / 2 powi (bitlen q) :: rat)"
    by (simp add: power_int_diff [symmetric] algebra_simps)
  also have "\<dots> \<le> of_int p / of_int q"
  proof (rule frac_le)
    have "2 powi (bitlen p - 1) = (2 ^ nat (bitlen p - 1) :: rat)"
      using bp(2) by (simp add: power_int_def)
    also have "\<dots> \<le> of_int p" using bp(1) by (metis of_int_le_iff of_int_numeral of_int_power)
    finally show "2 powi (bitlen p - 1) \<le> (of_int p :: rat)" .
    have "(of_int q :: rat) \<le> 2 ^ nat (bitlen q)" using bq(1)
      by (metis less_imp_le of_int_le_iff of_int_numeral of_int_power)
    also have "\<dots> = 2 powi (bitlen q)" using bq(2) by (simp add: power_int_def)
    finally show "(of_int q :: rat) \<le> 2 powi (bitlen q)" .
  qed (use q p in simp_all)
  finally have "2 powi (?b - 1) \<le> x" by (simp add: x)
  then show ?thesis by (simp add: binade_def pq Let_def)
qed

text \<open>An integer below \<open>2^precision\<close> is a multiple of the spacing of every smaller number, so
  rounding does not carry past it.\<close>

lemma ulp_divides:
  assumes "0 < x" "x < 2 ^ nat precision" "0 < precision" "least \<le> 0"
  obtains k :: nat where "2 powi (max (binade x - precision + 1) least) = (1 / 2 ^ k :: rat)"
proof -
  have "2 powi (binade x) < (2 :: rat) powi precision"
    using binade_le [OF assms(1)] assms(2,3) by (simp add: power_int_def)
  then have "binade x < precision"
    using power_int_increasing [of precision "binade x" "2 :: rat"] by (cases "binade x < precision") simp_all
  then have "max (binade x - precision + 1) least \<le> 0" using assms(4) by simp
  then have "2 powi (max (binade x - precision + 1) least) =
      (1 / 2 ^ nat (- max (binade x - precision + 1) least) :: rat)"
    by (simp add: power_int_def field_simps power_inverse)
  then show thesis by (rule that)
qed

lemma round_to_le_int:
  assumes "0 \<le> x" "x \<le> of_nat n" "n < 2 ^ nat precision" "0 < precision" "least \<le> 0"
  shows "round_to precision least x \<le> of_nat n" "0 \<le> round_to precision least x"
proof -
  have "round_to precision least x \<le> of_nat n \<and> 0 \<le> round_to precision least x"
  proof (cases "x = 0")
    case False
    then have pos: "0 < x" using assms(1) by simp
    have "(of_nat n :: rat) < 2 ^ nat precision" using assms(3) by (metis of_nat_less_iff of_nat_numeral of_nat_power)
    then have "x < 2 ^ nat precision" using assms(2) by (rule le_less_trans [rotated])
    from ulp_divides [OF pos this assms(4,5)] obtain k where
      ulp: "2 powi (max (binade x - precision + 1) least) = (1 / 2 ^ k :: rat)" by blast
    have "x * 2 ^ k \<le> of_int (int n * 2 ^ k)" "of_int 0 \<le> x * 2 ^ k" using assms(1,2) by simp_all
    then have r: "round_half_even (x * 2 ^ k) \<le> int n * 2 ^ k" "0 \<le> round_half_even (x * 2 ^ k)"
      using round_half_even_le round_half_even_ge by blast+
    have "of_int (round_half_even (x * 2 ^ k)) \<le> (of_int (int n * 2 ^ k) :: rat)" using r(1) by (simp only: of_int_le_iff)
    moreover have "round_to precision least x = of_int (round_half_even (x / (1 / 2 ^ k))) * (1 / 2 ^ k)"
      using False pos by (simp only: round_to_def Let_def abs_of_pos ulp if_False)
    ultimately show ?thesis using r(2) by (simp add: pos_divide_le_eq)
  qed (simp add: round_to_def)
  then show "round_to precision least x \<le> of_nat n" "0 \<le> round_to precision least x" by simp_all
qed

lemma round_to_int:
  assumes "n < 2 ^ nat precision" "0 < precision" "least \<le> 0"
  shows "round_to precision least (of_nat n) = of_nat n"
proof (cases "n = 0")
  case False
  then have pos: "(0 :: rat) < of_nat n" by simp
  have "(of_nat n :: rat) < 2 ^ nat precision" using assms(1) by (metis of_nat_less_iff of_nat_numeral of_nat_power)
  from ulp_divides [OF pos this assms(2,3)] obtain k where
    ulp: "2 powi (max (binade (of_nat n) - precision + 1) least) = (1 / 2 ^ k :: rat)" by blast
  have "(of_nat n :: rat) * 2 ^ k = of_int (int n * 2 ^ k)" by simp
  then have "round_half_even ((of_nat n :: rat) * 2 ^ k) = int n * 2 ^ k" by (simp only: round_half_even_of_int)
  moreover have "round_to precision least (of_nat n) =
      of_int (round_half_even (of_nat n / (1 / 2 ^ k))) * (1 / 2 ^ k)"
    using False pos by (simp only: round_to_def Let_def abs_of_pos ulp if_False less_imp_neq [symmetric])
  ultimately show ?thesis by simp
qed (simp add: round_to_def)

lemma round_double_int: "n < 2 ^ 53 \<Longrightarrow> round_double (of_nat n) = of_nat n"
  using round_to_int [of n 53 "- 1074"] by (simp add: round_double_def)

lemma round_double_le: "0 \<le> x \<Longrightarrow> x \<le> of_nat n \<Longrightarrow> n < 2 ^ 53 \<Longrightarrow> round_double x \<le> of_nat n \<and> 0 \<le> round_double x"
  using round_to_le_int [of x n 53 "- 1074"] by (simp add: round_double_def)

lemma round_long_int: "n < 2 ^ 64 \<Longrightarrow> round_long (of_nat n) = of_nat n"
  using round_to_int [of n 64 "- 16445"] by (simp add: round_long_def)


lemma binade_less:
  assumes "0 < x"
  shows "x < 2 powi (binade x + 1)"
proof -
  obtain p q where pq: "quotient_of x = (p, q)" by fastforce
  have q: "0 < q" using quotient_of_denom_pos [OF pq] .
  have x: "x = of_int p / of_int q" using quotient_of_div [OF pq] .
  have p: "0 < p" using assms q unfolding x by (simp add: zero_less_divide_iff)
  let ?b = "bitlen p - bitlen q"
  have bp: "p < 2 ^ nat (bitlen p)" "0 < bitlen p"
    using bitlen_bounds [OF p] p bitlen_eq_zero_iff [of p] bitlen_nonneg [of p] by linarith+
  have bq: "2 ^ nat (bitlen q - 1) \<le> q" "0 < bitlen q"
    using bitlen_bounds [OF q] q bitlen_eq_zero_iff [of q] bitlen_nonneg [of q] by linarith+
  have "of_int p / of_int q < (2 powi (bitlen p) / 2 powi (bitlen q - 1) :: rat)"
  proof (rule frac_less)
    have "(of_int p :: rat) < 2 ^ nat (bitlen p)" using bp(1) by (metis of_int_less_iff of_int_numeral of_int_power)
    also have "\<dots> = 2 powi (bitlen p)" using bp(2) by (simp add: power_int_def)
    finally show "(of_int p :: rat) < 2 powi (bitlen p)" .
    have "2 powi (bitlen q - 1) = (2 ^ nat (bitlen q - 1) :: rat)" using bq(2) by (simp add: power_int_def)
    also have "\<dots> \<le> of_int q" using bq(1) by (metis of_int_le_iff of_int_numeral of_int_power)
    finally show "2 powi (bitlen q - 1) \<le> (of_int q :: rat)" .
  qed (use q p in simp_all)
  also have "\<dots> = 2 powi (?b + 1)" by (simp add: power_int_diff [symmetric] algebra_simps)
  finally have "x < 2 powi (?b + 1)" by (simp add: x)
  then show ?thesis by (auto simp: binade_def pq Let_def)
qed

text \<open>A multiple of a power of two with few enough significant bits is its own rounding.\<close>

definition representable :: "int \<Rightarrow> int \<Rightarrow> rat \<Rightarrow> bool" where
  "representable precision least y \<longleftrightarrow>
     (\<exists>j e. least \<le> e \<and> j < 2 ^ nat precision \<and> y = of_nat j * 2 powi e)"

lemma round_to_representable:
  assumes "representable precision least y" "0 < precision"
  shows "round_to precision least y = y"
proof (cases "y = 0")
  case False
  obtain j e where je: "least \<le> e" "j < 2 ^ nat precision" "y = of_nat j * 2 powi e"
    using assms(1) by (auto simp: representable_def)
  then have pos: "0 < y" using False by (auto simp: zero_less_mult_iff)
  have "(of_nat j :: rat) < 2 powi precision"
    using je(2) assms(2) by (simp add: power_int_def)
  then have "y < 2 powi precision * 2 powi e" by (simp add: je(3))
  then have "2 powi (binade y) < (2 :: rat) powi (precision + e)"
    using binade_le [OF pos] by (simp add: power_int_add)
  then have "binade y < precision + e"
    using power_int_increasing [of "precision + e" "binade y" "2 :: rat"]
    by (cases "binade y < precision + e") simp_all
  then have d: "max (binade y - precision + 1) least \<le> e" using je(1) by simp
  let ?m = "max (binade y - precision + 1) least"
  have "2 powi e / 2 powi ?m = (2 powi (e - ?m) :: rat)" by (simp add: power_int_diff)
  also have "\<dots> = of_int (2 ^ nat (e - ?m))" using d by (simp add: power_int_def)
  finally have ulp: "2 powi e / 2 powi ?m = (of_int (2 ^ nat (e - ?m)) :: rat)" .
  have "y / 2 powi ?m = of_nat j * (2 powi e / 2 powi ?m)" by (simp add: je(3))
  then have quot: "y / 2 powi ?m = of_int (int j * 2 ^ nat (e - ?m))" unfolding ulp by simp
  have "round_half_even (y / 2 powi ?m) = int j * 2 ^ nat (e - ?m)" unfolding quot by (rule round_half_even_of_int)
  then have "of_int (round_half_even (y / 2 powi ?m)) = y / 2 powi ?m"
    unfolding quot by simp
  then show ?thesis using False pos by (simp only: round_to_def Let_def abs_of_pos if_False) simp
qed (simp add: round_to_def)

lemma representable_round_to:
  assumes "0 \<le> x" "0 < precision"
  shows "representable precision least (round_to precision least x)"
proof (cases "x = 0")
  case True
  then show ?thesis by (auto simp: round_to_def representable_def intro!: exI [of _ 0] exI [of _ least])
next
  case False
  then have pos: "0 < x" using assms(1) by simp
  let ?m = "max (binade x - precision + 1) least"
  let ?k = "round_half_even (x / 2 powi ?m)"
  have r: "round_to precision least x = of_int ?k * 2 powi ?m"
    using False pos by (simp only: round_to_def Let_def abs_of_pos if_False)
  have "x / 2 powi ?m \<le> 2 powi (binade x + 1) / 2 powi ?m"
    using binade_less [OF pos] by (intro divide_right_mono) simp_all
  also have "\<dots> = 2 powi (binade x + 1 - ?m)" by (simp add: power_int_diff)
  also have "\<dots> \<le> 2 powi precision" by (rule power_int_increasing) simp_all
  also have "\<dots> = of_int (2 ^ nat precision)" using assms(2) by (simp add: power_int_def)
  finally have k: "?k \<le> 2 ^ nat precision" by (rule round_half_even_le)
  have k0: "0 \<le> ?k" using pos by (intro round_half_even_ge) simp
  show ?thesis
  proof (cases "?k = 2 ^ nat precision")
    case True
    have "(2 :: rat) ^ nat precision = 2 ^ (nat precision - 1) * 2"
      using assms(2) by (metis power_minus_mult zero_less_nat_eq)
    then have "of_int ?k * 2 powi ?m = of_nat (2 ^ (nat precision - 1)) * (2 powi (?m + 1) :: rat)"
      unfolding True by (simp add: power_int_add)
    moreover have "2 ^ (nat precision - 1) < (2 :: nat) ^ nat precision" using assms(2) by simp
    ultimately show ?thesis
      unfolding r representable_def
      by (intro exI [of _ "2 ^ (nat precision - 1)"] exI [of _ "?m + 1"]) simp
  next
    case False
    then have "nat ?k < 2 ^ nat precision" using k k0 by (simp add: nat_less_iff)
    then show ?thesis
      unfolding r representable_def using k0
      by (intro exI [of _ "nat ?k"] exI [of _ ?m]) simp
  qed
qed

lemma round_double_idem: "0 \<le> x \<Longrightarrow> round_double (round_double x) = round_double x"
  unfolding round_double_def by (intro round_to_representable representable_round_to) simp_all

lemma round_double_nonneg: "0 \<le> x \<Longrightarrow> 0 \<le> round_double x"
  using representable_round_to [of x 53 "- 1074"] by (auto simp: round_double_def representable_def)

lemma round_double_u64: "round_double (double_of_u64 w) = double_of_u64 w"
  unfolding double_of_u64_def by (rule round_double_idem) (rule of_nat_0_le_iff)

section \<open>What the statistics compute\<close>

lemma double_of_nat_int: "n < 2 ^ 53 \<Longrightarrow> double_of_nat n = of_nat n"
  by (simp add: double_of_nat_def round_double_int)

text \<open>The two indices of the percentile.\<close>

definition percentile_rank :: "nat \<Rightarrow> rat \<Rightarrow> rat" where
  "percentile_rank n percentile = round_double (round_double ((if (if percentile < 0 then 0 else percentile) > 100
     then 100 else if percentile < 0 then 0 else percentile) / 100) * double_of_nat (n - 1))"

lemma percentile_rank_range:
  assumes "0 < n" "n \<le> 2 ^ 53"
  shows "0 \<le> percentile_rank n p" "percentile_rank n p \<le> of_nat (n - 1)"
proof -
  let ?q = "(if (if p < 0 then 0 else p) > 100 then 100 else if p < 0 then 0 else p) / 100 :: rat"
  have "0 \<le> ?q" "?q \<le> of_nat 1" by simp_all
  from round_double_le [OF this] have q: "0 \<le> round_double ?q" "round_double ?q \<le> 1" by simp_all
  have n: "double_of_nat (n - 1) = of_nat (n - 1)" "n - 1 < 2 ^ 53"
    using assms by (simp_all add: double_of_nat_int)
  have "0 \<le> round_double ?q * of_nat (n - 1)" "round_double ?q * of_nat (n - 1) \<le> of_nat (n - 1)"
    using q by (simp_all add: mult_left_le_one_le)
  from round_double_le [OF this n(2)] show "0 \<le> percentile_rank n p" "percentile_rank n p \<le> of_nat (n - 1)"
    unfolding percentile_rank_def n(1) by blast+
qed

lemma percentile_indices:
  assumes "0 < n" "n \<le> 2 ^ 53"
  shows "nat \<lfloor>percentile_rank n p\<rfloor> < n" "nat \<lceil>percentile_rank n p\<rceil> < n"
    "nat \<lfloor>percentile_rank n p\<rfloor> \<le> nat \<lceil>percentile_rank n p\<rceil>"
    "nat \<lceil>percentile_rank n p\<rceil> \<le> nat \<lfloor>percentile_rank n p\<rfloor> + 1"
proof -
  note r = percentile_rank_range [OF assms, of p]
  have "percentile_rank n p \<le> of_int (int (n - 1))" using r(2) by simp
  then have hi: "\<lceil>percentile_rank n p\<rceil> \<le> int (n - 1)" by (simp only: ceiling_le_iff)
  have lo: "0 \<le> \<lfloor>percentile_rank n p\<rfloor>" "\<lfloor>percentile_rank n p\<rfloor> \<le> \<lceil>percentile_rank n p\<rceil>"
    "\<lceil>percentile_rank n p\<rceil> \<le> \<lfloor>percentile_rank n p\<rfloor> + 1"
    using r(1) floor_le_ceiling [of "percentile_rank n p"] ceiling_diff_floor_le_1 [of "percentile_rank n p"]
    by simp_all
  show "nat \<lfloor>percentile_rank n p\<rfloor> < n" "nat \<lceil>percentile_rank n p\<rceil> < n"
    "nat \<lfloor>percentile_rank n p\<rfloor> \<le> nat \<lceil>percentile_rank n p\<rceil>"
    "nat \<lceil>percentile_rank n p\<rceil> \<le> nat \<lfloor>percentile_rank n p\<rfloor> + 1"
    using hi lo assms(1) by linarith+
qed

lemma percentile_unfold:
  assumes "v_data vec \<noteq> []"
  shows "hfior_percentile_ns vec p =
    (let data = sort (v_data vec); rank = percentile_rank (length data) p; lo = nat \<lfloor>rank\<rfloor>; hi = nat \<lceil>rank\<rceil>;
         fraction = round_double (rank - double_of_nat lo)
     in (round_double (round_double (double_of_u64 (data ! lo) * round_double (1 - fraction)) +
           round_double (double_of_u64 (data ! hi) * fraction)), vec\<lparr>v_data := data\<rparr>))"
  using assms unfolding hfior_percentile_ns_def percentile_rank_def Let_def by simp

lemma long_sum_exact:
  assumes "sum_list (map unat data) < 2 ^ 64"
  shows "long_sum data = of_nat (sum_list (map unat data))"
proof -
  have "fold (\<lambda>x sum. round_long (sum + of_nat (unat x))) data (of_nat k) = of_nat (k + sum_list (map unat data))"
    if "k + sum_list (map unat data) < 2 ^ 64" for k
    using that
  proof (induction data arbitrary: k)
    case (Cons x data)
    then have "round_long (of_nat k + of_nat (unat x)) = of_nat (k + unat x)"
      using round_long_int [of "k + unat x"] by simp
    then show ?case using Cons.IH [of "k + unat x"] Cons.prems by (simp add: add.assoc)
  qed simp
  from this [of 0] show ?thesis using assms by (simp add: long_sum_def)
qed


lemma round_double_simps [simp]: "round_double 0 = 0" "round_double 1 = 1"
  using round_double_int [of 0] round_double_int [of 1] by simp_all

lemma percentile_at_integer:
  assumes "v_data vec \<noteq> []" "percentile_rank (length (v_data vec)) p = of_nat k" "k < 2 ^ 53"
  shows "fst (hfior_percentile_ns vec p) = double_of_u64 (sort (v_data vec) ! k)"
  using assms by (simp add: percentile_unfold Let_def double_of_nat_int round_double_u64)

lemma sort_ends:
  assumes "xs \<noteq> []"
  shows "sort xs ! 0 = Min (set xs)" "sort xs ! (length xs - 1) = Max (set xs)"
proof -
  have s: "sorted (sort xs)" "sort xs \<noteq> []" "set (sort xs) = set xs" "length (sort xs) = length xs"
    using assms by (simp_all flip: length_greater_0_conv)
  show "sort xs ! 0 = Min (set xs)"
  proof (rule Min_eqI [symmetric])
    show "sort xs ! 0 \<in> set xs" using s by (metis length_greater_0_conv nth_mem)
    show "sort xs ! 0 \<le> x" if "x \<in> set xs" for x
      using that s by (metis in_set_conv_nth sorted_nth_mono le0)
  qed simp
  show "sort xs ! (length xs - 1) = Max (set xs)"
  proof (rule Max_eqI [symmetric])
    show "sort xs ! (length xs - 1) \<in> set xs" using s assms by (metis diff_less length_greater_0_conv nth_mem zero_less_one)
    show "x \<le> sort xs ! (length xs - 1)" if x: "x \<in> set xs" for x
    proof -
      obtain i where i: "i < length xs" "sort xs ! i = x" using x s(3,4) by (metis in_set_conv_nth)
      then have "sort xs ! i \<le> sort xs ! (length xs - 1)" using s by (intro sorted_nth_mono) simp_all
      with i show ?thesis by simp
    qed
  qed simp
qed



lemma worst_fraction_mean_count:
  assumes "v_data vec \<noteq> []" "0 < fraction"
  shows "fst (hfior_worst_fraction_mean_ns vec fraction) =
    (let n = length (v_data vec); c = max 1 (nat \<lceil>round_double (min 1 fraction * double_of_nat n)\<rceil>)
     in round_double (round_long (long_sum (drop (n - c) (sort (v_data vec))) / of_nat c)))"
proof -
  have f: "\<not> fraction \<le> 0" "(if fraction > 1 then 1 else fraction) = min 1 fraction" using assms(2) by (simp_all add: min_def)
  have w: "(if w = 0 then 1 else w) = max 1 w" for w :: nat by simp
  show ?thesis
    unfolding hfior_worst_fraction_mean_ns_def Let_def w length_sort if_not_P [OF assms(1)] if_not_P [OF f(1)] f(2) fst_conv ..
qed

text \<open>C35: The mean over the worst fraction takes at least one and at most all of the samples, never reading
  before the vector; as long as their sum stays below \<open>2^64\<close> the running sum is exact, so the result is
  the mean of that many greatest samples, rounded twice.\<close>

theorem worst_fraction_mean:
  assumes "v_data vec \<noteq> []" "length (v_data vec) \<le> 2 ^ 52" "sum_list (map unat (v_data vec)) < 2 ^ 64" "0 < fraction"
  shows "\<exists>count. 1 \<le> count \<and> count \<le> length (v_data vec) \<and>
    count = max 1 (nat \<lceil>round_double (min 1 fraction * of_nat (length (v_data vec)))\<rceil>) \<and>
    fst (hfior_worst_fraction_mean_ns vec fraction) = round_double (round_long
      (of_nat (sum_list (map unat (drop (length (v_data vec) - count) (sort (v_data vec))))) / of_nat count))"
proof -
  let ?n = "length (v_data vec)" and ?f = "min 1 fraction"
  have n: "0 < ?n" "?n < 2 ^ 53" using assms(1,2) by simp_all
  let ?w = "nat \<lceil>round_double (?f * of_nat ?n)\<rceil>"
  let ?c = "max 1 ?w"
  have "0 \<le> ?f * of_nat ?n" "?f * of_nat ?n \<le> of_nat ?n" using assms(4) by (simp_all add: mult_left_le_one_le)
  from round_double_le [OF this n(2)] have "round_double (?f * of_nat ?n) \<le> of_int (int ?n)" by simp
  then have "\<lceil>round_double (?f * of_nat ?n)\<rceil> \<le> int ?n" by (simp only: ceiling_le_iff)
  then have c: "1 \<le> ?c" "?c \<le> ?n" using n(1) by (rule_tac max.cobounded1, linarith)
  have "mset (sort (v_data vec)) = mset (v_data vec)" by simp
  then have "sum_list (map unat (sort (v_data vec))) = sum_list (map unat (v_data vec))"
    by (metis mset_map sum_mset_sum_list)
  moreover have "sum_list (map unat (sort (v_data vec))) =
      sum_list (map unat (take (?n - ?c) (sort (v_data vec)))) + sum_list (map unat (drop (?n - ?c) (sort (v_data vec))))"
    by (metis append_take_drop_id map_append sum_list_append)
  ultimately have "sum_list (map unat (drop (?n - ?c) (sort (v_data vec)))) < 2 ^ 64" using assms(3) by simp
  from long_sum_exact [OF this] have sum: "long_sum (drop (?n - ?c) (sort (v_data vec))) =
      of_nat (sum_list (map unat (drop (?n - ?c) (sort (v_data vec)))))" .
  have "fst (hfior_worst_fraction_mean_ns vec fraction) =
      round_double (round_long (long_sum (drop (?n - ?c) (sort (v_data vec))) / of_nat ?c))"
    using worst_fraction_mean_count [OF assms(1,4)] n(2) by (simp only: double_of_nat_int Let_def)
  then show ?thesis unfolding sum by (intro exI [of _ ?c] conjI c refl)
qed

lemma worst_fraction_mean_witness:
  "fst (hfior_worst_fraction_mean_ns \<lparr>v_data = [9, 4, 7], v_capacity = 4096\<rparr> 1) = round_double (round_long (20 / 3))"
proof -
  let ?vec = "\<lparr>v_data = [9, 4, 7], v_capacity = 4096\<rparr>"
  have "v_data ?vec \<noteq> []" "length (v_data ?vec) \<le> 2 ^ 52" "sum_list (map unat (v_data ?vec)) < 2 ^ 64" "0 < (1 :: rat)"
    by simp_all
  from worst_fraction_mean [OF this] obtain count where
    c: "count = max 1 (nat \<lceil>round_double (min 1 1 * of_nat (length (v_data ?vec)))\<rceil>)"
    "fst (hfior_worst_fraction_mean_ns ?vec 1) = round_double (round_long
      (of_nat (sum_list (map unat (drop (length (v_data ?vec) - count) (sort (v_data ?vec))))) / of_nat count))"
    by blast
  have "count = 3" using c(1) round_double_int [of 3] by simp
  then show ?thesis using c(2) by simp
qed

text \<open>The mean of the samples, as long as their sum stays below \<open>2^64\<close>, is the exact mean rounded to a
  \<open>long double\<close> and then to a \<open>double\<close>; it is 0 for no samples.\<close>

theorem mean_exact:
  assumes "sum_list (map unat (v_data vec)) < 2 ^ 64"
  shows "hfior_mean_ns vec = (if v_data vec = [] then 0 else
    round_double (round_long (of_nat (sum_list (map unat (v_data vec))) / of_nat (length (v_data vec)))))"
  using long_sum_exact [OF assms] by (simp add: hfior_mean_ns_def)

lemma mean_exact_witness: "hfior_mean_ns \<lparr>v_data = [4, 8], v_capacity = 4096\<rparr> = round_double (round_long 6)"
  using mean_exact [of "\<lparr>v_data = [4, 8], v_capacity = 4096\<rparr>"] by simp

end
