(* ===== verification/Numbers.thy ===== *)
theory Numbers
  imports Transport Metrics
begin

text \<open>
  Numbers as text: the part of \<open>strtoul\<close>, \<open>strtol\<close> and \<open>strtod\<close> (in the C locale, base 10) the
  option parsers of both programs use, and the parsers built on them. A string is its characters up
  to the terminating zero; \<open>long\<close> has 64 bits.
\<close>

section \<open>The C library's conversions\<close>

definition is_space :: "char \<Rightarrow> bool" where
  "is_space c \<longleftrightarrow> c = CHR '' '' \<or> (9 \<le> (of_char c :: nat) \<and> (of_char c :: nat) \<le> 13)"

definition is_digit :: "char \<Rightarrow> bool" where
  "is_digit c \<longleftrightarrow> 48 \<le> (of_char c :: nat) \<and> (of_char c :: nat) \<le> 57"

definition digit_value :: "char \<Rightarrow> nat" where "digit_value c = of_char c - 48"

definition digits_value :: "string \<Rightarrow> nat" where
  "digits_value ds = fold (\<lambda>c n. 10 * n + digit_value c) ds 0"

text \<open>An optional sign: whether it is a minus, and the rest.\<close>

definition take_sign :: "string \<Rightarrow> bool \<times> string" where
  "take_sign s =
     (case s of
        [] \<Rightarrow> (False, s)
      | c # rest \<Rightarrow> if c = CHR ''-'' then (True, rest) else if c = CHR ''+'' then (False, rest) else (False, s))"

text \<open>
  What a conversion yields: the value, the text from \<open>end\<close> on, and whether \<open>errno\<close> was set. Without
  a digit there is no conversion: the value is 0 and \<open>end\<close> is the whole text.
\<close>

definition strtoul :: "string \<Rightarrow> u64 \<times> string \<times> bool" where
  "strtoul text =
     (let (negative, s) = take_sign (dropWhile is_space text);
          ds = takeWhile is_digit s;
          n = digits_value ds
      in if ds = [] then (0, text, False)
         else if n \<ge> 2 ^ 64 then (- 1, dropWhile is_digit s, True)
         else (if negative then - of_nat n else of_nat n, dropWhile is_digit s, False))"

definition strtol :: "string \<Rightarrow> int \<times> string \<times> bool" where
  "strtol text =
     (let (negative, s) = take_sign (dropWhile is_space text);
          ds = takeWhile is_digit s;
          n = (if negative then - int (digits_value ds) else int (digits_value ds))
      in if ds = [] then (0, text, False)
         else if n < - (2 ^ 63) then (- (2 ^ 63), dropWhile is_digit s, True)
         else if n > 2 ^ 63 - 1 then (2 ^ 63 - 1, dropWhile is_digit s, True)
         else (n, dropWhile is_digit s, False))"

text \<open>
  A \<open>double\<close> is finite, infinite, or no number. A value beyond the greatest finite double sets
  \<open>errno\<close> and becomes infinite; one below the normal range that is not exact sets it as well.
\<close>

datatype double_value = Finite rat | Infinite | Not_a_number

definition DBL_MAX :: rat where "DBL_MAX = (2 - 1 / 2 ^ 52) * 2 ^ 1023"
definition DBL_MIN :: rat where "DBL_MIN = 1 / 2 ^ 1022"

definition convert_double :: "rat \<Rightarrow> double_value \<times> bool" where
  "convert_double x =
     (let r = round_double x
      in if r > DBL_MAX then (Infinite, True)
         else (Finite r, r < DBL_MIN \<and> r \<noteq> x))"

text \<open>The decimal exponent, if one follows; without digits the \<open>e\<close> is not part of the number.\<close>

definition take_exponent :: "string \<Rightarrow> int \<times> string" where
  "take_exponent s =
     (case s of
        [] \<Rightarrow> (0, s)
      | e # rest \<Rightarrow>
          if e = CHR ''e'' \<or> e = CHR ''E''
          then let (negative, s1) = take_sign rest; ds = takeWhile is_digit s1
               in if ds = [] then (0, s)
                  else (if negative then - int (digits_value ds) else int (digits_value ds), dropWhile is_digit s1)
          else (0, s))"

definition lower :: "string \<Rightarrow> string" where
  "lower s = map (\<lambda>c. if 65 \<le> (of_char c :: nat) \<and> (of_char c :: nat) \<le> 90 then char_of ((of_char c :: nat) + 32) else c) s"

definition starts :: "string \<Rightarrow> string \<Rightarrow> bool" where
  "starts word s \<longleftrightarrow> lower (take (length word) s) = word"

text \<open>The unsigned magnitude of a decimal number, and of a hexadecimal one.\<close>

definition take_decimal :: "string \<Rightarrow> (rat \<times> string) option" where
  "take_decimal s =
     (let whole = takeWhile is_digit s; s1 = dropWhile is_digit s;
          point = (s1 \<noteq> [] \<and> hd s1 = CHR ''.'');
          part = (if point then takeWhile is_digit (tl s1) else []);
          s2 = (if point then dropWhile is_digit (tl s1) else s1);
          (e, s3) = take_exponent s2
      in if whole = [] \<and> part = [] then None
         else Some (of_nat (digits_value (whole @ part)) * 10 powi (e - int (length part)), s3))"

definition is_hex :: "char \<Rightarrow> bool" where
  "is_hex c \<longleftrightarrow> is_digit c \<or> (97 \<le> (of_char c :: nat) \<and> (of_char c :: nat) \<le> 102) \<or>
     (65 \<le> (of_char c :: nat) \<and> (of_char c :: nat) \<le> 70)"

definition hex_value :: "char \<Rightarrow> nat" where
  "hex_value c = (if is_digit c then digit_value c else if of_char c \<ge> (97 :: nat) then of_char c - 87 else of_char c - 55)"

definition take_binary_exponent :: "string \<Rightarrow> int \<times> string" where
  "take_binary_exponent s =
     (case s of
        [] \<Rightarrow> (0, s)
      | p # rest \<Rightarrow>
          if p = CHR ''p'' \<or> p = CHR ''P''
          then let (negative, s1) = take_sign rest; ds = takeWhile is_digit s1
               in if ds = [] then (0, s)
                  else (if negative then - int (digits_value ds) else int (digits_value ds), dropWhile is_digit s1)
          else (0, s))"

definition take_hexadecimal :: "string \<Rightarrow> (rat \<times> string) option" where
  "take_hexadecimal s =
     (if \<not> starts ''0x'' s then None
      else
        let s0 = drop 2 s; whole = takeWhile is_hex s0; s1 = dropWhile is_hex s0;
            point = (s1 \<noteq> [] \<and> hd s1 = CHR ''.'');
            part = (if point then takeWhile is_hex (tl s1) else []);
            s2 = (if point then dropWhile is_hex (tl s1) else s1);
            (e, s3) = take_binary_exponent s2
        in if whole = [] \<and> part = [] then None
           else Some (of_nat (fold (\<lambda>c n. 16 * n + hex_value c) (whole @ part) 0) *
                  2 powi (e - 4 * int (length part)), s3))"

text \<open>The rest after \<open>nan\<close>, which a sequence of word characters in parentheses may follow.\<close>

definition after_nan :: "string \<Rightarrow> string" where
  "after_nan s =
     (let word = (\<lambda>c. is_digit c \<or> c = CHR ''_'' \<or> (97 \<le> (of_char c :: nat) \<and> (of_char c :: nat) \<le> 122) \<or>
            (65 \<le> (of_char c :: nat) \<and> (of_char c :: nat) \<le> 90))
      in if s \<noteq> [] \<and> hd s = CHR ''('' \<and> dropWhile word (tl s) \<noteq> [] \<and> hd (dropWhile word (tl s)) = CHR '')''
         then tl (dropWhile word (tl s)) else s)"

definition strtod :: "string \<Rightarrow> bool \<times> double_value \<times> string \<times> bool" where
  "strtod text =
     (let (negative, s) = take_sign (dropWhile is_space text)
      in if starts ''infinity'' s then (negative, Infinite, drop 8 s, False)
         else if starts ''inf'' s then (negative, Infinite, drop 3 s, False)
         else if starts ''nan'' s then (negative, Not_a_number, after_nan (drop 3 s), False)
         else
           case (case take_hexadecimal s of Some r \<Rightarrow> Some r | None \<Rightarrow> take_decimal s) of
             None \<Rightarrow> (False, Finite 0, text, False)
           | Some (x, rest) \<Rightarrow> let (v, erange) = convert_double x in (negative, v, rest, erange))"

section \<open>The parsers of both programs\<close>

text \<open>\<open>None\<close> is \<open>exit(2)\<close> after a message.\<close>

definition parse_u32 :: "string \<Rightarrow> u32 option" where
  "parse_u32 text =
     (let (value, rest, error) = strtoul text
      in if error \<or> rest \<noteq> [] \<or> value > 0xFFFFFFFF then None else Some (ucast value))"

definition parse_i32 :: "string \<Rightarrow> int option" where
  "parse_i32 text =
     (let (value, rest, error) = strtol text
      in if error \<or> rest \<noteq> [] \<or> value < - (2 ^ 31) \<or> value > 2 ^ 31 - 1 then None else Some value)"

text \<open>
  The client's \<open>parse_double\<close> asks for a finite value, the bridge's does not. A negative zero is not
  less than zero and passes both.
\<close>

definition client_parse_double :: "string \<Rightarrow> rat option" where
  "client_parse_double text =
     (let (negative, value, rest, error) = strtod text
      in if error \<or> rest \<noteq> [] then None
         else case value of
                Finite x \<Rightarrow> if negative \<and> x \<noteq> 0 then None else Some x
              | _ \<Rightarrow> None)"

definition bridge_parse_double :: "string \<Rightarrow> double_value option" where
  "bridge_parse_double text =
     (let (negative, value, rest, error) = strtod text
      in if error \<or> rest \<noteq> [] then None
         else case value of
                Finite x \<Rightarrow> if negative \<and> x \<noteq> 0 then None else Some value
              | Infinite \<Rightarrow> if negative then None else Some value
              | Not_a_number \<Rightarrow> Some value)"

section \<open>Formats\<close>

definition unsigned_text :: "u64 \<Rightarrow> string" where "unsigned_text w = decimal (unat w)"

definition signed_text :: "int \<Rightarrow> string" where
  "signed_text n = (if n < 0 then ''-'' @ decimal (nat (- n)) else decimal (nat n))"

text \<open>\<open>%.<digits>f\<close>: the exact value of the double, rounded to that many decimals.\<close>

definition fixed_text :: "nat \<Rightarrow> rat \<Rightarrow> string" where
  "fixed_text digits x =
     (let s = decimal (nat (round_half_even (\<bar>x\<bar> * 10 ^ digits)));
          padded = replicate (Suc digits - length s) (CHR ''0'') @ s;
          whole = length padded - digits
      in (if x < 0 then ''-'' else []) @ take whole padded @ ''.'' @ drop whole padded)"

fun commas :: "string list \<Rightarrow> string" where
  "commas [] = []"
| "commas [x] = x"
| "commas (x # xs) = x @ CHR '','' # commas xs"

text \<open>A quotient of two doubles, and the seconds between two readings of the clock.\<close>

definition divided :: "rat \<Rightarrow> rat \<Rightarrow> rat" where "divided a b = round_double (a / b)"

definition wall_seconds :: "u64 \<Rightarrow> u64 \<Rightarrow> rat" where
  "wall_seconds started finished =
     (if finished > started then divided (double_of_u64 (finished - started)) 1000000000 else 0)"

section \<open>Printing and reading decimals\<close>

lemma of_char_digit: "d < 10 \<Longrightarrow> (of_char (char_of (48 + d) :: char) :: nat) = 48 + d"
  by simp

lemma digit_char [simp]:
  assumes "d < 10"
  shows "is_digit (char_of (48 + d))" "digit_value (char_of (48 + d)) = d"
  using assms by (simp_all add: is_digit_def digit_value_def)

lemma decimal_digits: "list_all is_digit (decimal n)"
  by (induction n rule: decimal.induct) (subst decimal.simps, simp)

lemma decimal_nonempty [simp]: "decimal n \<noteq> []"
  by (subst decimal.simps) simp

lemma digits_value_append: "digits_value (ds @ [c]) = 10 * digits_value ds + digit_value c"
  by (simp add: digits_value_def)

lemma digits_value_decimal [simp]: "digits_value (decimal n) = n"
proof (induction n rule: decimal.induct)
  case (1 n)
  show ?case
  proof (cases "n < 10")
    case True
    then show ?thesis by (subst decimal.simps) (simp add: digits_value_def)
  next
    case False
    have "digits_value (decimal n) = digits_value (decimal (n div 10) @ [char_of (48 + n mod 10)])"
      using False by (subst decimal.simps) simp
    then show ?thesis using 1 [OF False] by (simp add: digits_value_append)
  qed
qed

lemma digit_not_space: "is_digit c \<Longrightarrow> \<not> is_space c"
  by (auto simp: is_digit_def is_space_def)

lemma digit_not_sign: "is_digit c \<Longrightarrow> c \<noteq> CHR ''-'' \<and> c \<noteq> CHR ''+''"
  by (auto simp: is_digit_def)

lemma decimal_text:
  assumes "rest = [] \<or> \<not> is_digit (hd rest)"
  shows "dropWhile is_space (decimal n @ rest) = decimal n @ rest" "take_sign (decimal n @ rest) = (False, decimal n @ rest)"
    "takeWhile is_digit (decimal n @ rest) = decimal n" "dropWhile is_digit (decimal n @ rest) = rest"
proof -
  obtain c cs where d: "decimal n = c # cs" by (cases "decimal n") (use decimal_nonempty in auto)
  have c: "is_digit c" using decimal_digits [of n] d by simp
  show "dropWhile is_space (decimal n @ rest) = decimal n @ rest" "take_sign (decimal n @ rest) = (False, decimal n @ rest)"
    using digit_not_space [OF c] digit_not_sign [OF c] by (simp_all add: d take_sign_def)
  have all: "\<forall>x \<in> set (decimal n). is_digit x" using decimal_digits [of n] by (simp add: list_all_iff)
  show "takeWhile is_digit (decimal n @ rest) = decimal n" "dropWhile is_digit (decimal n @ rest) = rest"
    using assms all by (cases rest; simp)+
qed

lemma decimal_alone [simp]:
  "dropWhile is_space (decimal n) = decimal n" "take_sign (decimal n) = (False, decimal n)"
  "takeWhile is_digit (decimal n) = decimal n" "dropWhile is_digit (decimal n) = []"
  using decimal_text [of "[]" n] by (simp_all only: append_Nil2 simp_thms)

lemma strtoul_decimal: "n < 2 ^ 64 \<Longrightarrow> strtoul (decimal n) = (of_nat n, [], False)"
  unfolding strtoul_def Let_def decimal_alone split_conv by simp

lemma parse_u32_decimal: "parse_u32 (decimal n) = (if n < 2 ^ 32 then Some (of_nat n) else None)"
proof (cases "n < 2 ^ 64")
  case True
  have v: "unat (of_nat n :: u64) = n" using True by (simp add: unsigned_of_nat take_bit_nat_eq_self)
  then have "(of_nat n :: u64) > 0xFFFFFFFF \<longleftrightarrow> \<not> n < 2 ^ 32" by (auto simp: word_less_nat_alt)
  moreover have "(ucast (of_nat n :: u64) :: u32) = of_nat n" by (metis v of_nat_unat ucast_id)
  ultimately show ?thesis using strtoul_decimal [OF True] by (simp add: parse_u32_def)
next
  case False
  then show ?thesis unfolding parse_u32_def strtoul_def Let_def decimal_alone split_conv by simp
qed

section \<open>The doubles that are read\<close>

lemma convert_double_nonneg: "0 \<le> z \<Longrightarrow> fst (convert_double z) = Finite y \<Longrightarrow> 0 \<le> y"
  using round_double_nonneg [of z] by (auto simp: convert_double_def Let_def split: if_splits)

lemma take_number_nonneg:
  "take_decimal s = Some (z, rest) \<Longrightarrow> 0 \<le> z" "take_hexadecimal s = Some (z, rest) \<Longrightarrow> 0 \<le> z"
  by (auto simp: take_decimal_def take_hexadecimal_def Let_def split_def split: if_splits)

lemma strtod_nonneg:
  assumes "strtod text = (negative, Finite x, rest, error)"
  shows "0 \<le> x"
proof -
  let ?s = "snd (take_sign (dropWhile is_space text))"
  let ?n = "case take_hexadecimal ?s of Some r \<Rightarrow> Some r | None \<Rightarrow> take_decimal ?s"
  have plain: "\<not> starts ''infinity'' ?s" "\<not> starts ''inf'' ?s" "\<not> starts ''nan'' ?s"
    using assms by (auto simp: strtod_def Let_def split_def split: if_splits)
  show ?thesis
  proof (cases ?n)
    case None
    then have "strtod text = (False, Finite 0, text, False)"
      using plain by (simp only: strtod_def Let_def split_def if_False option.case)
    then show ?thesis using assms by simp
  next
    case (Some r)
    obtain z s where r: "r = (z, s)" by (cases r)
    have "0 \<le> z" using Some take_number_nonneg [of ?s z s] by (auto simp: r split: option.splits)
    moreover have "strtod text = (fst (take_sign (dropWhile is_space text)), fst (convert_double z), s, snd (convert_double z))"
      using plain Some by (simp only: strtod_def Let_def split_def if_False option.case r fst_conv snd_conv)
    ultimately show ?thesis using assms convert_double_nonneg [of z x] by simp
  qed
qed

lemma client_parse_double_nonneg: "client_parse_double text = Some x \<Longrightarrow> 0 \<le> x"
  using strtod_nonneg by (fastforce simp: client_parse_double_def split: prod.splits if_splits double_value.splits)

section \<open>What the integer parser accepts\<close>

lemma parse_u32_empty: "parse_u32 '''' = Some 0"
  by (simp add: parse_u32_def strtoul_def take_sign_def)

lemma strtoul_negative:
  "n < 2 ^ 64 \<Longrightarrow> strtoul (CHR ''-'' # decimal n) = (- of_nat n, [], False)"
  by (simp add: strtoul_def take_sign_def is_space_def Let_def)

lemma unat_uminus_of_nat:
  assumes "0 < n" "n < 2 ^ 64"
  shows "unat (- of_nat n :: u64) = 2 ^ 64 - n"
proof -
  have "- of_nat n = (of_nat (2 ^ 64 - n) :: u64)" using assms by (simp add: of_nat_diff)
  then show ?thesis using assms by (simp only: unsigned_of_nat) (simp add: take_bit_nat_eq_self)
qed

lemma parse_u32_negative:
  assumes n: "0 < n" "n < 2 ^ 64"
  shows "parse_u32 (CHR ''-'' # decimal n) = (if 2 ^ 64 - n < 2 ^ 32 then Some (of_nat (2 ^ 64 - n)) else None)"
proof -
  have v: "unat (- of_nat n :: u64) = 2 ^ 64 - n" by (rule unat_uminus_of_nat [OF n])
  then have gt: "(- of_nat n :: u64) > 0xFFFFFFFF \<longleftrightarrow> \<not> 2 ^ 64 - n < 2 ^ 32" by (auto simp: word_less_nat_alt)
  have "(ucast (- of_nat n :: u64) :: u32) = of_nat (unat (- of_nat n :: u64))" by (rule of_nat_unat [symmetric])
  then have "(ucast (- of_nat n :: u64) :: u32) = of_nat (2 ^ 64 - n)" by (simp only: v)
  then show ?thesis
    using gt by (cases "2 ^ 64 - n < 2 ^ 32") (simp_all only: parse_u32_def strtoul_negative [OF n(2)] Let_def split_conv, simp_all)
qed

text \<open>C31: The parser of the unsigned options reads back every printed number below \<open>2^32\<close> and refuses
  every greater one. It also takes the empty text for 0, and a negative number whose 64-bit
  wrap-around is below \<open>2^32\<close> for that value.\<close>

theorem parse_u32_exact:
  "parse_u32 (decimal n) = (if n < 2 ^ 32 then Some (of_nat n) else None) \<and>
   parse_u32 '''' = Some 0 \<and>
   (0 < n \<and> n < 2 ^ 64 \<longrightarrow>
     parse_u32 (CHR ''-'' # decimal n) = (if 2 ^ 64 - n < 2 ^ 32 then Some (of_nat (2 ^ 64 - n)) else None))"
  using parse_u32_decimal parse_u32_empty parse_u32_negative by blast

lemma parse_u32_exact_witness: "parse_u32 (CHR ''-'' # decimal (2 ^ 64 - 1)) = Some 1"
  using parse_u32_exact [of "2 ^ 64 - 1"] by simp

end
