(* ===== verification/Bridge.thy ===== *)
theory Bridge
  imports Ring Transport Metrics Numbers
begin

text \<open>
  The bridge process of \<open>reference/bridge/main.c\<close>: input events are accumulated into
  frames, a completed frame is published into the ring, urgent records are signalled
  through an eventfd and, in the eager reference modes, sent over the control socket;
  the control socket carries mode changes and acknowledgements in. The state is the
  \<open>struct bridge\<close> with the two file-level variables \<open>stop_requested\<close> and
  \<open>synthetic_index\<close>, and the kernel the process talks to.
\<close>

section \<open>State\<close>

type_synonym i64 = "64 word"

record bridge_config =
  bc_device_path :: "string option"
  bc_socket_path :: string
  bc_stats_path :: "string option"
  bc_raw_log_path :: "string option"
  bc_trace_path :: "string option"
  bc_capacity :: u32
  bc_synthetic_rate_hz :: u32
  bc_synthetic_button_every :: u32
  bc_reconnect_ms :: u32
  bc_duration_s :: double_value
  bc_socket_send_buffer :: int
  bc_synthetic_publish_timestamps :: bool
  bc_quiet :: bool

record bridge_stats =
  bs_started_ns :: u64
  bs_finished_ns :: u64
  bs_input_events :: u64
  bs_syn_reports :: u64
  bs_records_attempted :: u64
  bs_records_published :: u64
  bs_ring_drops :: u64
  bs_eager_packets_sent :: u64
  bs_eager_send_drops :: u64
  bs_urgent_writes :: u64
  bs_button_transitions :: u64
  bs_device_disconnects :: u64
  bs_device_reconnects :: u64
  bs_control_messages :: u64
  bs_malformed_messages :: u64
  bs_acknowledgements :: u64
  bs_invalid_acknowledgements :: u64

record publication_trace_entry =
  pt_sequence :: u64
  pt_source_timestamp_ns :: u64
  pt_publish_begin_ns :: u64
  pt_publish_end_ns :: u64
  pt_head_after :: u64
  pt_published :: u32

text \<open>The sums of a frame are signed 64-bit numbers, in two's complement.\<close>

record frame_accumulator =
  fa_dx :: i64
  fa_dy :: i64
  fa_wheel :: i64
  fa_hwheel :: i64
  fa_buttons :: u16
  fa_flags :: u16
  fa_wheel_hires_seen :: bool
  fa_hwheel_hires_seen :: bool
  fa_timestamp_ns :: u64

definition zero_frame :: frame_accumulator where
  "zero_frame = \<lparr>fa_dx = 0, fa_dy = 0, fa_wheel = 0, fa_hwheel = 0, fa_buttons = 0,
     fa_flags = 0, fa_wheel_hires_seen = False, fa_hwheel_hires_seen = False, fa_timestamp_ns = 0\<rparr>"

text \<open>
  \<open>b_raw_log\<close> are the lines written to the raw log, if it is open; the growing
  \<open>publication_trace_vec\<close> is the list of its entries (a failed \<open>realloc\<close> ends the process).
\<close>

record bridge =
  b_config :: bridge_config
  b_stats :: bridge_stats
  b_ring :: hfior_ring_header
  b_mapping_size :: u64
  b_memfd :: int
  b_readonly_memfd :: int
  b_urgent_fd :: int
  b_listen_fd :: int
  b_client_fd :: int
  b_input_fd :: int
  b_synthetic_timer_fd :: int
  b_raw_log :: "(u64 \<times> u16 \<times> u16 \<times> u32) list option"
  b_mode :: u32
  b_generation :: u64
  b_stop_deadline_ns :: u64
  b_authorized_uid :: u32
  b_peer_pid :: int
  b_input_id :: input_id
  b_device_name :: string
  b_frame :: frame_accumulator
  b_source_ready :: bool
  b_synthetic_period_ns :: u64
  b_synthetic_next_timestamp_ns :: u64
  b_publication_trace :: "publication_trace_entry list"
  b_stop_requested :: bool
  b_synthetic_index :: u64
  b_kernel :: kernel

definition on_kernel :: "(kernel \<Rightarrow> 'a \<times> kernel) \<Rightarrow> bridge \<Rightarrow> 'a \<times> bridge" where
  "on_kernel ask b = (let (x, k) = ask (b_kernel b) in (x, b\<lparr>b_kernel := k\<rparr>))"

definition bridge_now :: "bridge \<Rightarrow> u64 \<times> bridge" where
  "bridge_now = on_kernel (hfior_now_ns CLOCK_MONOTONIC)"

definition warn :: "string \<Rightarrow> bridge \<Rightarrow> bridge" where
  "warn what b = b\<lparr>b_kernel := emit (Warned what) (b_kernel b)\<rparr>"

abbreviation upd_stats :: "(bridge_stats \<Rightarrow> bridge_stats) \<Rightarrow> bridge \<Rightarrow> bridge" where
  "upd_stats f b \<equiv> b\<lparr>b_stats := f (b_stats b)\<rparr>"

abbreviation upd_producer ::
    "(hfior_producer_line \<Rightarrow> hfior_producer_line) \<Rightarrow> bridge \<Rightarrow> bridge" where
  "upd_producer f b \<equiv> b\<lparr>b_ring := (b_ring b)\<lparr>producer := f (producer (b_ring b))\<rparr>\<rparr>"

abbreviation upd_consumer ::
    "(hfior_consumer_line \<Rightarrow> hfior_consumer_line) \<Rightarrow> bridge \<Rightarrow> bridge" where
  "upd_consumer f b \<equiv> b\<lparr>b_ring := (b_ring b)\<lparr>consumer := f (consumer (b_ring b))\<rparr>\<rparr>"

abbreviation upd_ring_stats ::
    "(hfior_stats_line \<Rightarrow> hfior_stats_line) \<Rightarrow> bridge \<Rightarrow> bridge" where
  "upd_ring_stats f b \<equiv> b\<lparr>b_ring := (b_ring b)\<lparr>stats := f (stats (b_ring b))\<rparr>\<rparr>"

section \<open>Notifications\<close>

definition timeval_to_ns :: "int \<Rightarrow> int \<Rightarrow> u64" where
  "timeval_to_ns tv_sec tv_usec =
     (if tv_sec < 0 \<or> tv_usec < 0 then 0
      else word_of_int tv_sec * 1000000000 + word_of_int tv_usec * 1000)"

text \<open>The write is repeated while interrupted; 8 is \<open>sizeof(one)\<close>.\<close>

definition write_urgent :: "bridge \<Rightarrow> bridge" where
  "write_urgent b =
     (let (answer, b1) = on_kernel kernel_call b
      in case retry_eintr answer of
           Returned n \<Rightarrow>
             if n = 8
             then upd_producer (\<lambda>p. p\<lparr>pl_urgent_writes := pl_urgent_writes p + 1\<rparr>)
                   (upd_stats (\<lambda>s. s\<lparr>bs_urgent_writes := bs_urgent_writes s + 1\<rparr>)
                     (b1\<lparr>b_kernel := emit (Signalled (b_urgent_fd b) 1) (b_kernel b1)\<rparr>))
             else b1
         | Failed e \<Rightarrow>
             if e \<noteq> EAGAIN then warn ''urgent eventfd write failed'' b1 else b1
         | Interrupted _ \<Rightarrow> b1)"

definition send_device_state :: "u32 \<Rightarrow> bridge \<Rightarrow> bridge" where
  "send_device_state flags b =
     (if b_client_fd b < 0 then b
      else
        let message = \<lparr>
              ds_header = \<lparr>mh_type = HFIOR_MSG_DEVICE_STATE, mh_size = of_nat sizeof_device_state_message\<rparr>,
              ds_generation = b_generation b, ds_state_flags = flags, ds_reserved = 0\<rparr>;
            (result, b1) = on_kernel
              (hfior_send_fds (b_client_fd b) (encode_device_state message) [] MSG_DONTWAIT) b;
            b2 = (case result of
                    Inl e \<Rightarrow> if e \<noteq> EAGAIN \<and> e \<noteq> EWOULDBLOCK \<and> e \<noteq> EPIPE
                             then warn ''device-state send failed'' b1 else b1
                  | Inr _ \<Rightarrow> b1)
        in write_urgent b2)"

definition send_eager_record :: "hfior_record \<Rightarrow> bridge \<Rightarrow> bridge" where
  "send_eager_record r b =
     (if b_client_fd b < 0 \<or> b_mode b = HFIOR_MODE_HFIOR then b
      else
        let message = \<lparr>
              er_header = \<lparr>mh_type = HFIOR_MSG_EAGER_RECORD, mh_size = of_nat sizeof_eager_record_message\<rparr>,
              er_generation = b_generation b, er_record = r\<rparr>;
            (result, b1) = on_kernel
              (hfior_send_fds (b_client_fd b) (encode_eager_record message) [] MSG_DONTWAIT) b
        in case result of
             Inr _ \<Rightarrow>
               upd_ring_stats (\<lambda>s. s\<lparr>sl_eager_packets_sent := sl_eager_packets_sent s + 1\<rparr>)
                 (upd_stats (\<lambda>s. s\<lparr>bs_eager_packets_sent := bs_eager_packets_sent s + 1\<rparr>) b1)
           | Inl e \<Rightarrow>
               if e = EAGAIN \<or> e = EWOULDBLOCK \<or> e = ENOBUFS
               then write_urgent
                 (upd_producer (\<lambda>p. p\<lparr>pl_eager_send_drops := pl_eager_send_drops p + 1\<rparr>)
                   (upd_stats (\<lambda>s. s\<lparr>bs_eager_send_drops := bs_eager_send_drops s + 1\<rparr>) b1))
               else if e = EPIPE \<or> e = ECONNRESET then b1\<lparr>b_stop_requested := True\<rparr>
               else warn ''eager record send failed'' b1)"

section \<open>Publication\<close>

definition account_record_flags :: "hfior_record \<Rightarrow> bridge \<Rightarrow> bridge" where
  "account_record_flags r b =
     (if has_flag r HFIOR_RECORD_BUTTON
      then upd_stats (\<lambda>s. s\<lparr>bs_button_transitions := bs_button_transitions s + 1\<rparr>) b else b)"

definition trace_publication :: "publication_trace_entry \<Rightarrow> bridge \<Rightarrow> bridge" where
  "trace_publication entry b =
     (if bc_trace_path (b_config b) = None then b
      else b\<lparr>b_publication_trace := b_publication_trace b @ [entry]\<rparr>)"

definition urgent_flags :: u16 where
  "urgent_flags = HFIOR_RECORD_BUTTON OR HFIOR_RECORD_SYN_DROPPED OR
     HFIOR_RECORD_DEVICE_GONE OR HFIOR_RECORD_OVERFLOW"

text \<open>
  The first half of \<open>publish_record\<close>, up to the trace entry: whether the record was
  published, the record with its sequence number, and the bridge then.
\<close>

definition attempt_publication :: "hfior_record \<Rightarrow> bridge \<Rightarrow> bool \<times> hfior_record \<times> bridge" where
  "attempt_publication r0 b =
     (let b1 = upd_stats (\<lambda>s. s\<lparr>bs_records_attempted := bs_records_attempted s + 1\<rparr>) b;
          (publish_begin_ns, b2) = bridge_now b1;
          r = r0\<lparr>r_sequence := pl_next_sequence (producer (b_ring b2))\<rparr>;
          b3 = upd_producer (\<lambda>p. p\<lparr>pl_next_sequence := pl_next_sequence p + 1,
                                  pl_heartbeat_ns := publish_begin_ns\<rparr>) b2;
          (published, ring) = hfior_ring_publish (b_ring b3) r;
          (publish_end_ns, b4) = bridge_now (b3\<lparr>b_ring := ring\<rparr>);
          b5 = trace_publication
                 \<lparr>pt_sequence = r_sequence r, pt_source_timestamp_ns = r_timestamp_ns r,
                  pt_publish_begin_ns = publish_begin_ns, pt_publish_end_ns = publish_end_ns,
                  pt_head_after = pl_head (producer (b_ring b4)),
                  pt_published = (if published then 1 else 0)\<rparr> b4
      in (published, r, b5))"

definition publish_record :: "hfior_record \<Rightarrow> bridge \<Rightarrow> bridge" where
  "publish_record r0 b =
     (let (published, r, b1) = attempt_publication r0 b
      in if published
         then
           let b2 = upd_stats (\<lambda>s. s\<lparr>bs_records_published := bs_records_published s + 1\<rparr>) b1;
               b3 = send_eager_record r (account_record_flags r b2)
           in if has_flag r urgent_flags then write_urgent b3 else b3
         else
           write_urgent (upd_stats (\<lambda>s. s\<lparr>bs_ring_drops := bs_ring_drops s + 1\<rparr>) b1))"

section \<open>Frames\<close>

definition INT32_MIN :: i64 where "INT32_MIN = word_of_int (- (2 ^ 31))"
definition INT32_MAX :: i64 where "INT32_MAX = word_of_int (2 ^ 31 - 1)"
definition INT16_MIN :: i64 where "INT16_MIN = word_of_int (- (2 ^ 15))"
definition INT16_MAX :: i64 where "INT16_MAX = word_of_int (2 ^ 15 - 1)"

lemmas int_limit_defs = INT32_MIN_def INT32_MAX_def INT16_MIN_def INT16_MAX_def

definition clamp_i64 :: "i64 \<Rightarrow> i64 \<Rightarrow> i64 \<Rightarrow> i64" where
  "clamp_i64 v minimum maximum =
     (if sint v < sint minimum then minimum else if sint v > sint maximum then maximum else v)"

text \<open>The record a completed frame becomes; its sequence number is set by the publication.\<close>

definition frame_record :: "frame_accumulator \<Rightarrow> u64 \<Rightarrow> hfior_record" where
  "frame_record f timestamp_ns =
     (let r = \<lparr>r_sequence = 0, r_timestamp_ns = timestamp_ns,
               r_dx = ucast (clamp_i64 (fa_dx f) INT32_MIN INT32_MAX),
               r_dy = ucast (clamp_i64 (fa_dy f) INT32_MIN INT32_MAX),
               r_wheel = ucast (clamp_i64 (fa_wheel f) INT16_MIN INT16_MAX),
               r_hwheel = ucast (clamp_i64 (fa_hwheel f) INT16_MIN INT16_MAX),
               r_buttons = fa_buttons f, r_flags = fa_flags f\<rparr>;
          r1 = (if r_dx r \<noteq> 0 \<or> r_dy r \<noteq> 0
                then r\<lparr>r_flags := r_flags r OR HFIOR_RECORD_MOTION\<rparr> else r)
      in if r_wheel r1 \<noteq> 0 \<or> r_hwheel r1 \<noteq> 0
         then r1\<lparr>r_flags := r_flags r1 OR HFIOR_RECORD_WHEEL\<rparr> else r1)"

definition complete_frame :: "u64 \<Rightarrow> bridge \<Rightarrow> bridge" where
  "complete_frame timestamp_ns b =
     (let (timestamp, b1) = (if timestamp_ns \<noteq> 0 then (timestamp_ns, b) else bridge_now b);
          b2 = publish_record (frame_record (b_frame b1) timestamp) b1;
          b3 = upd_stats (\<lambda>s. s\<lparr>bs_syn_reports := bs_syn_reports s + 1\<rparr>) b2
      in b3\<lparr>b_frame := zero_frame\<lparr>fa_buttons := fa_buttons (b_frame b3)\<rparr>\<rparr>)"

definition raw_log_event :: "input_event \<Rightarrow> bridge \<Rightarrow> bridge" where
  "raw_log_event e b =
     (case b_raw_log b of
        None \<Rightarrow> b
      | Some lines \<Rightarrow> b\<lparr>b_raw_log := Some (lines @
          [(timeval_to_ns (ev_sec e) (ev_usec e), ev_type e, ev_code e, ev_value e)])\<rparr>)"

definition EV_SYN :: u16 where "EV_SYN = 0"
definition EV_KEY :: u16 where "EV_KEY = 1"
definition EV_REL :: u16 where "EV_REL = 2"
definition SYN_REPORT :: u16 where "SYN_REPORT = 0"
definition SYN_DROPPED :: u16 where "SYN_DROPPED = 3"
definition REL_X :: u16 where "REL_X = 0"
definition REL_Y :: u16 where "REL_Y = 1"
definition REL_HWHEEL :: u16 where "REL_HWHEEL = 6"
definition REL_WHEEL :: u16 where "REL_WHEEL = 8"
definition REL_WHEEL_HI_RES :: u16 where "REL_WHEEL_HI_RES = 0x0b"
definition REL_HWHEEL_HI_RES :: u16 where "REL_HWHEEL_HI_RES = 0x0c"

lemmas event_code_defs =
  EV_SYN_def EV_KEY_def EV_REL_def SYN_REPORT_def SYN_DROPPED_def REL_X_def REL_Y_def
  REL_HWHEEL_def REL_WHEEL_def REL_WHEEL_HI_RES_def REL_HWHEEL_HI_RES_def

text \<open>
  The frame after one event that does not complete it: the movement of an axis or a wheel
  (the value sign-extended), and a key that is down or up.
\<close>

definition accumulate_rel :: "u16 \<Rightarrow> i64 \<Rightarrow> frame_accumulator \<Rightarrow> frame_accumulator" where
  "accumulate_rel code v f =
     (if code = REL_X then f\<lparr>fa_dx := fa_dx f + v\<rparr>
      else if code = REL_Y then f\<lparr>fa_dy := fa_dy f + v\<rparr>
      else if code = REL_WHEEL then
        if \<not> fa_wheel_hires_seen f then f\<lparr>fa_wheel := fa_wheel f + v\<rparr> else f
      else if code = REL_WHEEL_HI_RES then
        let f1 = (if \<not> fa_wheel_hires_seen f then f\<lparr>fa_wheel := 0\<rparr> else f)
        in f1\<lparr>fa_wheel_hires_seen := True, fa_wheel := fa_wheel f1 + v\<rparr>
      else if code = REL_HWHEEL then
        if \<not> fa_hwheel_hires_seen f then f\<lparr>fa_hwheel := fa_hwheel f + v\<rparr> else f
      else if code = REL_HWHEEL_HI_RES then
        let f1 = (if \<not> fa_hwheel_hires_seen f then f\<lparr>fa_hwheel := 0\<rparr> else f)
        in f1\<lparr>fa_hwheel_hires_seen := True, fa_hwheel := fa_hwheel f1 + v\<rparr>
      else f)"

definition accumulate_key :: "u16 \<Rightarrow> bool \<Rightarrow> frame_accumulator \<Rightarrow> frame_accumulator" where
  "accumulate_key code down f =
     (let bit = hfior_button_bit_from_linux_code code
      in if bit \<noteq> 0 then
           let old_buttons = fa_buttons f;
               f1 = f\<lparr>fa_buttons := (if down then old_buttons OR bit else old_buttons AND NOT bit)\<rparr>
           in if fa_buttons f1 \<noteq> old_buttons
              then f1\<lparr>fa_flags := fa_flags f1 OR HFIOR_RECORD_BUTTON\<rparr> else f1
         else f)"

definition accumulate :: "input_event \<Rightarrow> frame_accumulator \<Rightarrow> frame_accumulator" where
  "accumulate e f =
     (if ev_type e = EV_REL then accumulate_rel (ev_code e) (scast (ev_value e)) f
      else if ev_type e = EV_KEY then accumulate_key (ev_code e) (ev_value e \<noteq> 0) f
      else if ev_type e = EV_SYN \<and> ev_code e = SYN_DROPPED then
        f\<lparr>fa_flags := fa_flags f OR HFIOR_RECORD_SYN_DROPPED\<rparr>
      else f)"

definition process_input_event :: "input_event \<Rightarrow> bridge \<Rightarrow> bridge" where
  "process_input_event e b =
     (let b1 = raw_log_event e (upd_stats (\<lambda>s. s\<lparr>bs_input_events := bs_input_events s + 1\<rparr>) b);
          timestamp_ns = timeval_to_ns (ev_sec e) (ev_usec e);
          b2 = (if timestamp_ns \<noteq> 0
                then b1\<lparr>b_frame := (b_frame b1)\<lparr>fa_timestamp_ns := timestamp_ns\<rparr>\<rparr> else b1)
      in if ev_type e = EV_SYN \<and> ev_code e = SYN_REPORT
         then complete_frame timestamp_ns b2
         else b2\<lparr>b_frame := accumulate e (b_frame b2)\<rparr>)"

text \<open>
  The read loop. It ends when the device has nothing more to read; each pass takes one
  unit of fuel, and \<open>None\<close> is that the fuel did not suffice. A read yields at most the
  256 events of the buffer.
\<close>

definition event_buffer :: nat where "event_buffer = 256"

fun drain_input_device :: "nat \<Rightarrow> bridge \<Rightarrow> ((errno + unit) \<times> bridge) option" where
  "drain_input_device 0 b = None"
| "drain_input_device (Suc fuel) b =
     (let (answer, b1) = on_kernel kernel_read b
      in case answer of
           Read_events events \<Rightarrow> drain_input_device fuel (fold process_input_event (take event_buffer events) b1)
         | Read_ragged \<Rightarrow> Some (Inl EPROTO, b1)
         | Read_eof \<Rightarrow> Some (Inl ENODEV, b1)
         | Read_interrupted \<Rightarrow> drain_input_device fuel b1
         | Read_failed e \<Rightarrow>
             if e = EAGAIN \<or> e = EWOULDBLOCK then Some (Inr (), b1) else Some (Inl e, b1))"

section \<open>The synthetic source\<close>

definition emit_one_synthetic :: "bridge \<Rightarrow> bridge" where
  "emit_one_synthetic b =
     (let index = b_synthetic_index b + 1;
          every = ucast (bc_synthetic_button_every (b_config b)) :: u64;
          f0 = (b_frame b)\<lparr>
                 fa_dx := (if index AND 1 \<noteq> 0 then 3 else - 3),
                 fa_dy := (if index mod 3 \<noteq> 0 then - 1 else 1)\<rparr>;
          f = (if every \<noteq> 0 \<and> index mod every = 0
               then f0\<lparr>fa_buttons := fa_buttons f0 XOR HFIOR_BUTTON_LEFT,
                       fa_flags := fa_flags f0 OR HFIOR_RECORD_BUTTON\<rparr>
               else f0);
          b1 = b\<lparr>b_synthetic_index := index, b_frame := f\<rparr>;
          (timestamp_ns, b2) =
            (if bc_synthetic_publish_timestamps (b_config b) then bridge_now b1
             else (b_synthetic_next_timestamp_ns b1, b1));
          b3 = b2\<lparr>b_synthetic_next_timestamp_ns :=
                     b_synthetic_next_timestamp_ns b2 + b_synthetic_period_ns b2\<rparr>
      in complete_frame timestamp_ns b3)"

definition emit_synthetic :: "u64 \<Rightarrow> bridge \<Rightarrow> bridge" where
  "emit_synthetic expirations b =
     (emit_one_synthetic ^^ (unat (if expirations > 1000000 then 1000000 else expirations))) b"

text \<open>The answer of \<open>timerfd_settime\<close> is the next call.\<close>

definition arm_synthetic_source :: "bridge \<Rightarrow> (errno + unit) \<times> bridge" where
  "arm_synthetic_source b =
     (let period_ns = 1000000000 div (ucast (bc_synthetic_rate_hz (b_config b)) :: u64);
          (now, b1) = bridge_now b;
          first_ns = now + 2000000;
          b2 = b1\<lparr>b_synthetic_period_ns := period_ns, b_synthetic_next_timestamp_ns := first_ns\<rparr>;
          (answer, b3) = on_kernel kernel_call b2
      in case answer of
           Failed e \<Rightarrow> (Inl e, b3)
         | _ \<Rightarrow> (Inr (), b3\<lparr>b_source_ready := True,
                     b_kernel := emit (Timer_set (b_synthetic_timer_fd b) first_ns period_ns) (b_kernel b3)\<rparr>))"

section \<open>The input device\<close>

text \<open>\<open>bits\<close> are 64-bit words.\<close>

definition key_bit_is_set :: "u64 list \<Rightarrow> nat \<Rightarrow> bool" where
  "key_bit_is_set bits code = (drop_bit (code mod 64) (bits ! (code div 64)) AND 1 \<noteq> 0)"

definition refreshed_codes :: "u16 list" where
  "refreshed_codes = [BTN_LEFT, BTN_RIGHT, BTN_MIDDLE, BTN_SIDE, BTN_EXTRA, BTN_FORWARD, BTN_BACK, BTN_TASK]"

text \<open>A successful \<open>EVIOCGKEY\<close> fills the twelve words that hold \<open>KEY_MAX + 1\<close> bits.\<close>

definition refresh_button_state :: "bridge \<Rightarrow> bridge" where
  "refresh_button_state b =
     (if b_input_fd b < 0 then b
      else
        let (answer, b1) = on_kernel kernel_keys b
        in case answer of
             None \<Rightarrow> b1
           | Some keys \<Rightarrow>
               b1\<lparr>b_frame := (b_frame b1)\<lparr>fa_buttons :=
                 fold (\<lambda>code buttons. if key_bit_is_set keys (unat code)
                                      then buttons OR hfior_button_bit_from_linux_code code else buttons)
                   refreshed_codes 0\<rparr>\<rparr>)"

fun discard_reads :: "nat \<Rightarrow> bridge \<Rightarrow> ((errno + unit) \<times> bridge) option" where
  "discard_reads 0 b = None"
| "discard_reads (Suc fuel) b =
     (let (answer, b1) = on_kernel kernel_read b
      in case answer of
           Read_events _ \<Rightarrow> discard_reads fuel b1
         | Read_ragged \<Rightarrow> discard_reads fuel b1
         | Read_eof \<Rightarrow> Some (Inl ENODEV, b1)
         | Read_interrupted \<Rightarrow> discard_reads fuel b1
         | Read_failed e \<Rightarrow>
             if e = EAGAIN \<or> e = EWOULDBLOCK then Some (Inr (), b1) else Some (Inl e, b1))"

definition discard_pending_input :: "nat \<Rightarrow> bridge \<Rightarrow> ((errno + unit) \<times> bridge) option" where
  "discard_pending_input fuel b =
     (if b_input_fd b < 0 then Some (Inr (), b)
      else
        case discard_reads fuel b of
          None \<Rightarrow> None
        | Some (Inl e, b1) \<Rightarrow> Some (Inl e, b1)
        | Some (Inr _, b1) \<Rightarrow> Some (Inr (), refresh_button_state (b1\<lparr>b_frame := zero_frame\<rparr>)))"

definition open_input_device :: "bridge \<Rightarrow> (errno + unit) \<times> bridge" where
  "open_input_device b =
     (case bc_device_path (b_config b) of
        None \<Rightarrow> (Inr (), b)
      | Some path \<Rightarrow>
          let (answer, b1) = on_kernel kernel_open b
          in case answer of
               Inl e \<Rightarrow> (Inl e, b1)
             | Inr d \<Rightarrow>
                 let b2 = (if do_clock_set d then b1 else warn ''EVIOCSCLOCKID failed'' b1)
                 in (Inr (), b2\<lparr>b_input_id := do_id d,
                      b_device_name := take (HFIOR_MAX_DEVICE_NAME - 1)
                        (case do_name d of Some name \<Rightarrow> name | None \<Rightarrow> path),
                      b_input_fd := do_fd d, b_source_ready := True\<rparr>))"

definition mark_device_gone :: "bridge \<Rightarrow> bridge" where
  "mark_device_gone b =
     (let b1 = (if b_input_fd b \<ge> 0
                then b\<lparr>b_kernel := emit (Closed (b_input_fd b)) (b_kernel b), b_input_fd := - 1\<rparr> else b);
          b2 = upd_stats (\<lambda>s. s\<lparr>bs_device_disconnects := bs_device_disconnects s + 1\<rparr>)
                 (b1\<lparr>b_source_ready := False\<rparr>)
      in send_device_state (ucast HFIOR_RECORD_DEVICE_GONE) b2)"

definition try_reconnect_device :: "bridge \<Rightarrow> (errno + unit) \<times> bridge" where
  "try_reconnect_device b =
     (if bc_device_path (b_config b) = None then (Inr (), b)
      else
        let (result, b1) = open_input_device b
        in case result of
             Inl e \<Rightarrow> (Inl e, b1)
           | Inr _ \<Rightarrow>
               let b2 = b1\<lparr>b_generation := b_generation b1 + 1\<rparr>;
                   b3 = upd_producer (\<lambda>p. p\<lparr>pl_generation := b_generation b2\<rparr>) b2;
                   b4 = upd_ring_stats (\<lambda>s. s\<lparr>sl_device_reconnects := sl_device_reconnects s + 1\<rparr>) b3;
                   b5 = upd_stats (\<lambda>s. s\<lparr>bs_device_reconnects := bs_device_reconnects s + 1\<rparr>) b4
               in (Inr (), send_device_state (ucast HFIOR_RECORD_DEVICE_READY) b5))"

section \<open>The control socket\<close>

text \<open>A plain \<open>send\<close> on the control socket: the bytes it took, if it did.\<close>

definition control_send :: "u8 list \<Rightarrow> bridge \<Rightarrow> int option \<times> bridge" where
  "control_send message b =
     (let (answer, b1) = on_kernel kernel_call b
      in case answer of
           Returned n \<Rightarrow> (Some n, b1\<lparr>b_kernel :=
             emit (Sent (b_client_fd b) MSG_NOSIGNAL (take (nat n) message) []) (b_kernel b1)\<rparr>)
         | _ \<Rightarrow> (None, b1))"

text \<open>The validation of an acknowledgement, and its effect on the ring.\<close>

definition handle_ack :: "hfior_ack_message \<Rightarrow> bridge \<Rightarrow> bridge" where
  "handle_ack ack b =
     (let head = pl_head (producer (b_ring b));
          old_tail = cl_tail (consumer (b_ring b))
      in if ack_generation ack \<noteq> b_generation b \<or> ack_consumed_tail ack < old_tail \<or>
            ack_consumed_tail ack > head \<or>
            head - ack_consumed_tail ack > ucast (md_capacity (metadata (b_ring b)))
         then write_urgent
           (upd_stats (\<lambda>s. s\<lparr>bs_invalid_acknowledgements := bs_invalid_acknowledgements s + 1\<rparr>) b)
         else
           let consumed = ack_consumed_tail ack - old_tail;
               b1 = upd_consumer (\<lambda>c. c\<lparr>cl_tail := ack_consumed_tail ack, cl_drains := cl_drains c + 1,
                      cl_records_consumed := cl_records_consumed c + consumed\<rparr>) b;
               (now, b2) = bridge_now b1;
               b3 = upd_consumer (\<lambda>c. c\<lparr>cl_heartbeat_ns := now\<rparr>) b2
           in upd_stats (\<lambda>s. s\<lparr>bs_acknowledgements := bs_acknowledgements s + 1\<rparr>) b3)"

text \<open>What a well-framed message does, and the receive buffer of 256 bytes.\<close>

definition handle_message :: "u8 list \<Rightarrow> bridge \<Rightarrow> bridge" where
  "handle_message bytes b =
     (let header = decode_message_header bytes
      in if mh_type header = HFIOR_MSG_SET_MODE \<and> length bytes = sizeof_set_mode_message then
           let set_mode = decode_set_mode bytes
           in if sm_mode set_mode \<ge> HFIOR_MODE_HFIOR \<and> sm_mode set_mode \<le> HFIOR_MODE_EAGER_FRAME
              then upd_consumer (\<lambda>c. c\<lparr>cl_deadline_ns := sm_requested_deadline_ns set_mode\<rparr>)
                     (b\<lparr>b_mode := sm_mode set_mode\<rparr>)
              else b
         else if mh_type header = HFIOR_MSG_ACK \<and> length bytes = sizeof_ack_message then
           handle_ack (decode_ack bytes) b
         else if mh_type header = HFIOR_MSG_STOP then b\<lparr>b_stop_requested := True\<rparr>
         else if mh_type header = HFIOR_MSG_PING then
           snd (control_send (encode_message_header
             \<lparr>mh_type = HFIOR_MSG_PONG, mh_size = of_nat sizeof_message_header\<rparr>) b)
         else b)"

definition control_buffer :: nat where "control_buffer = 256"

definition handle_control_message :: "bridge \<Rightarrow> (errno + unit) \<times> bridge" where
  "handle_control_message b =
     (let (answer, b1) = on_kernel kernel_recv b
      in case answer of
           Recv_interrupted _ \<Rightarrow> (Inr (), b1)
         | Recv_failed e \<Rightarrow> if e = EAGAIN \<or> e = EWOULDBLOCK then (Inr (), b1) else (Inl e, b1)
         | Received r \<Rightarrow>
             let bytes = take control_buffer (rv_bytes r)
             in if bytes = [] then (Inr (), b1\<lparr>b_stop_requested := True\<rparr>)
                else
                  let b2 = upd_stats (\<lambda>s. s\<lparr>bs_control_messages := bs_control_messages s + 1\<rparr>) b1
                  in if length bytes < sizeof_message_header \<or>
                        mh_size (decode_message_header bytes) \<noteq> of_nat (length bytes)
                     then (Inr (), upd_stats
                       (\<lambda>s. s\<lparr>bs_malformed_messages := bs_malformed_messages s + 1\<rparr>) b2)
                     else (Inr (), handle_message bytes b2))"

end
