(* ===== verification/Bridge_Invariant.thy ===== *)
theory Bridge_Invariant
  imports Bridge
begin

text \<open>
  The invariant of the bridge: the shared ring holds the log of what was published, its
  sequence numbers are strictly increasing and below the next one, and every counter in
  the mapping agrees with the bridge's own statistics. \<open>keeps n b b'\<close> says that going from
  \<open>b\<close> to \<open>b'\<close> keeps it and publishes at most \<open>n\<close> records; it composes, and every
  operation of the bridge is shown to have it.
\<close>

definition attempts :: "bridge \<Rightarrow> nat" where
  "attempts b = unat (bs_records_attempted (b_stats b))"

definition log_ordered :: "hfior_record list \<Rightarrow> u64 \<Rightarrow> bool" where
  "log_ordered rlog next \<longleftrightarrow>
     sorted_wrt (<) (map r_sequence rlog) \<and> (\<forall>r \<in> set rlog. 0 < r_sequence r \<and> r_sequence r < next)"

text \<open>The mapping's counters are those of the process.\<close>

definition counters_agree :: "bridge_stats \<Rightarrow> hfior_ring_header \<Rightarrow> bool" where
  "counters_agree s h \<longleftrightarrow>
     pl_next_sequence (producer h) = bs_records_attempted s + 1 \<and>
     bs_records_attempted s = bs_records_published s + bs_ring_drops s \<and>
     pl_head (producer h) = bs_records_published s \<and>
     sl_records_published (stats h) = bs_records_published s \<and>
     pl_dropped_newest (producer h) = bs_ring_drops s \<and>
     pl_urgent_writes (producer h) = bs_urgent_writes s \<and>
     pl_eager_send_drops (producer h) = bs_eager_send_drops s \<and>
     sl_eager_packets_sent (stats h) = bs_eager_packets_sent s \<and>
     sl_button_frames (stats h) = bs_button_transitions s \<and>
     sl_device_reconnects (stats h) = bs_device_reconnects s \<and>
     cl_drains (consumer h) = bs_acknowledgements s \<and>
     cl_records_consumed (consumer h) = cl_tail (consumer h)"

definition bridge_inv :: "hfior_record list \<Rightarrow> bridge \<Rightarrow> bool" where
  "bridge_inv rlog b \<longleftrightarrow>
     ring_hist (b_ring b) rlog \<and>
     log_ordered rlog (pl_next_sequence (producer (b_ring b))) \<and>
     counters_agree (b_stats b) (b_ring b) \<and>
     pl_generation (producer (b_ring b)) = b_generation b"

definition keeps :: "nat \<Rightarrow> bridge \<Rightarrow> bridge \<Rightarrow> bool" where
  "keeps n b b' \<longleftrightarrow>
     attempts b' \<le> attempts b + n \<and>
     (\<forall>rlog. bridge_inv rlog b \<longrightarrow> attempts b + n + 1 < 2 ^ 64 \<longrightarrow>
        (\<exists>rs. bridge_inv (rlog @ rs) b' \<and> length rs \<le> n))"

named_theorems keeps_intros \<open>operations that keep the bridge's invariant\<close>

lemma keepsI:
  assumes "\<And>rlog. bridge_inv rlog b \<Longrightarrow> bridge_inv rlog b'"
    "bs_records_attempted (b_stats b') = bs_records_attempted (b_stats b)"
  shows "keeps 0 b b'"
  using assms by (auto simp: keeps_def attempts_def intro: exI [of _ "[]"])

lemma keepsI_one:
  assumes "attempts b' \<le> attempts b + 1"
    "\<And>rlog. bridge_inv rlog b \<Longrightarrow> attempts b + 1 + 1 < 2 ^ 64 \<Longrightarrow> bridge_inv (rlog @ [r]) b'"
  shows "keeps 1 b b'"
  unfolding keeps_def by (intro conjI allI impI exI [of _ "[r]"]) (use assms in simp_all)

lemma keepsI_none:
  assumes "attempts b' \<le> attempts b + 1"
    "\<And>rlog. bridge_inv rlog b \<Longrightarrow> attempts b + 1 + 1 < 2 ^ 64 \<Longrightarrow> bridge_inv rlog b'"
  shows "keeps 1 b b'"
  unfolding keeps_def by (intro conjI allI impI exI [of _ "[]"]) (use assms in simp_all)

lemma keepsD:
  assumes "keeps n b b'" "bridge_inv rlog b" "attempts b + n + 1 < 2 ^ 64"
  obtains rs where "bridge_inv (rlog @ rs) b'" "length rs \<le> n" "attempts b' \<le> attempts b + n"
  using assms by (auto simp: keeps_def)

lemma keeps_trans:
  assumes 1: "keeps m b c" and 2: "keeps n c d"
  shows "keeps (m + n) b d"
  unfolding keeps_def
proof (intro conjI allI impI)
  show "attempts d \<le> attempts b + (m + n)" using assms by (simp add: keeps_def)
  fix rlog assume inv: "bridge_inv rlog b" and room: "attempts b + (m + n) + 1 < 2 ^ 64"
  have "attempts b + m + 1 < 2 ^ 64" using room by simp
  from keepsD [OF 1 inv this] obtain rs
    where rs: "bridge_inv (rlog @ rs) c" "length rs \<le> m" "attempts c \<le> attempts b + m" .
  have "attempts c + n + 1 < 2 ^ 64" using room rs by simp
  from keepsD [OF 2 rs(1) this] obtain rs'
    where "bridge_inv ((rlog @ rs) @ rs') d" "length rs' \<le> n" .
  with rs(2) show "\<exists>rs. bridge_inv (rlog @ rs) d \<and> length rs \<le> m + n"
    by (intro exI [of _ "rs @ rs'"]) simp
qed

lemma keeps_trans0: "keeps 0 b c \<Longrightarrow> keeps n c d \<Longrightarrow> keeps n b d"
  using keeps_trans [of 0 b c n d] by simp

lemma keeps_then0: "keeps n b c \<Longrightarrow> keeps 0 c d \<Longrightarrow> keeps n b d"
  using keeps_trans [of n b c 0 d] by simp

lemma keeps_mono:
  assumes "keeps m b c" "m \<le> n"
  shows "keeps n b c"
  unfolding keeps_def
proof (intro conjI allI impI)
  show "attempts c \<le> attempts b + n" using assms by (simp add: keeps_def)
  fix rlog assume inv: "bridge_inv rlog b" and room: "attempts b + n + 1 < 2 ^ 64"
  from room assms(2) have "attempts b + m + 1 < 2 ^ 64" by simp
  from keepsD [OF assms(1) inv this] obtain rs
    where "bridge_inv (rlog @ rs) c" "length rs \<le> m" .
  with assms(2) show "\<exists>rs. bridge_inv (rlog @ rs) c \<and> length rs \<le> n" by auto
qed

text \<open>
  An operation that leaves the ring, the statistics the invariant names and the
  generation alone, or counts an event on both sides.
\<close>

definition same_core :: "bridge \<Rightarrow> bridge \<Rightarrow> bool" where
  "same_core b b' \<longleftrightarrow> b_ring b' = b_ring b \<and> b_generation b' = b_generation b \<and>
     bs_records_attempted (b_stats b') = bs_records_attempted (b_stats b) \<and>
     (\<forall>h. counters_agree (b_stats b') h = counters_agree (b_stats b) h)"

lemma keeps_core: "same_core b b' \<Longrightarrow> keeps 0 b b'"
  by (rule keepsI) (simp_all add: same_core_def bridge_inv_def)

lemma keeps_refl [simp]: "keeps n b b"
  by (rule keeps_mono [of 0]) (auto simp: same_core_def intro: keeps_core)

lemma on_kernel_core [simp]: "same_core b (snd (on_kernel ask b))"
  by (simp add: same_core_def on_kernel_def split_def Let_def)

lemma bridge_now_core [simp]: "same_core b (snd (bridge_now b))"
  by (simp add: bridge_now_def)

lemma warn_core [simp]: "same_core b (warn what b)"
  by (simp add: same_core_def warn_def)

lemma same_core_trans: "same_core a b \<Longrightarrow> same_core b c \<Longrightarrow> same_core a c"
  by (simp add: same_core_def)

lemma on_kernel_frame [simp]:
  "b_ring (snd (on_kernel ask b)) = b_ring b" "b_stats (snd (on_kernel ask b)) = b_stats b"
  "b_config (snd (on_kernel ask b)) = b_config b" "b_frame (snd (on_kernel ask b)) = b_frame b"
  "b_mode (snd (on_kernel ask b)) = b_mode b" "b_client_fd (snd (on_kernel ask b)) = b_client_fd b"
  "b_generation (snd (on_kernel ask b)) = b_generation b"
  "b_input_fd (snd (on_kernel ask b)) = b_input_fd b"
  "b_stop_requested (snd (on_kernel ask b)) = b_stop_requested b"
  "b_kernel (snd (on_kernel ask b)) = snd (ask (b_kernel b))"
  "fst (on_kernel ask b) = fst (ask (b_kernel b))"
  by (simp_all add: on_kernel_def split_def Let_def)

lemma bridge_now_frame [simp]:
  "b_ring (snd (bridge_now b)) = b_ring b" "b_stats (snd (bridge_now b)) = b_stats b"
  "b_config (snd (bridge_now b)) = b_config b" "b_frame (snd (bridge_now b)) = b_frame b"
  "b_mode (snd (bridge_now b)) = b_mode b" "b_client_fd (snd (bridge_now b)) = b_client_fd b"
  "b_generation (snd (bridge_now b)) = b_generation b"
  by (simp_all add: bridge_now_def)

section \<open>Notifications\<close>

lemma write_urgent_keeps [keeps_intros]: "keeps 0 b (write_urgent b)"
proof (rule keepsI)
  show "bs_records_attempted (b_stats (write_urgent b)) = bs_records_attempted (b_stats b)"
    by (simp add: write_urgent_def split_def Let_def warn_def split: syscall.split)
  fix rlog assume "bridge_inv rlog b"
  then show "bridge_inv rlog (write_urgent b)"
    by (auto simp: bridge_inv_def write_urgent_def split_def Let_def warn_def counters_agree_def
        split: syscall.split)
qed

lemma core_warn: "same_core b c \<Longrightarrow> same_core b (warn what c)"
  by (erule same_core_trans) (rule warn_core)

lemma core_then: "same_core b c \<Longrightarrow> keeps n c d \<Longrightarrow> keeps n b d"
  by (rule keeps_trans0 [OF keeps_core])

lemma send_device_state_keeps [keeps_intros]: "keeps 0 b (send_device_state flags b)"
  unfolding send_device_state_def Let_def split_def
  by (auto split: sum.split simp: core_warn intro: core_then [OF _ write_urgent_keeps])

lemma count_both_keeps:
  "keeps 0 b (upd_ring_stats (\<lambda>s. s\<lparr>sl_eager_packets_sent := sl_eager_packets_sent s + 1\<rparr>)
     (upd_stats (\<lambda>s. s\<lparr>bs_eager_packets_sent := bs_eager_packets_sent s + 1\<rparr>) b))"
  "keeps 0 b (upd_producer (\<lambda>p. p\<lparr>pl_eager_send_drops := pl_eager_send_drops p + 1\<rparr>)
     (upd_stats (\<lambda>s. s\<lparr>bs_eager_send_drops := bs_eager_send_drops s + 1\<rparr>) b))"
  "keeps 0 b (b\<lparr>b_stop_requested := True\<rparr>)"
  by (rule keepsI; auto simp: bridge_inv_def counters_agree_def)+

lemma send_eager_record_keeps [keeps_intros]: "keeps 0 b (send_eager_record r b)"
proof (cases "b_client_fd b < 0 \<or> b_mode b = HFIOR_MODE_HFIOR")
  case True
  then show ?thesis by (simp add: send_eager_record_def)
next
  case False
  let ?er = "\<lparr>er_header = \<lparr>mh_type = HFIOR_MSG_EAGER_RECORD, mh_size = of_nat sizeof_eager_record_message\<rparr>,
    er_generation = b_generation b, er_record = r\<rparr>"
  let ?send = "on_kernel (hfior_send_fds (b_client_fd b) (encode_eager_record ?er) [] MSG_DONTWAIT) b"
  have c: "same_core b (snd ?send)" by simp
  show ?thesis
    using False
      core_then [OF c count_both_keeps(1)]
      core_then [OF c keeps_then0 [OF count_both_keeps(2) write_urgent_keeps]]
      core_then [OF c count_both_keeps(3)] keeps_core [OF core_warn [OF c]]
    unfolding send_eager_record_def Let_def split_def
    by (cases "fst ?send") (simp_all del: on_kernel_frame)
qed

section \<open>Publication\<close>

lemma publish_counters [simp]:
  "pl_next_sequence (producer (snd (hfior_ring_publish h r))) = pl_next_sequence (producer h)"
  "pl_eager_send_drops (producer (snd (hfior_ring_publish h r))) = pl_eager_send_drops (producer h)"
  "pl_generation (producer (snd (hfior_ring_publish h r))) = pl_generation (producer h)"
  "pl_urgent_writes (producer (snd (hfior_ring_publish h r))) = pl_urgent_writes (producer h)"
  "stats (snd (hfior_ring_publish h r)) =
     (if fst (hfior_ring_publish h r) then count_published r (stats h) else stats h)"
  by (simp_all add: hfior_ring_publish_def Let_def)

lemma count_published_simps [simp]:
  "sl_records_published (count_published r s) = sl_records_published s + 1"
  "sl_button_frames (count_published r s) =
     (if has_flag r HFIOR_RECORD_BUTTON then sl_button_frames s + 1 else sl_button_frames s)"
  "sl_eager_packets_sent (count_published r s) = sl_eager_packets_sent s"
  "sl_device_reconnects (count_published r s) = sl_device_reconnects s"
  by (simp_all add: count_published_def Let_def)

lemma account_record_flags_frame [simp]:
  "b_ring (account_record_flags r b) = b_ring b"
  "b_generation (account_record_flags r b) = b_generation b"
  "b_stats (account_record_flags r b) = (if has_flag r HFIOR_RECORD_BUTTON
     then (b_stats b)\<lparr>bs_button_transitions := bs_button_transitions (b_stats b) + 1\<rparr> else b_stats b)"
  by (simp_all add: account_record_flags_def)

lemma trace_publication_frame [simp]:
  "b_ring (trace_publication e b) = b_ring b"
  "b_stats (trace_publication e b) = b_stats b"
  "b_generation (trace_publication e b) = b_generation b"
  by (simp_all add: trace_publication_def)

lemma log_ordered_append:
  assumes "log_ordered rlog next" "0 < next" "next < next'" "r_sequence r = next"
  shows "log_ordered (rlog @ [r]) next'"
  using assms by (auto simp: log_ordered_def sorted_wrt_append intro: less_trans)

lemma log_ordered_mono: "log_ordered rlog next \<Longrightarrow> next \<le> next' \<Longrightarrow> log_ordered rlog next'"
  by (auto simp: log_ordered_def intro: less_le_trans)

text \<open>The record as it is published, and the ring with the sequence number taken.\<close>

definition sequenced :: "bridge \<Rightarrow> hfior_record \<Rightarrow> hfior_record" where
  "sequenced b r = r\<lparr>r_sequence := pl_next_sequence (producer (b_ring b))\<rparr>"

definition taken :: "bridge \<Rightarrow> u64 \<Rightarrow> hfior_ring_header" where
  "taken b now = (b_ring b)\<lparr>producer := (producer (b_ring b))
     \<lparr>pl_next_sequence := pl_next_sequence (producer (b_ring b)) + 1, pl_heartbeat_ns := now\<rparr>\<rparr>"

lemma unat_Suc_le: "unat (a + 1 :: u64) \<le> Suc (unat a)"
  by (simp add: unat_word_ariths)

lemma next_sequence_grows:
  assumes "bridge_inv rlog b" "attempts b + 1 + 1 < 2 ^ 64"
  shows "0 < pl_next_sequence (producer (b_ring b))"
    "pl_next_sequence (producer (b_ring b)) < pl_next_sequence (producer (b_ring b)) + 1"
    "length rlog \<le> attempts b \<Longrightarrow> length rlog + 1 < 2 ^ 64"
  using assms
  by (simp_all add: bridge_inv_def counters_agree_def attempts_def word_less_nat_alt unat_Suc_small)

text \<open>Published records have distinct sequence numbers among those attempted.\<close>

lemma log_ordered_length:
  assumes "log_ordered rlog next"
  shows "length rlog \<le> unat next - 1"
proof -
  have "distinct (map r_sequence rlog)"
    using assms by (auto simp: log_ordered_def strict_sorted_iff)
  then have d: "distinct (map (unat \<circ> r_sequence) rlog)"
    by (auto simp: distinct_map inj_on_def intro: unsigned_word_eqI)
  have "set (map (unat \<circ> r_sequence) rlog) \<subseteq> {1..<unat next}"
    using assms by (auto simp: log_ordered_def word_less_nat_alt)
  then have "card (set (map (unat \<circ> r_sequence) rlog)) \<le> card {1..<unat next}"
    by (intro card_mono) simp_all
  then show ?thesis using distinct_card [OF d] by simp
qed

lemma bridge_inv_length:
  assumes "bridge_inv rlog b" "attempts b + 1 < 2 ^ 64"
  shows "length rlog \<le> attempts b"
proof -
  have "log_ordered rlog (bs_records_attempted (b_stats b) + 1)"
    using assms(1) unfolding bridge_inv_def counters_agree_def by metis
  then have "length rlog \<le> unat (bs_records_attempted (b_stats b) + 1) - 1"
    by (rule log_ordered_length)
  then show ?thesis using assms(2) by (simp add: attempts_def unat_Suc_small)
qed

lemma publish_stage:
  assumes c: "b_ring c = snd (hfior_ring_publish (taken b now) (sequenced b r))"
      "b_generation c = b_generation b"
      "b_stats c = (b_stats b)\<lparr>bs_records_attempted := bs_records_attempted (b_stats b) + 1\<rparr>"
    and inv: "bridge_inv rlog b" and room: "attempts b + 1 + 1 < 2 ^ 64"
  shows "fst (hfior_ring_publish (taken b now) (sequenced b r)) \<Longrightarrow>
      bridge_inv (rlog @ [sequenced b r]) (account_record_flags (sequenced b r)
        (upd_stats (\<lambda>s. s\<lparr>bs_records_published := bs_records_published s + 1\<rparr>) c))"
    "\<not> fst (hfior_ring_publish (taken b now) (sequenced b r)) \<Longrightarrow>
      bridge_inv rlog (upd_stats (\<lambda>s. s\<lparr>bs_ring_drops := bs_ring_drops s + 1\<rparr>) c)"
proof -
  have len: "length rlog \<le> attempts b" using bridge_inv_length [OF inv] room by simp
  note grows = next_sequence_grows [OF inv room]
  have hist: "ring_hist (taken b now) rlog" using inv by (simp add: taken_def bridge_inv_def)
  have order: "log_ordered rlog (pl_next_sequence (producer (b_ring b)))"
    using inv by (simp add: bridge_inv_def)
  note hist' = ring_hist_publish [OF hist grows(3) [OF len], of "sequenced b r"]
  show "bridge_inv (rlog @ [sequenced b r]) (account_record_flags (sequenced b r)
      (upd_stats (\<lambda>s. s\<lparr>bs_records_published := bs_records_published s + 1\<rparr>) c))"
    if "fst (hfior_ring_publish (taken b now) (sequenced b r))"
    using that c inv hist' log_ordered_append [OF order grows(1,2), of "sequenced b r"]
    by (simp add: bridge_inv_def counters_agree_def publish_head publish_dropped)
      (simp add: taken_def sequenced_def algebra_simps)
  show "bridge_inv rlog (upd_stats (\<lambda>s. s\<lparr>bs_ring_drops := bs_ring_drops s + 1\<rparr>) c)"
    if "\<not> fst (hfior_ring_publish (taken b now) (sequenced b r))"
    using that c inv hist' log_ordered_mono [OF order, of "pl_next_sequence (producer (b_ring b)) + 1"] grows(2)
    by (simp add: bridge_inv_def counters_agree_def publish_head publish_dropped)
      (simp add: taken_def algebra_simps)
qed

lemma account_record_flags_attempts:
  "bs_records_attempted (b_stats (account_record_flags r b)) = bs_records_attempted (b_stats b)"
  by simp

abbreviation publication_time :: "bridge \<Rightarrow> u64" where
  "publication_time b \<equiv> fst (hfior_now_ns CLOCK_MONOTONIC (b_kernel b))"

lemma attempt_publication_simps:
  "fst (attempt_publication r b) = fst (hfior_ring_publish (taken b (publication_time b)) (sequenced b r))"
  "fst (snd (attempt_publication r b)) = sequenced b r"
  "b_ring (snd (snd (attempt_publication r b))) =
     snd (hfior_ring_publish (taken b (publication_time b)) (sequenced b r))"
  "b_generation (snd (snd (attempt_publication r b))) = b_generation b"
  "b_stats (snd (snd (attempt_publication r b))) =
     (b_stats b)\<lparr>bs_records_attempted := bs_records_attempted (b_stats b) + 1\<rparr>"
  unfolding attempt_publication_def Let_def split_def taken_def sequenced_def
  by (simp_all add: bridge_now_def)

lemma publish_record_keeps [keeps_intros]: "keeps 1 b (publish_record r b)"
proof -
  let ?published = "fst (attempt_publication r b)" and ?r = "sequenced b r"
  let ?c = "snd (snd (attempt_publication r b))"
  let ?yes = "account_record_flags ?r
    (upd_stats (\<lambda>s. s\<lparr>bs_records_published := bs_records_published s + 1\<rparr>) ?c)"
  let ?no = "upd_stats (\<lambda>s. s\<lparr>bs_ring_drops := bs_ring_drops s + 1\<rparr>) ?c"
  have unfold: "publish_record r b =
      (if ?published
       then (if has_flag ?r urgent_flags then write_urgent (send_eager_record ?r ?yes)
             else send_eager_record ?r ?yes)
       else write_urgent ?no)"
    unfolding publish_record_def Let_def split_def attempt_publication_simps(2) by (rule refl)
  note stage = publish_stage [OF attempt_publication_simps(3-5)]
  have att: "attempts ?yes \<le> attempts b + 1" "attempts ?no \<le> attempts b + 1"
    by (simp_all add: attempts_def attempt_publication_simps unat_Suc_le)
  have yes: "keeps 1 b ?yes" if "?published"
    using that unfolding attempt_publication_simps(1)
    by (intro keepsI_one [OF att(1) stage(1)])
  have no: "keeps 1 b ?no" if "\<not> ?published"
    using that unfolding attempt_publication_simps(1)
    by (intro keepsI_none [OF att(2) stage(2)])
  note sent = keeps_then0 [OF yes send_eager_record_keeps]
  show ?thesis
    unfolding unfold
    using sent keeps_then0 [OF sent write_urgent_keeps] keeps_then0 [OF no write_urgent_keeps]
    by simp
qed

section \<open>Frames and input\<close>

lemma keeps_update [simp]:
  "same_core b (c\<lparr>b_frame := f\<rparr>) = same_core b c"
  "same_core b (c\<lparr>b_stop_requested := stop\<rparr>) = same_core b c"
  "same_core b (c\<lparr>b_source_ready := ready\<rparr>) = same_core b c"
  "same_core b (c\<lparr>b_raw_log := raw\<rparr>) = same_core b c"
  "same_core b (c\<lparr>b_kernel := k\<rparr>) = same_core b c"
  "same_core b (c\<lparr>b_input_fd := fd\<rparr>) = same_core b c"
  "same_core b (c\<lparr>b_input_id := ident\<rparr>) = same_core b c"
  "same_core b (c\<lparr>b_device_name := name\<rparr>) = same_core b c"
  "same_core b (c\<lparr>b_mode := m\<rparr>) = same_core b c"
  "same_core b (c\<lparr>b_synthetic_period_ns := p\<rparr>) = same_core b c"
  "same_core b (c\<lparr>b_synthetic_next_timestamp_ns := t\<rparr>) = same_core b c"
  "same_core b (c\<lparr>b_synthetic_index := i\<rparr>) = same_core b c"
  "same_core b (c\<lparr>b_stop_deadline_ns := d\<rparr>) = same_core b c"
  "same_core b (c\<lparr>b_client_fd := fd\<rparr>) = same_core b c"
  "same_core b (c\<lparr>b_peer_pid := pid\<rparr>) = same_core b c"
  by (simp_all add: same_core_def)

lemma stats_core [simp]:
  "same_core b (c\<lparr>b_stats := (b_stats c)\<lparr>bs_syn_reports := n\<rparr>\<rparr>) = same_core b c"
  "same_core b (c\<lparr>b_stats := (b_stats c)\<lparr>bs_input_events := n\<rparr>\<rparr>) = same_core b c"
  "same_core b (c\<lparr>b_stats := (b_stats c)\<lparr>bs_device_disconnects := n\<rparr>\<rparr>) = same_core b c"
  "same_core b (c\<lparr>b_stats := (b_stats c)\<lparr>bs_control_messages := n\<rparr>\<rparr>) = same_core b c"
  "same_core b (c\<lparr>b_stats := (b_stats c)\<lparr>bs_malformed_messages := n\<rparr>\<rparr>) = same_core b c"
  "same_core b (c\<lparr>b_stats := (b_stats c)\<lparr>bs_invalid_acknowledgements := n\<rparr>\<rparr>) = same_core b c"
  "same_core b (c\<lparr>b_stats := (b_stats c)\<lparr>bs_started_ns := n\<rparr>\<rparr>) = same_core b c"
  "same_core b (c\<lparr>b_stats := (b_stats c)\<lparr>bs_finished_ns := n\<rparr>\<rparr>) = same_core b c"
  by (simp_all add: same_core_def counters_agree_def)

lemma same_core_refl [simp]: "same_core b b"
  by (simp add: same_core_def)

lemma complete_frame_keeps [keeps_intros]: "keeps 1 b (complete_frame t b)"
proof -
  have finished: "keeps 1 b ((publish_record r c)\<lparr>b_stats := (b_stats (publish_record r c))
      \<lparr>bs_syn_reports := n\<rparr>, b_frame := f\<rparr>)" if "same_core b c" for r c n f
    by (rule keeps_then0 [OF core_then [OF that publish_record_keeps, of r] keeps_core]) simp
  show ?thesis
    using finished [OF same_core_refl] finished [OF bridge_now_core]
    by (cases "t = 0") (simp_all add: complete_frame_def Let_def split_def)
qed

lemma raw_log_core [simp]: "same_core b (raw_log_event e c) = same_core b c"
  by (simp add: raw_log_event_def split: option.split)

lemma process_input_event_keeps [keeps_intros]: "keeps 1 b (process_input_event e b)"
proof -
  have "keeps 1 b (complete_frame t c)" if "same_core b c" for t c
    using core_then [OF that complete_frame_keeps] .
  moreover have "keeps 1 b c" if "same_core b c" for c
    using keeps_mono [OF keeps_core [OF that]] by simp
  ultimately show ?thesis
    by (simp add: process_input_event_def Let_def)
qed

lemma fold_keeps:
  assumes "\<And>x b. keeps n b (f x b)"
  shows "keeps (n * length xs) b (fold f xs b)"
proof (induction xs arbitrary: b)
  case Nil
  show ?case by simp
next
  case (Cons x xs)
  show ?case using keeps_trans [OF assms Cons.IH] by simp
qed

lemma funpow_keeps:
  assumes "\<And>b. keeps n b (f b)"
  shows "keeps (n * m) b ((f ^^ m) b)"
proof (induction m)
  case 0
  show ?case by simp
next
  case (Suc m)
  show ?case using keeps_trans [OF Suc.IH assms] by (simp add: algebra_simps)
qed

lemma emit_one_synthetic_keeps: "keeps 1 b (emit_one_synthetic b)"
proof -
  have "keeps 1 b (complete_frame t c)" if "same_core b c" for t c
    using core_then [OF that complete_frame_keeps] .
  then show ?thesis
    by (simp add: emit_one_synthetic_def Let_def split_def same_core_trans [OF _ bridge_now_core])
qed

lemma emit_synthetic_keeps [keeps_intros]: "keeps (unat n) b (emit_synthetic n b)"
proof -
  have "unat (if n > 1000000 then 1000000 else n) \<le> unat n"
    by (simp add: word_less_nat_alt)
  with funpow_keeps [OF emit_one_synthetic_keeps, of "unat (if n > 1000000 then 1000000 else n)" b]
  show ?thesis
    unfolding emit_synthetic_def by (auto intro: keeps_mono)
qed

lemma drain_input_device_keeps:
  "drain_input_device fuel b = Some (result, b') \<Longrightarrow> keeps (event_buffer * fuel) b b'"
proof (induction fuel arbitrary: b)
  case 0
  then show ?case by simp
next
  case (Suc fuel)
  let ?b1 = "snd (on_kernel kernel_read b)"
  have stop: "keeps (event_buffer * Suc fuel) b ?b1"
    by (rule keeps_mono [of 0]) (simp_all add: keeps_core)
  have again: "keeps (event_buffer * Suc fuel) b b'"
    if "keeps n ?b1 c" "n \<le> event_buffer" "drain_input_device fuel c = Some (result, b')" for n c
  proof -
    have "keeps (n + event_buffer * fuel) b b'"
      using core_then [OF on_kernel_core keeps_trans [OF that(1) Suc.IH [OF that(3)]]] .
    then show ?thesis by (rule keeps_mono) (use that(2) in simp)
  qed
  show ?case
  proof (cases "fst (kernel_read (b_kernel b))")
    case (Read_events events)
    have "keeps (length (take event_buffer events)) ?b1
        (fold process_input_event (take event_buffer events) ?b1)"
      using fold_keeps [of 1 process_input_event "take event_buffer events", OF process_input_event_keeps]
      by (simp del: length_take)
    from again [OF this] show ?thesis
      using Suc.prems Read_events by (simp add: split_def)
  next
    case Read_interrupted
    with again [OF keeps_refl [of 0]] Suc.prems show ?thesis by (simp add: split_def)
  qed (use stop Suc.prems in \<open>auto simp: split_def Let_def split: if_splits\<close>)
qed

lemma discard_reads_keeps: "discard_reads fuel b = Some (result, b') \<Longrightarrow> same_core b b'"
proof (induction fuel arbitrary: b)
  case 0
  then show ?case by simp
next
  case (Suc fuel)
  then show ?case
    by (auto simp: split_def Let_def split: device_read.splits if_splits
        intro: same_core_trans [OF on_kernel_core])
qed

lemma refresh_button_state_core [simp]: "same_core b (refresh_button_state b)"
  unfolding refresh_button_state_def Let_def split_def
  by (auto split: option.splits)

lemma discard_pending_input_core:
  assumes "discard_pending_input fuel b = Some (result, b')"
  shows "same_core b b'"
proof -
  have "same_core c (refresh_button_state (d\<lparr>b_frame := f\<rparr>))" if "same_core c d" for c d f
    by (rule same_core_trans [of _ "d\<lparr>b_frame := f\<rparr>"]) (use that in simp_all)
  then show ?thesis
    using assms discard_reads_keeps [of fuel b]
    by (auto simp: discard_pending_input_def split: if_splits option.splits sum.splits)
qed

lemma open_input_device_core [simp]: "same_core b (snd (open_input_device b))"
  unfolding open_input_device_def Let_def split_def
  by (auto split: option.splits sum.splits simp: core_warn)

lemma mark_device_gone_keeps [keeps_intros]: "keeps 0 b (mark_device_gone b)"
  unfolding mark_device_gone_def Let_def
  by (rule core_then [OF _ send_device_state_keeps]) (simp add: same_core_def counters_agree_def)

lemma try_reconnect_device_keeps [keeps_intros]: "keeps 0 b (snd (try_reconnect_device b))"
proof (cases "bc_device_path (b_config b) = None \<or> (\<exists>e. fst (open_input_device b) = Inl e)")
  case True
  then show ?thesis
    by (auto simp: try_reconnect_device_def split_def keeps_core)
next
  case False
  let ?c = "snd (open_input_device b)"
  let ?d = "upd_stats (\<lambda>s. s\<lparr>bs_device_reconnects := bs_device_reconnects s + 1\<rparr>)
    (upd_ring_stats (\<lambda>s. s\<lparr>sl_device_reconnects := sl_device_reconnects s + 1\<rparr>)
      (upd_producer (\<lambda>p. p\<lparr>pl_generation := b_generation ?c + 1\<rparr>) (?c\<lparr>b_generation := b_generation ?c + 1\<rparr>)))"
  have "keeps 0 ?c ?d"
    by (rule keepsI) (auto simp: bridge_inv_def counters_agree_def)
  then have "keeps 0 b (send_device_state (ucast HFIOR_RECORD_DEVICE_READY) ?d)"
    using core_then [OF open_input_device_core] keeps_then0 send_device_state_keeps by blast
  moreover obtain u where "fst (open_input_device b) = Inr u"
    using False by (cases "fst (open_input_device b)") auto
  ultimately show ?thesis
    using False by (simp add: try_reconnect_device_def Let_def split_def)
qed

section \<open>The control socket\<close>

lemma control_send_core [simp]: "same_core b (snd (control_send m b))"
  unfolding control_send_def Let_def split_def by (auto split: syscall.split)

text \<open>An acknowledgement moves the tail forward, never past the head.\<close>

lemma handle_ack_keeps [keeps_intros]: "keeps 0 b (handle_ack ack b)"
proof (cases "ack_generation ack \<noteq> b_generation b \<or> ack_consumed_tail ack < ring_tail (b_ring b) \<or>
    ack_consumed_tail ack > ring_head (b_ring b) \<or>
    ring_head (b_ring b) - ack_consumed_tail ack > ucast (md_capacity (metadata (b_ring b)))")
  case True
  then have "handle_ack ack b = write_urgent
      (upd_stats (\<lambda>s. s\<lparr>bs_invalid_acknowledgements := bs_invalid_acknowledgements s + 1\<rparr>) b)"
    by (simp add: handle_ack_def Let_def)
  then show ?thesis
    using core_then [OF _ write_urgent_keeps] by simp
next
  case False
  let ?c = "upd_consumer (\<lambda>c. c\<lparr>cl_tail := ack_consumed_tail ack, cl_drains := cl_drains c + 1,
    cl_records_consumed := cl_records_consumed c + (ack_consumed_tail ack - ring_tail (b_ring b))\<rparr>) b"
  let ?d = "upd_stats (\<lambda>s. s\<lparr>bs_acknowledgements := bs_acknowledgements s + 1\<rparr>)
    (upd_consumer (\<lambda>c. c\<lparr>cl_heartbeat_ns := fst (bridge_now ?c)\<rparr>) (snd (bridge_now ?c)))"
  have unfold: "handle_ack ack b = ?d"
    using False by (simp add: handle_ack_def Let_def split_def)
  show ?thesis
    unfolding unfold
  proof (rule keepsI)
    fix rlog assume inv: "bridge_inv rlog b"
    then have hist: "ring_hist (b_ring b) rlog" by (simp add: bridge_inv_def)
    have "ring_hist (b_ring ?c) rlog"
      by (rule ring_hist_advance [OF hist])
        (use False hist in \<open>auto simp: ring_hist_def word_le_nat_alt not_less\<close>)
    then have "ring_hist (b_ring ?d) rlog"
      using ring_hist_cong [of "b_ring ?d" "b_ring ?c" rlog] by simp
    then show "bridge_inv rlog ?d"
      using inv by (auto simp: bridge_inv_def counters_agree_def)
  qed simp
qed

lemma handle_message_keeps [keeps_intros]: "keeps 0 b (handle_message bytes b)"
proof -
  have "keeps 0 b (upd_consumer (\<lambda>c. c\<lparr>cl_deadline_ns := d\<rparr>) (b\<lparr>b_mode := m\<rparr>))" for d m
    by (rule keepsI) (auto simp: bridge_inv_def counters_agree_def)
  then show ?thesis
    by (auto simp: handle_message_def Let_def handle_ack_keeps intro: keeps_core)
qed

lemma handle_control_message_keeps [keeps_intros]: "keeps 0 b (snd (handle_control_message b))"
proof (cases "fst (kernel_recv (b_kernel b))")
  case (Received r)
  let ?b1 = "snd (on_kernel kernel_recv b)"
  let ?b2 = "upd_stats (\<lambda>s. s\<lparr>bs_control_messages := bs_control_messages s + 1\<rparr>) ?b1"
  let ?b3 = "upd_stats (\<lambda>s. s\<lparr>bs_malformed_messages := bs_malformed_messages s + 1\<rparr>) ?b2"
  have core: "same_core b ?b2" "same_core b ?b3"
    by (simp_all add: same_core_def counters_agree_def)
  have "snd (handle_control_message b) \<in>
      {?b1\<lparr>b_stop_requested := True\<rparr>, ?b3, handle_message (take control_buffer (rv_bytes r)) ?b2}"
    by (simp add: handle_control_message_def Let_def split_def Received)
  moreover have "keeps 0 b (?b1\<lparr>b_stop_requested := True\<rparr>)" by (simp add: keeps_core)
  ultimately show ?thesis
    using keeps_core [OF core(2)] core_then [OF core(1) handle_message_keeps] by auto
qed (simp_all add: handle_control_message_def Let_def split_def keeps_core)

section \<open>A bridge for evaluation\<close>

definition zero_stats :: bridge_stats where
  "zero_stats = \<lparr>bs_started_ns = 0, bs_finished_ns = 0, bs_input_events = 0, bs_syn_reports = 0,
     bs_records_attempted = 0, bs_records_published = 0, bs_ring_drops = 0,
     bs_eager_packets_sent = 0, bs_eager_send_drops = 0, bs_urgent_writes = 0,
     bs_button_transitions = 0, bs_device_disconnects = 0, bs_device_reconnects = 0,
     bs_control_messages = 0, bs_malformed_messages = 0, bs_acknowledgements = 0,
     bs_invalid_acknowledgements = 0\<rparr>"

lemma counters_agree_initial:
  "hfior_initialize_mapping header sz c feats name bus v p ver gen now = Inr ring \<Longrightarrow>
   counters_agree zero_stats ring \<and> pl_generation (producer ring) = gen"
  by (auto simp: hfior_initialize_mapping_def counters_agree_def zero_stats_def split: if_splits)

text \<open>A bridge with the ring of two slots, as after the initialization.\<close>

definition demo_bridge :: "kernel \<Rightarrow> bridge" where
  "demo_bridge k = \<lparr>
     b_config = \<lparr>bc_device_path = None, bc_socket_path = ''s'', bc_stats_path = None,
       bc_raw_log_path = None, bc_trace_path = None, bc_capacity = 2, bc_synthetic_rate_hz = 1000,
       bc_synthetic_button_every = 0, bc_reconnect_ms = 250, bc_duration_s = Finite 0,
       bc_socket_send_buffer = 0, bc_synthetic_publish_timestamps = False, bc_quiet = True\<rparr>,
     b_stats = zero_stats, b_ring = demo_ring, b_mapping_size = hfior_mapping_size 2, b_memfd = 3, b_readonly_memfd = 4, b_urgent_fd = 5,
     b_listen_fd = 6, b_client_fd = - 1, b_input_fd = - 1, b_synthetic_timer_fd = 7,
     b_raw_log = None, b_mode = HFIOR_MODE_HFIOR, b_generation = 1, b_stop_deadline_ns = 0,
     b_authorized_uid = 1000, b_peer_pid = 0,
     b_input_id = \<lparr>id_bustype = 0, id_vendor = 0, id_product = 0, id_version = 0\<rparr>,
     b_device_name = ''mouse'', b_frame = zero_frame, b_source_ready = False,
     b_synthetic_period_ns = 0, b_synthetic_next_timestamp_ns = 0, b_publication_trace = [],
     b_stop_requested = False, b_synthetic_index = 0, b_kernel = k\<rparr>"

lemma demo_bridge_inv: "bridge_inv [] (demo_bridge k)" "attempts (demo_bridge k) = 0"
proof -
  obtain header now where r:
    "hfior_initialize_mapping header (hfior_mapping_size 2) 2 0 None 0 0 0 0 1 now = Inr demo_ring"
    using demo_ring_init by blast
  have "counters_agree zero_stats demo_ring \<and> pl_generation (producer demo_ring) = 1"
    using counters_agree_initial [OF r] .
  then show "bridge_inv [] (demo_bridge k)" "attempts (demo_bridge k) = 0"
    using ring_hist_initial [OF r]
    by (simp_all add: demo_bridge_def bridge_inv_def log_ordered_def attempts_def zero_stats_def)
qed

lemma demo_bridge_ring:
  "b_ring (demo_bridge k) = demo_ring" "ring_contents demo_ring = []" "ring_capacity demo_ring = 2"
  "ring_tail demo_ring = 0" "ring_head demo_ring = 0"
  by (simp_all add: demo_bridge_def demo_ring_facts)

end
