(* ===== verification/Bridge_Main.thy ===== *)
theory Bridge_Main
  imports Bridge_Invariant
begin

text \<open>
  The life of the bridge process: setting up the ring, the hello, the start barrier, the
  event loop of \<open>main\<close>, and the terminal record with its bounded wait. Every loop takes
  fuel, one unit for each pass; \<open>None\<close> is that the fuel did not suffice. The loops keep
  the invariant of \<open>Bridge_Invariant\<close>, from the fresh mapping on.
\<close>

section \<open>Waiting for events\<close>

text \<open>
  A \<open>poll\<close> with the given timeout in milliseconds. A stop signal that arrives while the
  process waits has run \<open>on_signal\<close>. \<open>revents_at\<close> is the answer for one descriptor.
\<close>

definition poll_bridge :: "int \<Rightarrow> bridge \<Rightarrow> poll_answer \<times> bridge" where
  "poll_bridge timeout_ms b =
     (let (answer, b1) = on_kernel kernel_poll b;
          b2 = b1\<lparr>b_kernel := emit (Polled timeout_ms) (b_kernel b1)\<rparr>
      in (answer, if answer = Poll_interrupted True then b2\<lparr>b_stop_requested := True\<rparr> else b2))"

definition revents_at :: "nat \<Rightarrow> u16 list \<Rightarrow> u16" where
  "revents_at i revents = (if i < length revents then revents ! i else 0)"

definition poll_error :: "u16 \<Rightarrow> bool" where
  "poll_error revents \<longleftrightarrow> revents AND (POLLERR OR POLLHUP OR POLLNVAL) \<noteq> 0"

section \<open>Setting up\<close>

definition bridge_features :: "bridge_config \<Rightarrow> u64" where
  "bridge_features config =
     (HFIOR_FEAT_MONOTONIC_CLOCK OR HFIOR_FEAT_URGENT_EVENTFD OR HFIOR_FEAT_EAGER_REFERENCE OR
      HFIOR_FEAT_DEVICE_GENERATION OR HFIOR_FEAT_DROP_ACCOUNTING OR HFIOR_FEAT_READ_ONLY_RING OR
      HFIOR_FEAT_ACK_PROGRESS OR HFIOR_FEAT_START_BARRIER) OR
     (if bc_device_path config \<noteq> None then HFIOR_FEAT_KERNEL_EVENT_TIME else HFIOR_FEAT_SYNTHETIC_SOURCE)"

text \<open>The checks of \<open>main\<close> on the options.\<close>

definition config_accepted :: "bridge_config \<Rightarrow> bool" where
  "config_accepted config \<longleftrightarrow>
     \<not> ((bc_device_path config \<noteq> None) = (bc_synthetic_rate_hz config \<noteq> 0)) \<and>
     hfior_is_power_of_two_u32 (bc_capacity config) \<and> \<not> bc_capacity config < 64 \<and>
     \<not> bc_synthetic_rate_hz config > 1000000"

text \<open>
  The mapping of a bridge whose source is open; \<open>b\<close> holds whatever was in the ring
  before, which the initialization clears.
\<close>

definition initialize_ring :: "bridge \<Rightarrow> (errno + unit) \<times> bridge" where
  "initialize_ring b =
     (let (now, b1) = bridge_now b
      in case hfior_initialize_mapping (Some (b_ring b)) (b_mapping_size b)
                (bc_capacity (b_config b)) (bridge_features (b_config b)) (Some (b_device_name b))
                (id_bustype (b_input_id b)) (id_vendor (b_input_id b)) (id_product (b_input_id b))
                (id_version (b_input_id b)) (b_generation b) now of
           Inl e \<Rightarrow> (Inl e, b1)
         | Inr ring \<Rightarrow> (Inr (), b1\<lparr>b_ring := ring\<rparr>))"

text \<open>
  \<open>accepted\<close> is the answer of \<open>accept4\<close>, \<open>credentials\<close> that of \<open>SO_PEERCRED\<close>, \<open>getfl\<close>
  and \<open>setfl\<close> those of \<open>fcntl\<close>, \<open>pid\<close> the process identifier. The result is whether the
  function returned 0.
\<close>

definition accept_client_and_send_hello ::
    "int option \<Rightarrow> errno + ucred \<Rightarrow> u32 option \<Rightarrow> (u32 \<Rightarrow> u32 option) \<Rightarrow> u32 \<Rightarrow> bridge \<Rightarrow> bool \<times> bridge" where
  "accept_client_and_send_hello accepted credentials getfl setfl pid b =
     (case accepted of
        None \<Rightarrow> (False, b\<lparr>b_client_fd := - 1\<rparr>)
      | Some fd \<Rightarrow>
          case hfior_verify_same_uid_peer credentials (b_authorized_uid b) of
            Inl _ \<Rightarrow> (False, b\<lparr>b_kernel := emit (Closed fd) (b_kernel b), b_client_fd := - 1\<rparr>)
          | Inr peer \<Rightarrow>
              let b1 = b\<lparr>b_client_fd := fd, b_peer_pid := peer\<rparr>
              in case hfior_set_nonblocking getfl setfl True of
                   None \<Rightarrow> (False, b1)
                 | Some _ \<Rightarrow>
                     let hello = \<lparr>
                           hello_header = \<lparr>mh_type = HFIOR_MSG_HELLO, mh_size = of_nat sizeof_hello_message\<rparr>,
                           hello_abi_version = HFIOR_ABI_VERSION,
                           hello_capacity = bc_capacity (b_config b1),
                           hello_generation = b_generation b1,
                           hello_features = md_features (metadata (b_ring b1)),
                           hello_producer_pid = pid, hello_reserved = 0\<rparr>;
                         (result, b2) = on_kernel (hfior_send_fds fd (encode_hello hello)
                           [b_readonly_memfd b1, b_urgent_fd b1] 0) b1
                     in (result = Inr (), b2))"

section \<open>The start barrier\<close>

text \<open>
  What one message does at the barrier: wait on (with \<open>mode_received\<close>), or return, with
  whether the return value is 0. \<open>None\<close> is that discarding the pending input ran out of
  fuel.
\<close>

datatype barrier = Wait bool bridge | Return bool bridge

definition start_source :: "nat \<Rightarrow> bridge \<Rightarrow> (bool \<times> bridge) option" where
  "start_source fuel b =
     (if bc_synthetic_rate_hz (b_config b) \<noteq> 0
      then let (result, b1) = arm_synthetic_source b in Some (result = Inr (), b1)
      else map_option (\<lambda>(result, b1). (result = Inr (), b1)) (discard_pending_input fuel b))"

text \<open>
  \<open>duration_s > 0.0\<close> and \<open>(uint64_t)(duration_s * 1e9)\<close>. The option takes \<open>nan\<close>, which is not positive,
  and \<open>inf\<close>, whose conversion C leaves undefined (here it is what an x86-64 processor gives); so it
  does for durations from \<open>2^64\<close> nanoseconds on (here modulo \<open>2^64\<close>).
\<close>

definition positive_double :: "double_value \<Rightarrow> bool" where
  "positive_double x \<longleftrightarrow> (case x of Finite r \<Rightarrow> r > 0 | Infinite \<Rightarrow> True | Not_a_number \<Rightarrow> False)"

definition nanoseconds :: "double_value \<Rightarrow> u64" where
  "nanoseconds x =
     (case x of Finite r \<Rightarrow> u64_of_double (round_double (r * 1000000000)) | _ \<Rightarrow> 0x8000000000000000)"

definition announce_start :: "bridge \<Rightarrow> barrier" where
  "announce_start b =
     (let (now, b1) = bridge_now b;
          b2 = upd_stats (\<lambda>s. s\<lparr>bs_started_ns := now\<rparr>) b1;
          b3 = (if positive_double (bc_duration_s (b_config b2))
                then b2\<lparr>b_stop_deadline_ns := now + nanoseconds (bc_duration_s (b_config b2))\<rparr>
                else b2);
          (written, b4) = control_send (encode_message_header
            \<lparr>mh_type = HFIOR_MSG_STARTED, mh_size = of_nat sizeof_message_header\<rparr>) b3
      in Return (written = Some (int sizeof_message_header)) b4)"

definition barrier_message :: "nat \<Rightarrow> bool \<Rightarrow> u8 list \<Rightarrow> bridge \<Rightarrow> barrier option" where
  "barrier_message fuel mode_received bytes b =
     (if bytes = [] then Some (Return False b)
      else if length bytes < sizeof_message_header \<or>
              mh_size (decode_message_header bytes) \<noteq> of_nat (length bytes)
      then Some (Wait mode_received (upd_stats
             (\<lambda>s. s\<lparr>bs_malformed_messages := bs_malformed_messages s + 1\<rparr>) b))
      else
        let b1 = upd_stats (\<lambda>s. s\<lparr>bs_control_messages := bs_control_messages s + 1\<rparr>) b;
            type = mh_type (decode_message_header bytes)
        in if type = HFIOR_MSG_SET_MODE \<and> length bytes = sizeof_set_mode_message then
             let mode = sm_mode (decode_set_mode bytes)
             in if mode < HFIOR_MODE_HFIOR \<or> mode > HFIOR_MODE_EAGER_FRAME
                then Some (Return False b1)
                else Some (Wait True (b1\<lparr>b_mode := mode\<rparr>))
           else if type = HFIOR_MSG_START then
             if \<not> mode_received then Some (Return False b1)
             else
               case start_source fuel b1 of
                 None \<Rightarrow> None
               | Some (ok, b2) \<Rightarrow> Some (if ok then announce_start b2 else Return False b2)
           else if type = HFIOR_MSG_STOP then Some (Return True (b1\<lparr>b_stop_requested := True\<rparr>))
           else Some (Wait mode_received b1))"

fun wait_for_start_barrier :: "nat \<Rightarrow> bool \<Rightarrow> bridge \<Rightarrow> (bool \<times> bridge) option" where
  "wait_for_start_barrier 0 mode_received b = None"
| "wait_for_start_barrier (Suc fuel) mode_received b =
     (if b_stop_requested b then Some (True, b)
      else
        let (answer, b1) = poll_bridge 100 b
        in case answer of
             Poll_interrupted _ \<Rightarrow> wait_for_start_barrier fuel mode_received b1
           | Poll_failed _ \<Rightarrow> Some (False, b1)
           | Poll_timeout \<Rightarrow> wait_for_start_barrier fuel mode_received b1
           | Poll_ready revents \<Rightarrow>
               if poll_error (revents_at 0 revents) then Some (False, b1)
               else
                 let (message, b2) = on_kernel kernel_recv b1
                 in case message of
                      Received r \<Rightarrow>
                        (case barrier_message fuel mode_received (take control_buffer (rv_bytes r)) b2 of
                           None \<Rightarrow> None
                         | Some (Return ok b3) \<Rightarrow> Some (ok, b3)
                         | Some (Wait received b3) \<Rightarrow> wait_for_start_barrier fuel received b3)
                    | _ \<Rightarrow> Some (False, b2))"

section \<open>The event loop\<close>

text \<open>The timeout of the loop; the remaining time is narrowed to \<open>int\<close>.\<close>

definition poll_timeout_ms :: "u64 \<Rightarrow> u64 \<Rightarrow> int" where
  "poll_timeout_ms stop_deadline_ns now_ns =
     (if stop_deadline_ns \<noteq> 0
      then let remaining = (if stop_deadline_ns > now_ns then stop_deadline_ns - now_ns else 0);
               remaining_ms = sint (ucast (remaining div 1000000) :: u32)
           in if remaining_ms < 100 then (if remaining_ms > 0 then remaining_ms else 0) else 100
      else 100)"

text \<open>\<open>next_reconnect_ns\<close> is the local variable of \<open>main\<close>. \<open>Fatal\<close> is an exit with a failure.\<close>

datatype pass = Continue bridge u64 | Break bridge | Fatal bridge

definition reconnect_if_due :: "u64 \<Rightarrow> bridge \<Rightarrow> u64 \<Rightarrow> bridge \<times> u64" where
  "reconnect_if_due now_ns b next_reconnect_ns =
     (if bc_device_path (b_config b) \<noteq> None \<and> b_input_fd b < 0 \<and> now_ns \<ge> next_reconnect_ns
      then case try_reconnect_device b of
             (Inr _, b1) \<Rightarrow> (b1, next_reconnect_ns)
           | (Inl _, b1) \<Rightarrow> (b1, now_ns + ucast (bc_reconnect_ms (b_config b1)) * 1000000)
      else (b, next_reconnect_ns))"

definition device_lost :: "bridge \<Rightarrow> bridge \<times> u64" where
  "device_lost b =
     (let (now, b1) = bridge_now (mark_device_gone b)
      in (b1, now + ucast (bc_reconnect_ms (b_config b1)) * 1000000))"

text \<open>A readable source: the expirations of the timer are the answer of the next call.\<close>

definition source_readable :: "nat \<Rightarrow> bridge \<Rightarrow> u64 \<Rightarrow> pass option" where
  "source_readable fuel b next_reconnect_ns =
     (if bc_synthetic_rate_hz (b_config b) \<noteq> 0 then
        let (answer, b1) = on_kernel kernel_call b
        in Some (case answer of
             Returned n \<Rightarrow> Continue (emit_synthetic (word_of_int n) b1) next_reconnect_ns
           | Interrupted _ \<Rightarrow> Continue b1 next_reconnect_ns
           | Failed e \<Rightarrow> if e \<noteq> EAGAIN then Fatal b1 else Continue b1 next_reconnect_ns)
      else
        case drain_input_device fuel b of
          None \<Rightarrow> None
        | Some (Inr _, b1) \<Rightarrow> Some (Continue b1 next_reconnect_ns)
        | Some (Inl _, b1) \<Rightarrow> Some (let (b2, next) = device_lost b1 in Continue b2 next))"

definition source_failed :: "bridge \<Rightarrow> u64 \<Rightarrow> bridge \<times> u64" where
  "source_failed b next_reconnect_ns =
     (if bc_device_path (b_config b) \<noteq> None \<and> b_input_fd b \<ge> 0 then device_lost b
      else if bc_synthetic_rate_hz (b_config b) \<noteq> 0
      then (b\<lparr>b_stop_requested := True\<rparr>, next_reconnect_ns)
      else (b, next_reconnect_ns))"

definition handle_source :: "nat \<Rightarrow> u16 \<Rightarrow> bridge \<Rightarrow> u64 \<Rightarrow> pass option" where
  "handle_source fuel revents b next_reconnect_ns =
     (case (if revents AND POLLIN \<noteq> 0 then source_readable fuel b next_reconnect_ns
            else Some (Continue b next_reconnect_ns)) of
        Some (Continue b1 next) \<Rightarrow>
          Some (let (b2, next2) = (if poll_error revents then source_failed b1 next else (b1, next))
                in Continue b2 next2)
      | other \<Rightarrow> other)"

definition handle_client :: "u16 \<Rightarrow> bridge \<Rightarrow> u64 \<Rightarrow> pass" where
  "handle_client revents b next_reconnect_ns =
     (let (ok, b1) = (if revents AND POLLIN \<noteq> 0
                      then (let (result, b1) = handle_control_message b
                            in if result = Inr () then (True, b1) else (False, warn ''control socket failed'' b1))
                      else (True, b))
      in if \<not> ok \<or> poll_error revents then Break b1 else Continue b1 next_reconnect_ns)"

definition bridge_pass :: "nat \<Rightarrow> bridge \<Rightarrow> u64 \<Rightarrow> pass option" where
  "bridge_pass fuel b next_reconnect_ns =
     (let (now_ns, b1) = bridge_now b
      in if b_stop_deadline_ns b1 \<noteq> 0 \<and> now_ns \<ge> b_stop_deadline_ns b1 then Some (Break b1)
         else
           let (b2, next2) = reconnect_if_due now_ns b1 next_reconnect_ns;
               source_fd = (if bc_synthetic_rate_hz (b_config b2) \<noteq> 0
                            then b_synthetic_timer_fd b2 else b_input_fd b2);
               (answer, b3) = poll_bridge (poll_timeout_ms (b_stop_deadline_ns b2) now_ns) b2
           in case answer of
                Poll_interrupted _ \<Rightarrow> Some (Continue b3 next2)
              | Poll_failed _ \<Rightarrow> Some (Fatal b3)
              | Poll_timeout \<Rightarrow> Some (Continue b3 next2)
              | Poll_ready revents \<Rightarrow>
                  if source_fd \<ge> 0 then
                    case handle_source fuel (revents_at 0 revents) b3 next2 of
                      Some (Continue b4 next4) \<Rightarrow> Some (handle_client (revents_at 1 revents) b4 next4)
                    | other \<Rightarrow> other
                  else Some (handle_client (revents_at 0 revents) b3 next2))"

fun bridge_loop :: "nat \<Rightarrow> bridge \<Rightarrow> u64 \<Rightarrow> pass option" where
  "bridge_loop 0 b next_reconnect_ns = None"
| "bridge_loop (Suc fuel) b next_reconnect_ns =
     (if b_stop_requested b then Some (Break b)
      else
        case bridge_pass fuel b next_reconnect_ns of
          Some (Continue b1 next) \<Rightarrow> bridge_loop fuel b1 next
        | other \<Rightarrow> other)"

section \<open>The end of the run\<close>

text \<open>The wait for the last acknowledgement: until \<open>deadline\<close>.\<close>

fun wait_for_terminal_ack :: "nat \<Rightarrow> u64 \<Rightarrow> bridge \<Rightarrow> bridge option" where
  "wait_for_terminal_ack 0 deadline b = None"
| "wait_for_terminal_ack (Suc fuel) deadline b =
     (if ring_tail (b_ring b) \<ge> ring_head (b_ring b) then Some b
      else
        let (now, b1) = bridge_now b
        in if now \<ge> deadline then Some b1
           else
             let (answer, b2) = poll_bridge 5 b1
             in case answer of
                  Poll_interrupted _ \<Rightarrow> wait_for_terminal_ack fuel deadline b2
                | Poll_failed _ \<Rightarrow> Some b2
                | Poll_timeout \<Rightarrow> wait_for_terminal_ack fuel deadline b2
                | Poll_ready revents \<Rightarrow>
                    let b3 = (if revents_at 0 revents AND POLLIN \<noteq> 0
                              then snd (handle_control_message b2) else b2)
                    in if poll_error (revents_at 0 revents) then Some b3
                       else wait_for_terminal_ack fuel deadline b3)"

definition terminal_record :: "u64 \<Rightarrow> bridge \<Rightarrow> hfior_record" where
  "terminal_record now b = zero_record\<lparr>r_timestamp_ns := now, r_buttons := fa_buttons (b_frame b),
     r_flags := HFIOR_RECORD_TERMINATE\<rparr>"

definition shutdown_bridge :: "nat \<Rightarrow> bridge \<Rightarrow> bridge option" where
  "shutdown_bridge fuel b =
     (let (now, b1) = bridge_now b;
          b2 = write_urgent (publish_record (terminal_record now b1) b1);
          (start, b3) = bridge_now b2
      in case wait_for_terminal_ack fuel (start + 100000000) b3 of
           None \<Rightarrow> None
         | Some b4 \<Rightarrow>
             let (finished, b5) = bridge_now b4
             in Some (upd_stats (\<lambda>s. s\<lparr>bs_finished_ns := finished\<rparr>) b5))"

text \<open>A run after the hello; \<open>None\<close> also for a run that ends in \<open>fatal\<close>.\<close>

definition bridge_run :: "nat \<Rightarrow> bridge \<Rightarrow> bridge option" where
  "bridge_run fuel b =
     (case wait_for_start_barrier fuel False b of
        Some (True, b1) \<Rightarrow>
          (case bridge_loop fuel b1 0 of
             Some (Break b2) \<Rightarrow> shutdown_bridge fuel b2
           | _ \<Rightarrow> None)
      | _ \<Rightarrow> None)"

section \<open>The run keeps the invariant\<close>

lemma poll_bridge_core [simp]: "same_core b (snd (poll_bridge t b))"
  unfolding poll_bridge_def Let_def split_def by simp

lemma arm_synthetic_source_core [simp]: "same_core b (snd (arm_synthetic_source b))"
  unfolding arm_synthetic_source_def Let_def split_def
  by (auto split: syscall.split simp: same_core_def)

lemma start_source_core:
  assumes "start_source fuel b = Some (ok, b')"
  shows "same_core b b'"
proof (cases "bc_synthetic_rate_hz (b_config b) \<noteq> 0")
  case True
  with assms have "b' = snd (arm_synthetic_source b)"
    by (auto simp: start_source_def split_def Let_def)
  then show ?thesis by simp
next
  case False
  with assms show ?thesis
    by (auto simp: start_source_def intro: discard_pending_input_core)
qed

fun barrier_state :: "barrier \<Rightarrow> bridge" where
  "barrier_state (Wait received b) = b"
| "barrier_state (Return ok b) = b"

lemma announce_start_core [simp]: "same_core b (barrier_state (announce_start b))"
proof -
  have "same_core b (snd (control_send m c))" if "same_core b c" for m c
    using that by (rule same_core_trans) simp
  moreover have "same_core b (upd_stats (\<lambda>s. s\<lparr>bs_started_ns := t\<rparr>) (snd (bridge_now b)))" for t
    by (simp add: same_core_def counters_agree_def)
  ultimately show ?thesis
    unfolding announce_start_def Let_def split_def by simp
qed

lemma barrier_message_core:
  assumes "barrier_message fuel received bytes b = Some action"
  shows "same_core b (barrier_state action)"
proof -
  let ?b1 = "upd_stats (\<lambda>s. s\<lparr>bs_control_messages := bs_control_messages s + 1\<rparr>) b"
  have b1: "same_core b ?b1" by simp
  have start: "same_core b c" "same_core b (barrier_state (announce_start c))"
    if "start_source fuel ?b1 = Some (ok, c)" for ok c
    using same_core_trans [OF b1 start_source_core [OF that]]
      same_core_trans [OF same_core_trans [OF b1 start_source_core [OF that]] announce_start_core]
    by simp_all
  show ?thesis
    using assms start unfolding barrier_message_def Let_def
    by (auto split: if_splits option.splits)
qed

lemma wait_for_start_barrier_core:
  "wait_for_start_barrier fuel received b = Some (ok, b') \<Longrightarrow> same_core b b'"
proof (induction fuel arbitrary: received b)
  case 0
  then show ?case by simp
next
  case (Suc fuel)
  let ?b1 = "snd (poll_bridge 100 b)" and ?b2 = "snd (on_kernel kernel_recv (snd (poll_bridge 100 b)))"
  have b1: "same_core b ?b1" and b2: "same_core b ?b2"
    using same_core_trans [OF poll_bridge_core on_kernel_core] by simp_all
  have again: "same_core b b'" if "same_core b c" "wait_for_start_barrier fuel received' c = Some (ok, b')"
    for received' c
    using same_core_trans [OF that(1) Suc.IH [OF that(2)]] .
  have message: "same_core b (barrier_state action)"
    if "barrier_message fuel received bytes ?b2 = Some action" for bytes action
    using same_core_trans [OF b2 barrier_message_core [OF that]] .
  show ?case
  proof (cases "fst (poll_bridge 100 b)")
    case (Poll_ready revents)
    show ?thesis
    proof (cases "fst (kernel_recv (b_kernel ?b1))")
      case (Received r)
      show ?thesis
      proof (cases "barrier_message fuel received (take control_buffer (rv_bytes r)) ?b2")
        case None
        then show ?thesis
          using Suc.prems Poll_ready Received b1 by (auto simp: split_def Let_def split: if_splits)
      next
        case (Some action)
        show ?thesis
          using Suc.prems Poll_ready Received Some b1 message [OF Some] again
          by (cases action) (auto simp: split_def Let_def split: if_splits)
      qed
    qed (use Suc.prems Poll_ready b1 b2 in \<open>auto simp: split_def Let_def split: if_splits\<close>)
  qed (use Suc.prems again [OF b1] b1 in \<open>auto simp: split_def Let_def split: if_splits\<close>)
qed

fun pass_state :: "pass \<Rightarrow> bridge" where
  "pass_state (Continue b nx) = b"
| "pass_state (Break b) = b"
| "pass_state (Fatal b) = b"

definition pass_records :: "nat \<Rightarrow> nat" where
  "pass_records fuel = event_buffer * fuel + 1000000"

lemma reconnect_if_due_keeps: "keeps 0 b (fst (reconnect_if_due now b nx))"
  using try_reconnect_device_keeps [of b]
  by (auto simp: reconnect_if_due_def split: prod.split sum.split)

lemma device_lost_keeps: "keeps 0 b (fst (device_lost b))"
  using keeps_then0 [OF mark_device_gone_keeps keeps_core [OF bridge_now_core]]
  by (simp add: device_lost_def split_def Let_def)

lemma source_failed_keeps: "keeps 0 b (fst (source_failed b nx))"
  by (simp add: source_failed_def device_lost_keeps keeps_core)

lemma emit_synthetic_bound: "keeps 1000000 b (emit_synthetic n b)"
proof -
  have "unat (if n > 1000000 then 1000000 else n) \<le> 1000000"
    by (simp add: word_less_nat_alt)
  with funpow_keeps [OF emit_one_synthetic_keeps, of "unat (if n > 1000000 then 1000000 else n)" b]
  show ?thesis unfolding emit_synthetic_def by (auto intro: keeps_mono)
qed

lemma source_readable_keeps:
  assumes "source_readable fuel b nx = Some p"
  shows "keeps (pass_records fuel) b (pass_state p)"
proof (cases "bc_synthetic_rate_hz (b_config b) \<noteq> 0")
  case True
  let ?c = "snd (on_kernel kernel_call b)"
  have "keeps (pass_records fuel) b (emit_synthetic n ?c)" for n
    by (rule keeps_mono [OF core_then [OF on_kernel_core emit_synthetic_bound]])
      (simp add: pass_records_def)
  moreover have "keeps (pass_records fuel) b ?c"
    using keeps_mono [OF keeps_core [OF on_kernel_core]] by simp
  ultimately show ?thesis
    using assms True by (auto simp: source_readable_def split_def Let_def split: syscall.splits if_splits)
next
  case False
  then obtain r c where d: "drain_input_device fuel b = Some (r, c)"
    using assms by (auto simp: source_readable_def split: option.splits)
  have c: "keeps (pass_records fuel) b c"
    using keeps_mono [OF drain_input_device_keeps [OF d]] by (simp add: pass_records_def)
  then show ?thesis
    using assms False d keeps_then0 [OF c device_lost_keeps]
    by (cases r) (auto simp: source_readable_def split_def Let_def)
qed

lemma handle_source_keeps:
  assumes "handle_source fuel revents b nx = Some p"
  shows "keeps (pass_records fuel) b (pass_state p)"
proof -
  let ?read = "if revents AND POLLIN \<noteq> 0 then source_readable fuel b nx else Some (Continue b nx)"
  obtain q where q: "?read = Some q"
    using assms by (cases ?read) (auto simp: handle_source_def)
  then have k: "keeps (pass_records fuel) b (pass_state q)"
    using source_readable_keeps by (auto split: if_splits)
  have failed: "keeps (pass_records fuel) b (fst (source_failed c nx'))"
    if "keeps (pass_records fuel) b c" for c nx'
    using keeps_then0 [OF that source_failed_keeps] .
  show ?thesis
    using assms k failed unfolding handle_source_def q
    by (cases q) (auto simp: split_def Let_def)
qed

lemma handle_client_keeps: "keeps 0 b (pass_state (handle_client revents b nx))"
proof -
  have "keeps 0 b (warn what (snd (handle_control_message b)))" for what
    using keeps_then0 [OF handle_control_message_keeps keeps_core [OF warn_core]] .
  then show ?thesis
    using handle_control_message_keeps [of b]
    by (auto simp: handle_client_def split_def Let_def)
qed

lemma bridge_pass_keeps:
  assumes "bridge_pass fuel b nx = Some p"
  shows "keeps (pass_records fuel) b (pass_state p)"
proof -
  let ?b1 = "snd (bridge_now b)"
  let ?b2 = "fst (reconnect_if_due (fst (bridge_now b)) ?b1 nx)"
  let ?b3 = "snd (poll_bridge (poll_timeout_ms (b_stop_deadline_ns ?b2) (fst (bridge_now b))) ?b2)"
  have k1: "keeps (pass_records fuel) b ?b1"
    using keeps_mono [OF keeps_core [OF bridge_now_core]] by simp
  have k3: "keeps 0 b ?b3"
    using keeps_then0 [OF core_then [OF bridge_now_core reconnect_if_due_keeps]
        keeps_core [OF poll_bridge_core]] .
  have kc: "keeps (pass_records fuel) b (pass_state (handle_client revents c nx'))"
    if "keeps (pass_records fuel) b c" for revents c nx'
    using keeps_then0 [OF that handle_client_keeps] .
  have ks: "keeps (pass_records fuel) b (pass_state q)"
    if "handle_source fuel revents ?b3 nx' = Some q" for revents nx' q
    using keeps_trans0 [OF k3 handle_source_keeps [OF that]] .
  have k3': "keeps (pass_records fuel) b ?b3" using keeps_mono [OF k3] by simp
  show ?thesis
    using assms k1 k3' kc [OF k3'] kc ks
    by (fastforce simp: bridge_pass_def Let_def split_def split: if_splits poll_answer.splits
        option.splits pass.splits)
qed

lemma bridge_loop_keeps:
  "bridge_loop fuel b nx = Some p \<Longrightarrow> keeps (fuel * pass_records fuel) b (pass_state p)"
proof (induction fuel arbitrary: b nx)
  case 0
  then show ?case by simp
next
  case (Suc fuel)
  have mono: "pass_records fuel \<le> pass_records (Suc fuel)" by (simp add: pass_records_def)
  show ?case
  proof (cases "b_stop_requested b")
    case True
    then show ?thesis using Suc.prems by auto
  next
    case False
    then obtain q where q: "bridge_pass fuel b nx = Some q"
      using Suc.prems by (cases "bridge_pass fuel b nx") auto
    note one = keeps_mono [OF bridge_pass_keeps [OF q] mono]
    show ?thesis
    proof (cases q)
      case (Continue c nx')
      then have "keeps (fuel * pass_records fuel) c (pass_state p)"
        using Suc.prems False q by (intro Suc.IH) auto
      then have "keeps (fuel * pass_records (Suc fuel)) c (pass_state p)"
        by (rule keeps_mono) (use mono in simp)
      then show ?thesis using keeps_trans [of "pass_records (Suc fuel)" b c] one Continue by simp
    qed (use Suc.prems False q keeps_mono [OF one] in auto)
  qed
qed

lemma wait_for_terminal_ack_keeps: "wait_for_terminal_ack fuel deadline b = Some b' \<Longrightarrow> keeps 0 b b'"
proof (induction fuel arbitrary: b)
  case 0
  then show ?case by simp
next
  case (Suc fuel)
  let ?b1 = "snd (bridge_now b)" and ?b2 = "snd (poll_bridge 5 (snd (bridge_now b)))"
  have b2: "same_core b ?b2" using same_core_trans [OF bridge_now_core poll_bridge_core] .
  have handled: "keeps 0 b (snd (handle_control_message ?b2))"
    using core_then [OF b2 handle_control_message_keeps] .
  have again: "keeps 0 b b'" if "keeps 0 b c" "wait_for_terminal_ack fuel deadline c = Some b'" for c
    using keeps_trans0 [OF that(1) Suc.IH [OF that(2)]] .
  show ?case
    using Suc.prems again [OF keeps_core [OF b2]] again [OF handled] handled
      keeps_core [OF b2] keeps_core [OF bridge_now_core, of b]
    by (cases "fst (poll_bridge 5 ?b1)") (auto simp: split_def Let_def split: if_splits)
qed

lemma shutdown_bridge_keeps:
  assumes "shutdown_bridge fuel b = Some b'"
  shows "keeps 1 b b'"
proof -
  let ?r = "terminal_record (fst (bridge_now b)) (snd (bridge_now b))"
  let ?b2 = "write_urgent (publish_record ?r (snd (bridge_now b)))"
  obtain b4 where w: "wait_for_terminal_ack fuel (fst (bridge_now ?b2) + 100000000) (snd (bridge_now ?b2)) = Some b4"
    and b': "b' = upd_stats (\<lambda>s. s\<lparr>bs_finished_ns := fst (bridge_now b4)\<rparr>) (snd (bridge_now b4))"
    using assms by (auto simp: shutdown_bridge_def Let_def split_def split: option.splits)
  have "keeps 1 b ?b2"
    using keeps_then0 [OF core_then [OF bridge_now_core publish_record_keeps] write_urgent_keeps] .
  then have "keeps 1 b (snd (bridge_now ?b2))"
    using keeps_then0 keeps_core [OF bridge_now_core] by blast
  then have "keeps 1 b b4"
    using keeps_then0 wait_for_terminal_ack_keeps [OF w] by blast
  moreover have "same_core b4 b'" unfolding b' by (simp add: same_core_def counters_agree_def)
  ultimately show ?thesis using keeps_then0 keeps_core by blast
qed

lemma bridge_run_keeps:
  assumes "bridge_run fuel b = Some b'"
  shows "keeps (fuel * pass_records fuel + 1) b b'"
proof -
  obtain b1 b2 where b: "wait_for_start_barrier fuel False b = Some (True, b1)"
    "bridge_loop fuel b1 0 = Some (Break b2)" "shutdown_bridge fuel b2 = Some b'"
    using assms by (auto simp: bridge_run_def split: option.splits bool.splits pass.splits prod.splits)
  show ?thesis
    using core_then [OF wait_for_start_barrier_core [OF b(1)]
        keeps_trans [OF bridge_loop_keeps [OF b(2)] shutdown_bridge_keeps [unfolded pass_state.simps]]]
      b(3) by simp
qed

section \<open>The fresh bridge\<close>

lemma initialize_ring_inv:
  assumes "b_stats b = zero_stats" "initialize_ring b = (Inr (), b')"
  shows "bridge_inv [] b'" "attempts b' = 0"
proof -
  obtain ring now where r: "hfior_initialize_mapping (Some (b_ring b))
        (b_mapping_size b) (bc_capacity (b_config b))
        (bridge_features (b_config b)) (Some (b_device_name b))
        (id_bustype (b_input_id b)) (id_vendor (b_input_id b)) (id_product (b_input_id b))
        (id_version (b_input_id b)) (b_generation b) now = Inr ring"
    and b': "b' = (snd (bridge_now b))\<lparr>b_ring := ring\<rparr>"
    using assms(2)
    by (auto simp: initialize_ring_def Let_def split_def bridge_now_def on_kernel_def split: sum.splits)
  have "counters_agree zero_stats ring \<and> pl_generation (producer ring) = b_generation b"
    using counters_agree_initial [OF r] .
  then show "bridge_inv [] b'" "attempts b' = 0"
    using assms(1) ring_hist_initial [OF r]
    by (simp_all add: b' bridge_inv_def log_ordered_def attempts_def zero_stats_def)
qed

lemma on_kernel_core_then: "same_core b c \<Longrightarrow> same_core b (snd (on_kernel ask c))"
  by (erule same_core_trans) simp

lemma accept_core: "same_core b (snd (accept_client_and_send_hello accepted credentials getfl setfl pid b))"
  unfolding accept_client_and_send_hello_def Let_def split_def
  by (auto split: option.split sum.split simp: on_kernel_core_then)

text \<open>The sequence numbers missing from the log are those of the records dropped.\<close>

lemma missing_sequences:
  assumes inv: "bridge_inv rlog b" and room: "attempts b + 1 < 2 ^ 64"
  shows "card ({1..attempts b} - (unat \<circ> r_sequence) ` set rlog) = unat (bs_ring_drops (b_stats b))"
proof -
  let ?s = "b_stats b" and ?S = "(unat \<circ> r_sequence) ` set rlog"
  have "pl_next_sequence (producer (b_ring b)) = bs_records_attempted ?s + 1"
    using inv by (simp add: bridge_inv_def counters_agree_def)
  then have nxt: "unat (pl_next_sequence (producer (b_ring b))) = attempts b + 1"
    using room by (simp add: attempts_def unat_Suc_small)
  have order: "log_ordered rlog (pl_next_sequence (producer (b_ring b)))"
    and sum: "bs_records_attempted ?s = bs_records_published ?s + bs_ring_drops ?s"
    and pub: "unat (bs_records_published ?s) = length rlog"
    using inv unfolding bridge_inv_def counters_agree_def ring_hist_def by metis+
  have sub: "?S \<subseteq> {1..attempts b}"
    using order nxt by (force simp: log_ordered_def word_less_nat_alt)
  have "distinct (map r_sequence rlog)"
    using order by (auto simp: log_ordered_def strict_sorted_iff)
  then have "distinct (map (unat \<circ> r_sequence) rlog)"
    by (auto simp: distinct_map inj_on_def intro: unsigned_word_eqI)
  then have card: "card ?S = length rlog"
    using distinct_card [of "map (unat \<circ> r_sequence) rlog"] by simp
  have "bs_records_published ?s \<le> bs_records_attempted ?s"
    using pub bridge_inv_length [OF inv room] by (simp add: word_le_nat_alt attempts_def)
  moreover have "bs_ring_drops ?s = bs_records_attempted ?s - bs_records_published ?s"
    using sum by simp
  ultimately have "unat (bs_ring_drops ?s) = attempts b - length rlog"
    using pub by (simp add: unat_sub_le attempts_def)
  then show ?thesis
    using card sub by (simp add: card_Diff_subset finite_subset [OF sub])
qed

section \<open>Properties\<close>

text \<open>What a run accounts for, from a bridge whose ring is fresh.\<close>

lemma run_accounts:
  assumes inv: "bridge_inv [] b2" "attempts b2 = 0" and run: "bridge_run fuel b2 = Some b3" "fuel \<le> 2 ^ 27"
  shows "\<exists>published.
    ring_hist (b_ring b3) published \<and>
    sorted_wrt (<) (map r_sequence published) \<and>
    length published = unat (bs_records_published (b_stats b3)) \<and>
    card ({1..unat (bs_records_attempted (b_stats b3))} - (unat \<circ> r_sequence) ` set published) =
      unat (bs_ring_drops (b_stats b3)) \<and>
    ring_head (b_ring b3) = bs_records_published (b_stats b3) \<and>
    ring_dropped (b_ring b3) = bs_ring_drops (b_stats b3)"
proof -
  have "fuel * pass_records fuel + 1 \<le> 2 ^ 27 * pass_records (2 ^ 27) + 1"
    using run(2) by (intro add_mono mult_mono) (simp_all add: pass_records_def event_buffer_def)
  then have room: "attempts b2 + (fuel * pass_records fuel + 1) + 1 < 2 ^ 64"
    using inv(2) by (simp add: pass_records_def event_buffer_def)
  from keepsD [OF bridge_run_keeps [OF run(1)] inv(1) room] obtain rs
    where rs: "bridge_inv rs b3" "attempts b3 \<le> attempts b2 + (fuel * pass_records fuel + 1)"
    by auto
  have missing: "card ({1..attempts b3} - (unat \<circ> r_sequence) ` set rs) =
      unat (bs_ring_drops (b_stats b3))"
    using missing_sequences [OF rs(1)] rs(2) room by simp
  have "ring_hist (b_ring b3) rs" "log_ordered rs (pl_next_sequence (producer (b_ring b3)))"
    "counters_agree (b_stats b3) (b_ring b3)"
    using rs(1) by (simp_all add: bridge_inv_def)
  then show ?thesis
    using missing
    by (intro exI [of _ rs]) (auto simp: ring_hist_def log_ordered_def counters_agree_def attempts_def)
qed

text \<open>C2: A whole run of the bridge, from a fresh mapping over the hello, the start barrier and
  the event loop to the terminal record, accounts for every record: what was published is a log
  whose newest records are in the shared ring, with strictly increasing sequence numbers; the
  sequence numbers missing from it are as many as the drops counted, in the statistics and in the
  mapping; and the shared head is the number of records published. The fuel bounds the passes of
  the loops, so that fewer than \<open>2^64\<close> records are attempted.\<close>

theorem bridge_run_accounts:
  assumes "b_stats b = zero_stats" "initialize_ring b = (Inr (), b1)"
    "accept_client_and_send_hello accepted credentials getfl setfl pid b1 = (True, b2)"
    "bridge_run fuel b2 = Some b3" "fuel \<le> 2 ^ 27"
  shows "\<exists>published.
    ring_hist (b_ring b3) published \<and>
    sorted_wrt (<) (map r_sequence published) \<and>
    length published = unat (bs_records_published (b_stats b3)) \<and>
    card ({1..unat (bs_records_attempted (b_stats b3))} - (unat \<circ> r_sequence) ` set published) =
      unat (bs_ring_drops (b_stats b3)) \<and>
    ring_head (b_ring b3) = bs_records_published (b_stats b3) \<and>
    ring_dropped (b_ring b3) = bs_ring_drops (b_stats b3)"
proof -
  have init: "bridge_inv [] b1" "attempts b1 = 0"
    using initialize_ring_inv [OF assms(1,2)] by simp_all
  have "same_core b1 b2" using accept_core [of b1] assms(3) by (metis snd_conv)
  then have inv: "bridge_inv [] b2" "attempts b2 = 0"
    using init by (simp_all add: same_core_def bridge_inv_def attempts_def)
  from run_accounts [OF inv assms(4,5)] show ?thesis .
qed

text \<open>A run for evaluation: the client is greeted, then a signal stops the bridge.\<close>

definition stopping_kernel :: kernel where
  "stopping_kernel = quiet_kernel\<lparr>k_calls := (\<lambda>n. Returned (if n = 0 then 40 else 8)),
     k_polls := (\<lambda>_. Poll_interrupted True)\<rparr>"

definition demo_initialized :: bridge where
  "demo_initialized = snd (initialize_ring (demo_bridge stopping_kernel))"

definition demo_greeted :: bridge where
  "demo_greeted = snd (accept_client_and_send_hello (Some 9)
     (Inr \<lparr>uc_pid = 77, uc_uid = 1000, uc_gid = 1000\<rparr>) (Some 2) Some 42 demo_initialized)"

lemma demo_setup:
  "b_stats (demo_bridge k) = zero_stats"
  "initialize_ring (demo_bridge stopping_kernel) = (Inr (), demo_initialized)"
  "accept_client_and_send_hello (Some 9) (Inr \<lparr>uc_pid = 77, uc_uid = 1000, uc_gid = 1000\<rparr>)
     (Some 2) Some 42 demo_initialized = (True, demo_greeted)"
proof -
  have "fst (initialize_ring (demo_bridge stopping_kernel)) = Inr ()" by code_simp
  then show "initialize_ring (demo_bridge stopping_kernel) = (Inr (), demo_initialized)"
    by (simp add: demo_initialized_def prod_eq_iff)
  have "fst (accept_client_and_send_hello (Some 9) (Inr \<lparr>uc_pid = 77, uc_uid = 1000, uc_gid = 1000\<rparr>)
     (Some 2) Some 42 demo_initialized)" by code_simp
  then show "accept_client_and_send_hello (Some 9) (Inr \<lparr>uc_pid = 77, uc_uid = 1000, uc_gid = 1000\<rparr>)
     (Some 2) Some 42 demo_initialized = (True, demo_greeted)"
    by (simp add: demo_greeted_def prod_eq_iff)
qed (simp add: demo_bridge_def)

definition demo_stopped :: bridge where
  "demo_stopped = snd (the (wait_for_start_barrier 3 False demo_greeted))"

definition demo_terminal :: bridge where
  "demo_terminal = write_urgent (publish_record
     (terminal_record (fst (bridge_now demo_stopped)) (snd (bridge_now demo_stopped)))
     (snd (bridge_now demo_stopped)))"

lemma demo_run: "bridge_run 3 demo_greeted = Some (the (bridge_run 3 demo_greeted))"
proof -
  have "\<not> Option.is_none (wait_for_start_barrier 3 False demo_greeted)"
    "fst (the (wait_for_start_barrier 3 False demo_greeted))" by code_simp+
  then have 1: "wait_for_start_barrier 3 False demo_greeted = Some (True, demo_stopped)"
    by (cases "wait_for_start_barrier 3 False demo_greeted") (auto simp: demo_stopped_def prod_eq_iff)
  have "b_stop_requested demo_stopped" by code_simp
  then have 2: "bridge_loop 3 demo_stopped 0 = Some (Break demo_stopped)"
    by (simp add: eval_nat_numeral)
  let ?w = "wait_for_terminal_ack 3 (fst (bridge_now demo_terminal) + 100000000) (snd (bridge_now demo_terminal))"
  have "shutdown_bridge 3 demo_stopped \<noteq> None" if "?w \<noteq> None"
    using that by (auto simp: shutdown_bridge_def Let_def split_def demo_terminal_def)
  moreover have "\<not> Option.is_none ?w" by code_simp
  then have "?w \<noteq> None" by (cases ?w) simp_all
  ultimately show ?thesis by (auto simp: bridge_run_def 1 2)
qed

lemma bridge_run_accounts_witness:
  "\<exists>published. ring_hist (b_ring (the (bridge_run 3 demo_greeted))) published \<and>
     length published = unat (bs_records_published (b_stats (the (bridge_run 3 demo_greeted))))"
  using bridge_run_accounts [OF demo_setup demo_run] by auto

section \<open>The bounded waits\<close>

definition clock_at :: "bridge \<Rightarrow> nat \<Rightarrow> u64" where
  "clock_at b i = fst (hfior_now_ns CLOCK_MONOTONIC ((b_kernel b)\<lparr>k_clock_reads := i\<rparr>))"

definition clock_forward :: "bridge \<Rightarrow> bridge \<Rightarrow> bool" where
  "clock_forward b c \<longleftrightarrow> k_clock (b_kernel c) = k_clock (b_kernel b) \<and>
     k_clock_reads (b_kernel b) \<le> k_clock_reads (b_kernel c)"

lemma clock_forward_trans: "clock_forward a b \<Longrightarrow> clock_forward b c \<Longrightarrow> clock_forward a c"
  by (simp add: clock_forward_def)

lemma clock_forward_on_kernel:
  "clock_forward b (snd (on_kernel kernel_call b))" "clock_forward b (snd (on_kernel kernel_recv b))"
  "clock_forward b (snd (bridge_now b))" "clock_forward b (snd (poll_bridge t b))"
  by (simp_all add: clock_forward_def kernel_ask_defs bridge_now_def hfior_now_ns_def poll_bridge_def
      split_def Let_def)

lemma clock_forward_write_urgent: "clock_forward b (write_urgent b)"
  by (simp add: write_urgent_def clock_forward_def kernel_ask_defs split_def Let_def warn_def
      split: syscall.split)

lemma clock_forward_handle_message: "clock_forward b (handle_message bytes b)"
proof -
  have "clock_forward b (handle_ack ack b)" for ack
    using clock_forward_write_urgent
      [of "upd_stats (\<lambda>s. s\<lparr>bs_invalid_acknowledgements := bs_invalid_acknowledgements s + 1\<rparr>) b"]
    by (simp add: handle_ack_def Let_def split_def clock_forward_def bridge_now_def hfior_now_ns_def)
  then show ?thesis
    by (simp add: handle_message_def Let_def control_send_def split_def clock_forward_def kernel_ask_defs
        split: syscall.split)
qed

lemma clock_forward_handle: "clock_forward b (snd (handle_control_message b))"
proof -
  have "clock_forward b (handle_message bytes (upd_stats f (snd (on_kernel kernel_recv b))))" for bytes f
    using clock_forward_handle_message [of "upd_stats f (snd (on_kernel kernel_recv b))" bytes]
      clock_forward_on_kernel(2) [of b]
    by (simp add: clock_forward_def)
  then show ?thesis
    unfolding handle_control_message_def Let_def split_def
    using clock_forward_on_kernel(2) [of b]
    by (simp add: clock_forward_def split: receipt.split)
qed

text \<open>C32: The wait for the last acknowledgement ends: once the clock stays at or past the deadline
  after at most \<open>n\<close> more readings, the wait returns within \<open>n + 1\<close> passes, whatever the client
  sends and however often the wait is interrupted.\<close>

theorem wait_for_terminal_ack_returns:
  assumes "\<And>i. m \<le> i \<Longrightarrow> deadline \<le> clock_at b i" "m \<le> k_clock_reads (b_kernel b) + n"
  shows "\<exists>b'. wait_for_terminal_ack (Suc n) deadline b = Some b'"
  using assms
proof (induction n arbitrary: b)
  case 0
  then have "deadline \<le> fst (bridge_now b)"
    using "0.prems"(1) [of "k_clock_reads (b_kernel b)"]
    by (simp add: clock_at_def bridge_now_def on_kernel_def split_def Let_def)
  then show ?case by (simp add: split_def Let_def)
next
  case (Suc n)
  let ?b1 = "snd (bridge_now b)" and ?b2 = "snd (poll_bridge 5 (snd (bridge_now b)))"
  have reads: "k_clock_reads (b_kernel ?b1) = Suc (k_clock_reads (b_kernel b))"
    by (simp add: bridge_now_def hfior_now_ns_def)
  have b2: "clock_forward ?b1 ?b2" "clock_forward ?b1 (snd (handle_control_message ?b2))"
    using clock_forward_on_kernel(4) [of ?b1 5] clock_forward_trans [OF _ clock_forward_handle]
    by simp_all
  have clock: "k_clock (b_kernel ?b1) = k_clock (b_kernel b)"
    using clock_forward_on_kernel(3) [of b] by (simp add: clock_forward_def)
  have again: "\<exists>b'. wait_for_terminal_ack (Suc n) deadline c = Some b'" if "clock_forward ?b1 c" for c
  proof (rule Suc.IH)
    show "deadline \<le> clock_at c i" if "m \<le> i" for i
      using Suc.prems(1) [OF that] \<open>clock_forward ?b1 c\<close> clock
      by (simp add: clock_at_def hfior_now_ns_def clock_forward_def)
    show "m \<le> k_clock_reads (b_kernel c) + n"
      using Suc.prems(2) that reads by (simp add: clock_forward_def)
  qed
  note a1 = again [OF b2(1)] and a2 = again [OF b2(2)]
  show ?case
    using a1 a2 by (subst wait_for_terminal_ack.simps(2))
      (auto simp: split_def Let_def simp del: wait_for_terminal_ack.simps split: poll_answer.split)
qed

lemma wait_for_terminal_ack_returns_witness:
  "\<exists>b'. wait_for_terminal_ack (Suc 0) 2000000000
     (demo_bridge (quiet_kernel\<lparr>k_clock := (\<lambda>_ _. Some (5, 0))\<rparr>)) = Some b'"
proof (rule wait_for_terminal_ack_returns [of 0])
  show "2000000000 \<le> clock_at (demo_bridge (quiet_kernel\<lparr>k_clock := (\<lambda>_ _. Some (5, 0))\<rparr>)) i" for i
    by (simp add: clock_at_def demo_bridge_def hfior_now_ns_def quiet_kernel_def)
qed simp

lemma sint_ucast_small:
  assumes "unat w < 2 ^ 31"
  shows "sint (ucast (w :: u64) :: u32) = int (unat w)"
proof -
  have u: "(ucast w :: u32) = word_of_int (int (unat w))" by simp
  show ?thesis
    unfolding u sint_sbintrunc' using assms
    by (subst signed_take_bit_int_eq_self) (simp_all del: of_nat_unat)
qed

text \<open>As long as less than \<open>2^31\<close> milliseconds remain, the event loop sleeps until the
  deadline, to the millisecond, or for 100 milliseconds, whichever is shorter.\<close>

theorem poll_timeout_within:
  assumes "stop_deadline_ns \<noteq> 0" "(unat stop_deadline_ns - unat now_ns) div 1000000 < 2 ^ 31"
  shows "poll_timeout_ms stop_deadline_ns now_ns =
    int (min 100 ((unat stop_deadline_ns - unat now_ns) div 1000000))"
proof -
  let ?r = "(if stop_deadline_ns > now_ns then stop_deadline_ns - now_ns else 0) div 1000000"
  have r: "unat ?r = (unat stop_deadline_ns - unat now_ns) div 1000000"
  proof (cases "stop_deadline_ns > now_ns")
    case True
    then show ?thesis using unat_sub_le [of now_ns stop_deadline_ns] by (simp add: unat_div)
  next
    case False
    then show ?thesis by (simp add: word_less_nat_alt)
  qed
  have "sint (ucast ?r :: u32) = int (unat ?r)"
    using assms(2) r by (intro sint_ucast_small) (simp only:)
  then show ?thesis
    using assms(1) unfolding poll_timeout_ms_def Let_def r by (simp add: min_def)
qed

lemma poll_timeout_within_witness:
  "poll_timeout_ms 5000000 1500000 = 3"
  using poll_timeout_within [of 5000000 1500000] by simp

text \<open>The remaining time is narrowed to \<open>int\<close> first: with between \<open>2^31\<close> and \<open>2^32\<close>
  milliseconds to go (a duration of more than 24.8 days) the timeout is 0, and the event loop
  polls without sleeping.\<close>

lemma poll_timeout_narrowed:
  assumes "2 ^ 31 \<le> (unat stop_deadline_ns - unat now_ns) div 1000000"
    "(unat stop_deadline_ns - unat now_ns) div 1000000 < 2 ^ 32"
  shows "poll_timeout_ms stop_deadline_ns now_ns = 0"
proof -
  have gt: "now_ns < stop_deadline_ns"
    using assms(1) by (cases "now_ns < stop_deadline_ns") (simp_all add: word_less_nat_alt)
  let ?r = "(stop_deadline_ns - now_ns) div 1000000"
  have r: "unat ?r = (unat stop_deadline_ns - unat now_ns) div 1000000"
    using gt by (simp add: unat_div unat_sub_le)
  have u: "(ucast ?r :: u32) = word_of_int (int (unat ?r))" by simp
  let ?k = "int (unat ?r)"
  have k: "2 ^ 31 \<le> ?k" "?k < 2 ^ 32" using assms r by simp_all
  have "sint (ucast ?r :: u32) = signed_take_bit 31 ?k"
    unfolding u sint_sbintrunc' by simp
  also have "\<dots> = (?k + 2 ^ 31) mod 2 ^ 32 - 2 ^ 31"
    by (simp add: signed_take_bit_eq_take_bit_shift take_bit_eq_mod)
  also have "(?k + 2 ^ 31) mod 2 ^ 32 = ?k + 2 ^ 31 - 2 ^ 32"
    using k by (subst mod_pos_geq) (simp_all add: mod_pos_pos_trivial)
  finally have "sint (ucast ?r :: u32) < 0" using k(2) by simp
  then show ?thesis using gt by (auto simp: poll_timeout_ms_def Let_def)
qed

lemma poll_timeout_narrowed_witness: "poll_timeout_ms 3000000000000000 0 = 0"
  using poll_timeout_narrowed [of 3000000000000000 0] by simp

end
