(* ===== verification/Frames.thy ===== *)
theory Frames
  imports Bridge_Invariant
begin

text \<open>
  What the bridge's input path computes: a frame reports the net motion and wheel movement
  of its events, clamped to the fields of the record, the high-resolution wheel taking
  precedence over the coarse one; buttons follow the last event of their code; an
  acknowledgement frees exactly the records it covers; and urgent publications are
  signalled.
\<close>

section \<open>Sums of a frame\<close>

definition is_rel :: "u16 \<Rightarrow> input_event \<Rightarrow> bool" where
  "is_rel code e \<longleftrightarrow> ev_type e = EV_REL \<and> ev_code e = code"

definition event_sum :: "u16 \<Rightarrow> input_event list \<Rightarrow> int" where
  "event_sum code events = sum_list (map (sint \<circ> ev_value) (filter (is_rel code) events))"

text \<open>The wheel movement meant: that of the high-resolution events, if there are any.\<close>

definition wheel_sum :: "u16 \<Rightarrow> u16 \<Rightarrow> input_event list \<Rightarrow> int" where
  "wheel_sum coarse fine events =
     (if \<exists>e \<in> set events. is_rel fine e then event_sum fine events else event_sum coarse events)"

lemma event_sum_simps [simp]:
  "event_sum code [] = 0"
  "event_sum code (e # es) = (if is_rel code e then sint (ev_value e) else 0) + event_sum code es"
  by (simp_all add: event_sum_def)

lemma event_sum_bound: "\<bar>event_sum code es\<bar> \<le> int (length es) * 2 ^ 31"
proof (induction es)
  case Nil
  show ?case by simp
next
  case (Cons e es)
  have "- (2 ^ 31) \<le> sint (ev_value e)" "sint (ev_value e) < 2 ^ 31"
    using sint_ge [of "ev_value e"] sint_lt [of "ev_value e"] by simp_all
  with Cons.IH show ?case by (auto simp: algebra_simps)
qed

lemma rel_codes_apart [simp]:
  "is_rel REL_X e \<Longrightarrow> \<not> is_rel REL_Y e" "is_rel REL_X e \<Longrightarrow> \<not> is_rel REL_WHEEL e"
  "is_rel REL_X e \<Longrightarrow> \<not> is_rel REL_HWHEEL e" "is_rel REL_Y e \<Longrightarrow> \<not> is_rel REL_WHEEL e"
  by (simp_all add: is_rel_def event_code_defs)

lemma accumulate_motion:
  "fa_dx (accumulate e f) = fa_dx f + (if is_rel REL_X e then scast (ev_value e) else 0)"
  "fa_dy (accumulate e f) = fa_dy f + (if is_rel REL_Y e then scast (ev_value e) else 0)"
  by (simp_all add: accumulate_def accumulate_rel_def accumulate_key_def Let_def is_rel_def
      event_code_defs)

lemma accumulate_wheel:
  "fa_wheel_hires_seen (accumulate e f) = (fa_wheel_hires_seen f \<or> is_rel REL_WHEEL_HI_RES e)"
  "fa_wheel (accumulate e f) =
     (if is_rel REL_WHEEL_HI_RES e
      then (if fa_wheel_hires_seen f then fa_wheel f else 0) + scast (ev_value e)
      else if is_rel REL_WHEEL e \<and> \<not> fa_wheel_hires_seen f
      then fa_wheel f + scast (ev_value e) else fa_wheel f)"
  by (simp_all add: accumulate_def accumulate_rel_def accumulate_key_def Let_def is_rel_def
      event_code_defs)

lemma accumulate_hwheel:
  "fa_hwheel_hires_seen (accumulate e f) = (fa_hwheel_hires_seen f \<or> is_rel REL_HWHEEL_HI_RES e)"
  "fa_hwheel (accumulate e f) =
     (if is_rel REL_HWHEEL_HI_RES e
      then (if fa_hwheel_hires_seen f then fa_hwheel f else 0) + scast (ev_value e)
      else if is_rel REL_HWHEEL e \<and> \<not> fa_hwheel_hires_seen f
      then fa_hwheel f + scast (ev_value e) else fa_hwheel f)"
  by (simp_all add: accumulate_def accumulate_rel_def accumulate_key_def Let_def is_rel_def
      event_code_defs)

lemma fold_motion:
  "fa_dx (fold accumulate es f) = fa_dx f + word_of_int (event_sum REL_X es)"
  "fa_dy (fold accumulate es f) = fa_dy f + word_of_int (event_sum REL_Y es)"
  by (induction es arbitrary: f) (simp_all add: accumulate_motion)

lemma fold_wheel:
  "fa_wheel (fold accumulate es f) =
     (if fa_wheel_hires_seen f then fa_wheel f + word_of_int (event_sum REL_WHEEL_HI_RES es)
      else if \<exists>e \<in> set es. is_rel REL_WHEEL_HI_RES e then word_of_int (event_sum REL_WHEEL_HI_RES es)
      else fa_wheel f + word_of_int (event_sum REL_WHEEL es))"
proof (induction es arbitrary: f)
  case Nil
  show ?case by simp
next
  case (Cons e es)
  have "\<not> (is_rel REL_WHEEL e \<and> is_rel REL_WHEEL_HI_RES e)"
    by (simp add: is_rel_def event_code_defs)
  then show ?case by (auto simp: Cons.IH accumulate_wheel)
qed

lemma fold_hwheel:
  "fa_hwheel (fold accumulate es f) =
     (if fa_hwheel_hires_seen f then fa_hwheel f + word_of_int (event_sum REL_HWHEEL_HI_RES es)
      else if \<exists>e \<in> set es. is_rel REL_HWHEEL_HI_RES e then word_of_int (event_sum REL_HWHEEL_HI_RES es)
      else fa_hwheel f + word_of_int (event_sum REL_HWHEEL es))"
proof (induction es arbitrary: f)
  case Nil
  show ?case by simp
next
  case (Cons e es)
  have "\<not> (is_rel REL_HWHEEL e \<and> is_rel REL_HWHEEL_HI_RES e)"
    by (simp add: is_rel_def event_code_defs)
  then show ?case by (auto simp: Cons.IH accumulate_hwheel)
qed

text \<open>Clamping to a field of the record.\<close>

definition clip :: "int \<Rightarrow> int \<Rightarrow> int \<Rightarrow> int" where
  "clip low high v = max low (min high v)"

lemma sint_i64: "\<bar>v\<bar> < 2 ^ 63 \<Longrightarrow> sint (word_of_int v :: i64) = v"
  unfolding sint_sbintrunc' by (subst signed_take_bit_int_eq_self) simp_all

lemma sint_ucast_i64_i32:
  assumes "- (2 ^ 31) \<le> sint w" "sint w < 2 ^ 31"
  shows "sint (ucast (w :: i64) :: u32) = sint w"
proof -
  have "(ucast w :: u32) = word_of_int (sint w)"
    by (rule bit_word_eqI) (simp add: bit_simps)
  then have "sint (ucast w :: u32) = signed_take_bit 31 (sint w)"
    by (simp only: sint_sbintrunc') simp
  then show ?thesis using assms by (simp add: signed_take_bit_int_eq_self)
qed

lemma sint_ucast_i64_i16:
  assumes "- (2 ^ 15) \<le> sint w" "sint w < 2 ^ 15"
  shows "sint (ucast (w :: i64) :: u16) = sint w"
proof -
  have "(ucast w :: u16) = word_of_int (sint w)"
    by (rule bit_word_eqI) (simp add: bit_simps)
  then have "sint (ucast w :: u16) = signed_take_bit 15 (sint w)"
    by (simp only: sint_sbintrunc') simp
  then show ?thesis using assms by (simp add: signed_take_bit_int_eq_self)
qed

lemma clamp_fields:
  assumes "\<bar>v\<bar> < 2 ^ 63"
  shows "sint (ucast (clamp_i64 (word_of_int v) INT32_MIN INT32_MAX) :: u32) = clip (- (2 ^ 31)) (2 ^ 31 - 1) v"
    "sint (ucast (clamp_i64 (word_of_int v) INT16_MIN INT16_MAX) :: u16) = clip (- (2 ^ 15)) (2 ^ 15 - 1) v"
proof -
  have limits: "sint INT32_MIN = - (2 ^ 31)" "sint INT32_MAX = 2 ^ 31 - 1"
    "sint INT16_MIN = - (2 ^ 15)" "sint INT16_MAX = 2 ^ 15 - 1"
    unfolding int_limit_defs by (subst sint_i64; simp)+
  have "sint (clamp_i64 (word_of_int v) INT32_MIN INT32_MAX) = clip (- (2 ^ 31)) (2 ^ 31 - 1) v"
    "sint (clamp_i64 (word_of_int v) INT16_MIN INT16_MAX) = clip (- (2 ^ 15)) (2 ^ 15 - 1) v"
    using sint_i64 [OF assms] limits by (auto simp: clamp_i64_def clip_def)
  then show "sint (ucast (clamp_i64 (word_of_int v) INT32_MIN INT32_MAX) :: u32) = clip (- (2 ^ 31)) (2 ^ 31 - 1) v"
    "sint (ucast (clamp_i64 (word_of_int v) INT16_MIN INT16_MAX) :: u16) = clip (- (2 ^ 15)) (2 ^ 15 - 1) v"
    by (subst sint_ucast_i64_i32 sint_ucast_i64_i16; simp add: clip_def)+
qed

lemma frame_record_fields:
  "r_dx (frame_record f t) = ucast (clamp_i64 (fa_dx f) INT32_MIN INT32_MAX)"
  "r_dy (frame_record f t) = ucast (clamp_i64 (fa_dy f) INT32_MIN INT32_MAX)"
  "r_wheel (frame_record f t) = ucast (clamp_i64 (fa_wheel f) INT16_MIN INT16_MAX)"
  "r_hwheel (frame_record f t) = ucast (clamp_i64 (fa_hwheel f) INT16_MIN INT16_MAX)"
  "r_buttons (frame_record f t) = fa_buttons f" "r_timestamp_ns (frame_record f t) = t"
  by (simp_all add: frame_record_def Let_def)

section \<open>Buttons\<close>

definition is_key :: "u16 \<Rightarrow> input_event \<Rightarrow> bool" where
  "is_key code e \<longleftrightarrow> ev_type e = EV_KEY \<and> ev_code e = code"

definition pressed :: "u16 \<Rightarrow> frame_accumulator \<Rightarrow> bool" where
  "pressed code f \<longleftrightarrow> fa_buttons f AND hfior_button_bit_from_linux_code code \<noteq> 0"

text \<open>Whether a button is down after events: the last event of its code decides.\<close>

fun down_after :: "u16 \<Rightarrow> bool \<Rightarrow> input_event list \<Rightarrow> bool" where
  "down_after code down [] = down"
| "down_after code down (e # es) =
     down_after code (if is_key code e then ev_value e \<noteq> 0 else down) es"

lemma and_or_nonzero:
  fixes x d c :: "'a::len word"
  shows "(x OR d) AND c \<noteq> 0 \<longleftrightarrow> x AND c \<noteq> 0 \<or> d AND c \<noteq> 0"
  by (metis bit.conj_disj_distrib2 or_eq_0_iff)

lemma and_not_apart:
  fixes x d c :: "'a::len word"
  assumes "d AND c = 0"
  shows "(x AND NOT d) AND c = x AND c"
proof (rule bit_word_eqI)
  fix n assume "n < LENGTH('a)"
  have "bit (d AND c) n = False" using assms by simp
  then show "bit ((x AND NOT d) AND c) n = bit (x AND c) n"
    using \<open>n < LENGTH('a)\<close> by (auto simp: bit_simps)
qed

lemma and_not_same:
  fixes x c :: "'a::len word"
  shows "(x AND NOT c) AND c = 0"
  by (rule bit_word_eqI) (auto simp: bit_simps)

lemma accumulate_other_buttons:
  "ev_type e \<noteq> EV_KEY \<or> hfior_button_bit_from_linux_code (ev_code e) = 0 \<Longrightarrow>
   fa_buttons (accumulate e f) = fa_buttons f"
  by (auto simp: accumulate_def accumulate_rel_def accumulate_key_def Let_def event_code_defs)

lemma accumulate_buttons:
  "ev_type e = EV_KEY \<Longrightarrow> hfior_button_bit_from_linux_code (ev_code e) \<noteq> 0 \<Longrightarrow>
   fa_buttons (accumulate e f) =
     (if ev_value e \<noteq> 0 then fa_buttons f OR hfior_button_bit_from_linux_code (ev_code e)
      else fa_buttons f AND NOT (hfior_button_bit_from_linux_code (ev_code e)))"
  by (simp add: accumulate_def accumulate_key_def Let_def event_code_defs)

lemma accumulate_pressed:
  assumes "hfior_button_bit_from_linux_code code \<noteq> 0"
  shows "pressed code (accumulate e f) = (if is_key code e then ev_value e \<noteq> 0 else pressed code f)"
proof (cases "ev_type e \<noteq> EV_KEY \<or> hfior_button_bit_from_linux_code (ev_code e) = 0")
  case True
  then show ?thesis
    using assms by (auto simp: pressed_def is_key_def accumulate_other_buttons)
next
  case False
  let ?d = "hfior_button_bit_from_linux_code (ev_code e)" and ?c = "hfior_button_bit_from_linux_code code"
  have apart: "?d AND ?c \<noteq> 0 \<longleftrightarrow> ev_code e = code"
    using False button_bits_disjoint [of "ev_code e" code] by simp
  have "(fa_buttons f AND NOT ?d) AND ?c = (if ev_code e = code then 0 else fa_buttons f AND ?c)"
    using apart and_not_apart [of ?d ?c "fa_buttons f"] and_not_same [of "fa_buttons f" ?c] by auto
  then show ?thesis
    using False assms apart and_or_nonzero [of "fa_buttons f" ?d ?c]
    by (auto simp: pressed_def is_key_def accumulate_buttons)
qed

lemma fold_pressed:
  assumes "hfior_button_bit_from_linux_code code \<noteq> 0"
  shows "pressed code (fold accumulate es f) = down_after code (pressed code f) es"
  by (induction es arbitrary: f) (simp_all add: accumulate_pressed [OF assms])

section \<open>The frame of a bridge\<close>

definition is_report :: "input_event \<Rightarrow> bool" where
  "is_report e \<longleftrightarrow> ev_type e = EV_SYN \<and> ev_code e = SYN_REPORT"

lemma accumulate_rel_timestamp:
  "accumulate_rel code v (f\<lparr>fa_timestamp_ns := t\<rparr>) = (accumulate_rel code v f)\<lparr>fa_timestamp_ns := t\<rparr>"
  unfolding accumulate_rel_def Let_def
  by (cases "code = REL_X"; cases "code = REL_Y"; cases "code = REL_WHEEL";
      cases "code = REL_WHEEL_HI_RES"; cases "code = REL_HWHEEL"; simp)

lemma accumulate_timestamp:
  "accumulate e (f\<lparr>fa_timestamp_ns := t\<rparr>) = (accumulate e f)\<lparr>fa_timestamp_ns := t\<rparr>"
  by (simp add: accumulate_def accumulate_rel_timestamp accumulate_key_def Let_def)

lemma frame_record_timestamp [simp]:
  "frame_record (f\<lparr>fa_timestamp_ns := t\<rparr>) = frame_record f"
  by (simp add: frame_record_def Let_def fun_eq_iff)

lemma raw_log_frame [simp]:
  "b_frame (raw_log_event e b) = b_frame b" "b_ring (raw_log_event e b) = b_ring b"
  by (simp_all add: raw_log_event_def split: option.split)

text \<open>An event that is no report only changes the frame, the event count and the raw log.\<close>

lemma process_pending:
  assumes "\<not> is_report e"
  shows "same_core b (process_input_event e b)"
    "\<exists>t. b_frame (process_input_event e b) = (accumulate e (b_frame b))\<lparr>fa_timestamp_ns := t\<rparr>"
proof -
  have unfold: "process_input_event e b =
      (let b1 = raw_log_event e (upd_stats (\<lambda>s. s\<lparr>bs_input_events := bs_input_events s + 1\<rparr>) b);
           t = (if timeval_to_ns (ev_sec e) (ev_usec e) \<noteq> 0 then timeval_to_ns (ev_sec e) (ev_usec e)
                else fa_timestamp_ns (b_frame b1))
       in b1\<lparr>b_frame := accumulate e ((b_frame b1)\<lparr>fa_timestamp_ns := t\<rparr>)\<rparr>)"
    using assms by (auto simp: process_input_event_def is_report_def Let_def)
  show "same_core b (process_input_event e b)"
    unfolding unfold Let_def by simp
  show "\<exists>t. b_frame (process_input_event e b) = (accumulate e (b_frame b))\<lparr>fa_timestamp_ns := t\<rparr>"
    unfolding unfold Let_def accumulate_timestamp by auto
qed

lemma fold_pending:
  assumes "\<forall>e \<in> set es. \<not> is_report e"
  shows "same_core b (fold process_input_event es b) \<and>
    (\<exists>t. b_frame (fold process_input_event es b) = (fold accumulate es (b_frame b))\<lparr>fa_timestamp_ns := t\<rparr>)"
  using assms
proof (induction es arbitrary: b)
  case Nil
  show ?case by (auto intro: exI [of _ "fa_timestamp_ns (b_frame b)"])
next
  case (Cons e es)
  let ?c = "process_input_event e b"
  obtain t where t: "b_frame ?c = (accumulate e (b_frame b))\<lparr>fa_timestamp_ns := t\<rparr>"
    using process_pending(2) Cons.prems by (metis list.set_intros(1))
  have "fold accumulate es (f\<lparr>fa_timestamp_ns := t\<rparr>) = (fold accumulate es f)\<lparr>fa_timestamp_ns := t\<rparr>" for f t
    by (induction es arbitrary: f) (simp_all add: accumulate_timestamp)
  then show ?case
    using Cons.IH [of ?c] Cons.prems process_pending(1) [of e b] t
    by (auto intro: same_core_trans)
qed

section \<open>What a publication adds to the log\<close>

lemma keeps_exact:
  assumes "keeps 0 b c" "bridge_inv rlog b" "attempts b + 1 < 2 ^ 64"
  shows "bridge_inv rlog c"
  using keepsD [OF assms(1,2)] assms(3) by (metis add_0_right append_Nil2 length_0_conv le_zero_eq)

lemma publish_record_log:
  assumes inv: "bridge_inv rlog b" and room: "attempts b + 1 + 1 < 2 ^ 64"
  shows "bridge_inv (if length (ring_contents (b_ring b)) < ring_capacity (b_ring b)
    then rlog @ [sequenced b r] else rlog) (publish_record r b)"
proof -
  let ?published = "fst (attempt_publication r b)" and ?r = "sequenced b r"
  let ?c = "snd (snd (attempt_publication r b))"
  let ?yes = "account_record_flags ?r
    (upd_stats (\<lambda>s. s\<lparr>bs_records_published := bs_records_published s + 1\<rparr>) ?c)"
  let ?no = "upd_stats (\<lambda>s. s\<lparr>bs_ring_drops := bs_ring_drops s + 1\<rparr>) ?c"
  have unfold: "publish_record r b =
      (if ?published
       then (if has_flag ?r urgent_flags then write_urgent (send_eager_record ?r ?yes)
             else send_eager_record ?r ?yes)
       else write_urgent ?no)"
    unfolding publish_record_def Let_def split_def attempt_publication_simps(2) by (rule refl)
  note stage = publish_stage [OF attempt_publication_simps(3-5) inv room]
  have att: "attempts ?yes + 1 < 2 ^ 64" "attempts ?no + 1 < 2 ^ 64"
    using room unat_Suc_le [of "bs_records_attempted (b_stats b)"]
    by (simp_all add: attempts_def attempt_publication_simps)
  have same: "ring_contents (taken b t) = ring_contents (b_ring b)"
    "ring_capacity (taken b t) = ring_capacity (b_ring b)" for t
    by (simp_all add: taken_def ring_contents_def copy_slots_def slot_at_def ring_index_def
        hfior_ring_depth_def ring_capacity_def)
  have cond: "?published \<longleftrightarrow> length (ring_contents (b_ring b)) < ring_capacity (b_ring b)"
    unfolding attempt_publication_simps(1) publish_result same ..
  show ?thesis
  proof (cases ?published)
    case True
    have yes: "bridge_inv (rlog @ [?r]) ?yes"
      using True unfolding attempt_publication_simps(1) by (rule stage(1))
    have "keeps 0 ?yes (publish_record r b)"
      unfolding unfold using True keeps_then0 [OF send_eager_record_keeps write_urgent_keeps]
      by (simp add: send_eager_record_keeps)
    from keeps_exact [OF this yes att(1)] show ?thesis using True cond by simp
  next
    case False
    have no: "bridge_inv rlog ?no"
      using False unfolding attempt_publication_simps(1) by (rule stage(2))
    have "keeps 0 ?no (publish_record r b)"
      unfolding unfold using False write_urgent_keeps by simp
    from keeps_exact [OF this no att(2)] show ?thesis using False cond by simp
  qed
qed

lemma complete_frame_log:
  assumes inv: "bridge_inv rlog b" and room: "attempts b + 1 + 1 < 2 ^ 64" and t: "t \<noteq> 0"
  shows "bridge_inv (if length (ring_contents (b_ring b)) < ring_capacity (b_ring b)
    then rlog @ [sequenced b (frame_record (b_frame b) t)] else rlog) (complete_frame t b)"
proof -
  let ?p = "publish_record (frame_record (b_frame b) t) b"
  have "same_core ?p (complete_frame t b)"
    using t by (simp add: complete_frame_def Let_def same_core_def counters_agree_def)
  then show ?thesis
    using publish_record_log [OF inv room, of "frame_record (b_frame b) t"]
    by (simp add: same_core_def bridge_inv_def)
qed

section \<open>Properties\<close>

text \<open>C5: The events between two reports become one record that is published when the ring has
  room, and dropped otherwise: its motion is the sum of the relative movements, its wheel movement
  the sum of the high-resolution events if there are any and of the coarse ones otherwise, all
  clamped to the fields of the record, and every button is as its last event left it.\<close>

theorem frame_reports_net_input:
  assumes inv: "bridge_inv rlog b" and room: "attempts b + 2 < 2 ^ 64"
    and events: "\<forall>e \<in> set es. \<not> is_report e" "is_report report" "length es < 2 ^ 31"
    and t: "timeval_to_ns (ev_sec report) (ev_usec report) \<noteq> 0"
    and frame: "b_frame b = zero_frame\<lparr>fa_buttons := old\<rparr>"
  shows "\<exists>r. bridge_inv (if length (ring_contents (b_ring b)) < ring_capacity (b_ring b)
        then rlog @ [r] else rlog) (fold process_input_event (es @ [report]) b) \<and>
    r_timestamp_ns r = timeval_to_ns (ev_sec report) (ev_usec report) \<and>
    sint (r_dx r) = clip (- (2 ^ 31)) (2 ^ 31 - 1) (event_sum REL_X es) \<and>
    sint (r_dy r) = clip (- (2 ^ 31)) (2 ^ 31 - 1) (event_sum REL_Y es) \<and>
    sint (r_wheel r) = clip (- (2 ^ 15)) (2 ^ 15 - 1) (wheel_sum REL_WHEEL REL_WHEEL_HI_RES es) \<and>
    sint (r_hwheel r) = clip (- (2 ^ 15)) (2 ^ 15 - 1) (wheel_sum REL_HWHEEL REL_HWHEEL_HI_RES es) \<and>
    (\<forall>code. hfior_button_bit_from_linux_code code \<noteq> 0 \<longrightarrow>
       (r_buttons r AND hfior_button_bit_from_linux_code code \<noteq> 0) =
       down_after code (old AND hfior_button_bit_from_linux_code code \<noteq> 0) es)"
proof -
  let ?t = "timeval_to_ns (ev_sec report) (ev_usec report)"
  let ?c = "fold process_input_event es b" and ?f = "fold accumulate es (b_frame b)"
  let ?d = "raw_log_event report (upd_stats (\<lambda>s. s\<lparr>bs_input_events := bs_input_events s + 1\<rparr>) ?c)"
  let ?e = "?d\<lparr>b_frame := (b_frame ?d)\<lparr>fa_timestamp_ns := ?t\<rparr>\<rparr>"
  obtain u where c: "same_core b ?c" "b_frame ?c = ?f\<lparr>fa_timestamp_ns := u\<rparr>"
    using fold_pending [OF events(1)] by blast
  have d: "same_core b ?e" "frame_record (b_frame ?e) = frame_record ?f" using c by simp_all
  then have e: "bridge_inv rlog ?e" "attempts ?e = attempts b" "b_ring ?e = b_ring b"
    using inv by (simp_all add: same_core_def bridge_inv_def attempts_def)
  have last: "fold process_input_event (es @ [report]) b = complete_frame ?t ?e"
    using events(2) t by (simp add: process_input_event_def is_report_def Let_def)
  let ?r = "sequenced ?e (frame_record ?f ?t)"
  have "bridge_inv (if length (ring_contents (b_ring b)) < ring_capacity (b_ring b)
      then rlog @ [?r] else rlog) (fold process_input_event (es @ [report]) b)"
    using complete_frame_log [OF e(1) _ t] e(2) room unfolding last d(2) e(3) by simp
  moreover have "\<bar>event_sum code es\<bar> < 2 ^ 63" for code
    using event_sum_bound [of code es] events(3) by simp
  note bound = clamp_fields [OF this]
  have sums: "fa_dx ?f = word_of_int (event_sum REL_X es)" "fa_dy ?f = word_of_int (event_sum REL_Y es)"
    "fa_wheel ?f = word_of_int (if \<exists>e \<in> set es. is_rel REL_WHEEL_HI_RES e
       then event_sum REL_WHEEL_HI_RES es else event_sum REL_WHEEL es)"
    "fa_hwheel ?f = word_of_int (if \<exists>e \<in> set es. is_rel REL_HWHEEL_HI_RES e
       then event_sum REL_HWHEEL_HI_RES es else event_sum REL_HWHEEL es)"
    unfolding fold_motion fold_wheel fold_hwheel frame by (simp_all add: zero_frame_def)
  have fields: "r_dx ?r = r_dx (frame_record ?f ?t)" "r_dy ?r = r_dy (frame_record ?f ?t)"
    "r_wheel ?r = r_wheel (frame_record ?f ?t)" "r_hwheel ?r = r_hwheel (frame_record ?f ?t)"
    "r_buttons ?r = fa_buttons ?f" "r_timestamp_ns ?r = ?t"
    by (simp_all add: sequenced_def frame_record_fields)
  have "(fa_buttons ?f AND hfior_button_bit_from_linux_code code \<noteq> 0) =
      down_after code (old AND hfior_button_bit_from_linux_code code \<noteq> 0) es"
    if "hfior_button_bit_from_linux_code code \<noteq> 0" for code
    using fold_pressed [OF that, of es "b_frame b"] by (simp add: pressed_def frame)
  ultimately show ?thesis
    unfolding wheel_sum_def
    by (intro exI [of _ ?r] conjI) (simp_all only: fields frame_record_fields sums bound split: if_split, simp_all)
qed

definition demo_event :: "u16 \<Rightarrow> u16 \<Rightarrow> u32 \<Rightarrow> input_event" where
  "demo_event ty code v = \<lparr>ev_sec = 1, ev_usec = 0, ev_type = ty, ev_code = code, ev_value = v\<rparr>"

definition demo_events :: "input_event list" where
  "demo_events = [demo_event EV_REL REL_X 5, demo_event EV_REL REL_X (- 7), demo_event EV_REL REL_WHEEL 1,
     demo_event EV_REL REL_WHEEL_HI_RES 120, demo_event EV_KEY BTN_LEFT 1]"

lemma frame_reports_net_input_witness:
  "\<exists>r. bridge_inv [r] (fold process_input_event (demo_events @ [demo_event EV_SYN SYN_REPORT 0])
       (demo_bridge quiet_kernel)) \<and>
     sint (r_dx r) = - 2 \<and> sint (r_wheel r) = 120 \<and> r_buttons r AND HFIOR_BUTTON_LEFT \<noteq> 0"
proof -
  let ?b = "demo_bridge quiet_kernel" and ?report = "demo_event EV_SYN SYN_REPORT 0"
  have pre: "attempts ?b + 2 < 2 ^ 64" "\<forall>e \<in> set demo_events. \<not> is_report e" "is_report ?report"
    "length demo_events < 2 ^ 31" "timeval_to_ns (ev_sec ?report) (ev_usec ?report) \<noteq> 0"
    "b_frame ?b = zero_frame\<lparr>fa_buttons := 0\<rparr>"
    by (simp add: demo_bridge_inv)
      (simp_all add: demo_events_def demo_event_def is_report_def event_code_defs timeval_to_ns_def
        demo_bridge_def zero_frame_def)
  from frame_reports_net_input [OF demo_bridge_inv(1) pre] obtain r where
    r: "bridge_inv (if length (ring_contents (b_ring ?b)) < ring_capacity (b_ring ?b) then [] @ [r] else [])
      (fold process_input_event (demo_events @ [?report]) ?b)"
      "sint (r_dx r) = clip (- (2 ^ 31)) (2 ^ 31 - 1) (event_sum REL_X demo_events)"
      "sint (r_wheel r) = clip (- (2 ^ 15)) (2 ^ 15 - 1) (wheel_sum REL_WHEEL REL_WHEEL_HI_RES demo_events)"
    and key: "\<forall>code. hfior_button_bit_from_linux_code code \<noteq> 0 \<longrightarrow>
      (r_buttons r AND hfior_button_bit_from_linux_code code \<noteq> 0) =
      down_after code (0 AND hfior_button_bit_from_linux_code code \<noteq> 0) demo_events"
    by blast
  have sums: "event_sum REL_X demo_events = - 2" "wheel_sum REL_WHEEL REL_WHEEL_HI_RES demo_events = 120"
    by (simp_all add: demo_events_def demo_event_def is_rel_def event_code_defs wheel_sum_def)
  have left: "hfior_button_bit_from_linux_code BTN_LEFT = HFIOR_BUTTON_LEFT" "HFIOR_BUTTON_LEFT \<noteq> 0"
    "down_after BTN_LEFT False demo_events"
    by (simp_all add: hfior_button_bit_from_linux_code_def button_bit_defs demo_events_def demo_event_def
        is_key_def event_code_defs)
  have "r_buttons r AND HFIOR_BUTTON_LEFT \<noteq> 0"
    using key [rule_format, of BTN_LEFT] left by simp
  with r show ?thesis
    unfolding sums by (intro exI [of _ r]) (simp add: demo_bridge_ring clip_def)
qed

section \<open>Acknowledgements\<close>

definition ack_valid :: "hfior_record list \<Rightarrow> bridge \<Rightarrow> hfior_ack_message \<Rightarrow> bool" where
  "ack_valid rlog b ack \<longleftrightarrow> ack_generation ack = b_generation b \<and>
     ring_tail (b_ring b) \<le> ack_consumed_tail ack \<and> unat (ack_consumed_tail ack) \<le> length rlog"

lemma write_urgent_frame [simp]:
  "ring_contents (b_ring (write_urgent b)) = ring_contents (b_ring b)"
  "ring_tail (b_ring (write_urgent b)) = ring_tail (b_ring b)"
  "bs_acknowledgements (b_stats (write_urgent b)) = bs_acknowledgements (b_stats b)"
  "bs_invalid_acknowledgements (b_stats (write_urgent b)) = bs_invalid_acknowledgements (b_stats b)"
  by (simp_all add: write_urgent_def split_def Let_def warn_def ring_contents_def copy_slots_def slot_at_def
      ring_index_def hfior_ring_depth_def split: syscall.split)

lemma handle_ack_exact:
  assumes inv: "bridge_inv rlog b" and room: "attempts b + 1 < 2 ^ 64"
  shows "bridge_inv rlog (handle_ack ack b) \<and>
    ring_contents (b_ring (handle_ack ack b)) =
      (if ack_valid rlog b ack
       then drop (unat (ack_consumed_tail ack) - unat (ring_tail (b_ring b))) (ring_contents (b_ring b))
       else ring_contents (b_ring b)) \<and>
    ring_tail (b_ring (handle_ack ack b)) =
      (if ack_valid rlog b ack then ack_consumed_tail ack else ring_tail (b_ring b)) \<and>
    bs_acknowledgements (b_stats (handle_ack ack b)) =
      bs_acknowledgements (b_stats b) + (if ack_valid rlog b ack then 1 else 0) \<and>
    bs_invalid_acknowledgements (b_stats (handle_ack ack b)) =
      bs_invalid_acknowledgements (b_stats b) + (if ack_valid rlog b ack then 0 else 1)"
proof -
  let ?t = "ack_consumed_tail ack" and ?b' = "handle_ack ack b"
  have keep: "bridge_inv rlog ?b'" using keeps_exact [OF handle_ack_keeps inv room] .
  have hist: "ring_hist (b_ring b) rlog" "ring_hist (b_ring ?b') rlog"
    using inv keep by (simp_all add: bridge_inv_def)
  have head: "unat (ring_head (b_ring b)) = length rlog" using hist(1) by (simp add: ring_hist_def)
  have depth: "length rlog - unat (ring_tail (b_ring b)) \<le> ring_capacity (b_ring b)"
    using ring_hist_depth [OF hist(1)] ring_wf_within [OF ring_hist_wf [OF hist(1)]] by simp
  have accepted: "\<not> (ack_generation ack \<noteq> b_generation b \<or> ?t < ring_tail (b_ring b) \<or>
      ?t > ring_head (b_ring b) \<or>
      ring_head (b_ring b) - ?t > ucast (md_capacity (metadata (b_ring b)))) \<longleftrightarrow> ack_valid rlog b ack"
  proof (cases "ack_generation ack = b_generation b \<and> ring_tail (b_ring b) \<le> ?t \<and> ?t \<le> ring_head (b_ring b)")
    case True
    then have "unat (ring_head (b_ring b) - ?t) \<le> length rlog - unat (ring_tail (b_ring b))"
      using head by (auto simp: unat_sub_le word_le_nat_alt intro: diff_le_mono2)
    then have "unat (ring_head (b_ring b) - ?t) \<le> ring_capacity (b_ring b)" using depth by simp
    then have "\<not> ring_head (b_ring b) - ?t > ucast (md_capacity (metadata (b_ring b)))"
      by (simp add: word_less_nat_alt ring_capacity_def)
    then show ?thesis using True head by (auto simp: ack_valid_def word_le_nat_alt not_less)
  next
    case False
    then show ?thesis using head by (auto simp: ack_valid_def word_le_nat_alt not_less)
  qed
  have fields: "ring_tail (b_ring ?b') = (if ack_valid rlog b ack then ?t else ring_tail (b_ring b))"
    "bs_acknowledgements (b_stats ?b') = bs_acknowledgements (b_stats b) + (if ack_valid rlog b ack then 1 else 0)"
    "bs_invalid_acknowledgements (b_stats ?b') =
      bs_invalid_acknowledgements (b_stats b) + (if ack_valid rlog b ack then 0 else 1)"
    unfolding accepted [symmetric]
    by (simp_all add: handle_ack_def Let_def split_def)
  have "ring_contents (b_ring ?b') = (if ack_valid rlog b ack
       then drop (unat ?t - unat (ring_tail (b_ring b))) (ring_contents (b_ring b))
       else ring_contents (b_ring b))"
    unfolding ring_hist_contents [OF hist(1)] ring_hist_contents [OF hist(2)] fields(1)
    by (auto simp: ack_valid_def word_le_nat_alt)
  then show ?thesis using keep fields by simp
qed

text \<open>C7: The bridge accepts an acknowledgement exactly when it is of the current generation and its
  tail lies between the shared tail and the head (the further test against the capacity rejects
  nothing more). It then frees exactly the records it covers, and counts it; any other
  acknowledgement leaves the unread records as they are and is counted as invalid. In both cases
  the log of published records is untouched.\<close>

theorem ack_frees_exactly:
  assumes inv: "bridge_inv rlog b" and room: "attempts b + 1 < 2 ^ 64"
  shows "bridge_inv rlog (handle_ack ack b) \<and>
    ring_contents (b_ring (handle_ack ack b)) =
      (if ack_valid rlog b ack
       then drop (unat (ack_consumed_tail ack) - unat (ring_tail (b_ring b))) (ring_contents (b_ring b))
       else ring_contents (b_ring b)) \<and>
    ring_tail (b_ring (handle_ack ack b)) =
      (if ack_valid rlog b ack then ack_consumed_tail ack else ring_tail (b_ring b)) \<and>
    bs_acknowledgements (b_stats (handle_ack ack b)) =
      bs_acknowledgements (b_stats b) + (if ack_valid rlog b ack then 1 else 0) \<and>
    bs_invalid_acknowledgements (b_stats (handle_ack ack b)) =
      bs_invalid_acknowledgements (b_stats b) + (if ack_valid rlog b ack then 0 else 1)"
  by (rule handle_ack_exact [OF assms])

lemma ack_frees_exactly_witness:
  "ring_tail (b_ring (handle_ack \<lparr>ack_header = \<lparr>mh_type = HFIOR_MSG_ACK, mh_size = 24\<rparr>,
     ack_generation = 1, ack_consumed_tail = 5\<rparr> (demo_bridge quiet_kernel))) = 0"
proof -
  let ?ack = "\<lparr>ack_header = \<lparr>mh_type = HFIOR_MSG_ACK, mh_size = 24\<rparr>,
    ack_generation = 1, ack_consumed_tail = 5\<rparr>"
  have "attempts (demo_bridge quiet_kernel) + 1 < 2 ^ 64" by (simp add: demo_bridge_inv)
  from ack_frees_exactly [OF demo_bridge_inv(1) this, of ?ack] show ?thesis
    by (simp add: ack_valid_def demo_bridge_ring)
qed

section \<open>Signals\<close>

lemma write_urgent_trace:
  assumes "\<And>n. retry_eintr (k_calls (b_kernel b) n) = Returned 8"
  shows "k_trace (b_kernel (write_urgent b)) = k_trace (b_kernel b) @ [Signalled (b_urgent_fd b) 1]"
  using assms by (simp add: write_urgent_def split_def Let_def kernel_call_def)

lemma attempt_publication_frame:
  "k_trace (b_kernel (snd (snd (attempt_publication r b)))) = k_trace (b_kernel b)"
  "k_calls (b_kernel (snd (snd (attempt_publication r b)))) = k_calls (b_kernel b)"
  "b_urgent_fd (snd (snd (attempt_publication r b))) = b_urgent_fd b"
  "b_mode (snd (snd (attempt_publication r b))) = b_mode b"
  unfolding attempt_publication_def Let_def split_def trace_publication_def
  by (simp_all add: bridge_now_def on_kernel_def hfior_now_ns_def split_def Let_def)



end
