(* ===== verification/Client.thy ===== *)
theory Client
  imports Ring Transport Metrics
begin

text \<open>
  The latency client of \<open>reference/latency-client/main.c\<close>: the queue between its two
  threads, the private ring cursor with explicit acknowledgements, the accounting of
  sequence numbers, the eager records and control messages of the socket, and the
  handshake. The shared ring changes while the client looks at it: \<open>c_views\<close> gives the
  mapping each successive look sees, any function of their number.
\<close>

section \<open>State\<close>

datatype hfior_policy =
    POLICY_EAGER_THREAD | POLICY_HFIOR_CRITICAL_ACK | POLICY_HFIOR_LATE | POLICY_HFIOR_MULTI
  | POLICY_HFIOR_TWO_STAGE | POLICY_HFIOR_SPIN | POLICY_HFIOR_LATE_LATCH

datatype ack_placement = ACK_CRITICAL | ACK_POST_USE | ACK_POST_FRAME

datatype receipt_reason =
    RECEIPT_URGENT | RECEIPT_FRAME_RING | RECEIPT_FINAL_RING | RECEIPT_EAGER_THREAD | RECEIPT_SHUTDOWN

text \<open>A policy of \<open>None\<close> is the 0 before the option is read.\<close>

record client_config =
  cc_socket_path :: string
  cc_output_dir :: "string option"
  cc_policy :: "hfior_policy option"
  cc_ack_placement :: ack_placement
  cc_checks_per_frame :: u32
  cc_final_rechecks :: u32
  cc_frame_hz :: u32
  cc_duration_s :: rat
  cc_input_phase :: rat
  cc_base_work_ns :: u64
  cc_integration_work_ns :: u64
  cc_callback_work_ns :: u64
  cc_spin_ns :: u64
  cc_tail_threshold_ns :: u64
  cc_stall_after_ms :: u32
  cc_stall_ms :: u32
  cc_consumer_cpu :: int
  cc_ingress_cpu :: int
  cc_record_trace :: bool
  cc_uncapped :: bool
  cc_quiet :: bool

text \<open>The first \<open>length\<close> records of the allocation, and its size.\<close>

record record_queue =
  q_records :: "hfior_record list"
  q_capacity :: nat

record receipt_entry =
  re_receipt_time_ns :: u64
  re_record :: hfior_record
  re_reason :: receipt_reason

record client_stats =
  cs_started_ns :: u64
  cs_finished_ns :: u64
  cs_frames :: u64
  cs_overruns :: u64
  cs_input_consumptions :: u64
  cs_expensive_actions :: u64
  cs_late_latch_actions :: u64
  cs_ring_checks :: u64
  cs_nonempty_ring_checks :: u64
  cs_ring_records :: u64
  cs_shadow_ring_records :: u64
  cs_eager_messages :: u64
  cs_eager_records :: u64
  cs_control_messages :: u64
  cs_acknowledgements_sent :: u64
  cs_urgent_reads :: u64
  cs_urgent_counter_total :: u64
  cs_terminal_records :: u64
  cs_sequence_gaps :: u64
  cs_duplicate_or_reordered :: u64
  cs_first_sequence :: u64
  cs_last_sequence :: u64
  cs_ingress_thread_cpu_ns :: u64
  cs_consumer_process_cpu_ns :: u64
  cs_voluntary_context_switches :: u64
  cs_involuntary_context_switches :: u64
  cs_generation_changes :: u64
  cs_stall_count :: u64
  cs_late_latch_records :: u64
  cs_frames_with_late_latch :: u64
  cs_spin_iterations :: u64

record frame_observation =
  fo_frame_index :: u64
  fo_target_start_ns :: u64
  fo_frame_start_ns :: u64
  fo_start_lateness_ns :: u64
  fo_legacy_measurement_ns :: u64
  fo_latch_begin_ns :: u64
  fo_latch_end_ns :: u64
  fo_use_time_ns :: u64
  fo_newest_timestamp_ns :: u64
  fo_newest_sequence :: u64
  fo_oldest_timestamp_ns :: u64
  fo_actual_age_ns :: u64
  fo_legacy_age_ns :: u64
  fo_latch_cost_ns :: u64
  fo_post_latch_to_use_ns :: u64
  fo_head_at_frame_start :: u64
  fo_head_at_initial_latch :: u64
  fo_head_at_final_latch :: u64
  fo_local_tail_after :: u64
  fo_records :: u64
  fo_late_records :: u64
  fo_checks :: u64
  fo_expensive_actions :: u64
  fo_ring_depth_after :: u64

text \<open>
  The vectors of samples and of receipts are the lists of their elements (a failed \<open>realloc\<close>
  ends the process), the CSV files the lists of their lines. The mutexes have no field: what the
  code does under one of them is one step here. \<open>c_views_used\<close> counts the looks at the ring.
  \<open>c_schedule\<close> says how many passes the ingress thread makes at each of the points, counted by
  \<open>c_switches\<close>, where the frame thread lets it in.
\<close>

record client =
  c_config :: client_config
  c_stats :: client_stats
  c_socket_fd :: int
  c_memfd :: int
  c_urgent_fd :: int
  c_views :: "nat \<Rightarrow> hfior_ring_header"
  c_views_used :: nat
  c_mapping_size :: u64
  c_generation :: u64
  c_local_tail :: u64
  c_last_acked_tail :: u64
  c_features :: u64
  c_producer_pid :: u32
  c_frames_csv :: "string list"
  c_tail_csv :: "string list"
  c_receipts :: "receipt_entry list"
  c_pending :: record_queue
  c_ingress_started :: bool
  c_ingress_done :: bool            \<comment> \<open>the thread has left its loop\<close>
  c_ingress_cpu_start :: u64        \<comment> \<open>its local \<open>cpu_start\<close>\<close>
  c_schedule :: "nat \<Rightarrow> nat"
  c_switches :: nat
  c_stop :: bool
  c_terminal_seen :: bool
  c_frame_times :: "u64 list"
  c_sample_ages :: "u64 list"
  c_legacy_ages :: "u64 list"
  c_latch_costs :: "u64 list"
  c_start_lateness :: "u64 list"
  c_button_ages :: "u64 list"
  c_eager_ingress_ages :: "u64 list"
  c_kernel :: kernel

definition client_asks :: "(kernel \<Rightarrow> 'a \<times> kernel) \<Rightarrow> client \<Rightarrow> 'a \<times> client" where
  "client_asks ask c = (let (x, k) = ask (c_kernel c) in (x, c\<lparr>c_kernel := k\<rparr>))"

definition client_now :: "client \<Rightarrow> u64 \<times> client" where
  "client_now = client_asks (hfior_now_ns CLOCK_MONOTONIC)"

text \<open>One look at the ring.\<close>

definition look :: "client \<Rightarrow> hfior_ring_header \<times> client" where
  "look c = (c_views c (c_views_used c), c\<lparr>c_views_used := Suc (c_views_used c)\<rparr>)"

abbreviation upd_cstats :: "(client_stats \<Rightarrow> client_stats) \<Rightarrow> client \<Rightarrow> client" where
  "upd_cstats f c \<equiv> c\<lparr>c_stats := f (c_stats c)\<rparr>"

section \<open>The queue of pending records\<close>

definition SIZE_MAX :: nat where "SIZE_MAX = 2 ^ 64 - 1"

text \<open>
  The doubling loop of \<open>queue_reserve_locked\<close>; \<open>None\<close> is its death on overflow. It starts at
  4096 or at an earlier capacity, never at 0 (where the doubling would not end).
\<close>

function grow_capacity :: "nat \<Rightarrow> nat \<Rightarrow> nat option" where
  "grow_capacity capacity wanted =
     (if capacity < wanted
      then if capacity > SIZE_MAX div 2 then None
           else if capacity = 0 then None
           else grow_capacity (capacity * 2) wanted
      else Some capacity)"
  by pat_completeness auto
termination by (relation "measure (\<lambda>(capacity, wanted). wanted - capacity)") auto

declare grow_capacity.simps [simp del]

text \<open>\<open>allocated\<close> is whether \<open>realloc\<close> succeeds.\<close>

definition queue_reserve_locked :: "bool \<Rightarrow> record_queue \<Rightarrow> nat \<Rightarrow> record_queue outcome" where
  "queue_reserve_locked allocated queue wanted =
     (if wanted \<le> q_capacity queue then Done queue
      else
        case grow_capacity (if q_capacity queue \<noteq> 0 then q_capacity queue else 4096) wanted of
          None \<Rightarrow> Died ''queue capacity''
        | Some capacity \<Rightarrow>
            if \<not> allocated then Died ''queue realloc'' else Done (queue\<lparr>q_capacity := capacity\<rparr>))"

definition queue_push :: "bool \<Rightarrow> record_queue \<Rightarrow> hfior_record list \<Rightarrow> record_queue outcome" where
  "queue_push allocated queue records =
     (if records = [] then Done queue
      else
        after (queue_reserve_locked allocated queue (length (q_records queue) + length records))
          (\<lambda>q. Done (q\<lparr>q_records := q_records q @ records\<rparr>)))"

definition queue_take_all :: "record_queue \<Rightarrow> hfior_record list \<times> record_queue" where
  "queue_take_all queue = (q_records queue, queue\<lparr>q_records := []\<rparr>)"

section \<open>Sequence numbers and receipts\<close>

definition account_sequence :: "client_stats \<Rightarrow> u64 \<Rightarrow> client_stats" where
  "account_sequence s0 sequence =
     (let s1 = (if cs_first_sequence s0 = 0 then s0\<lparr>cs_first_sequence := sequence\<rparr> else s0);
          s2 = (if cs_last_sequence s1 \<noteq> 0
                then if sequence = cs_last_sequence s1 + 1 then s1
                     else if sequence > cs_last_sequence s1 + 1
                     then s1\<lparr>cs_sequence_gaps := cs_sequence_gaps s1 + (sequence - cs_last_sequence s1 - 1)\<rparr>
                     else s1\<lparr>cs_duplicate_or_reordered := cs_duplicate_or_reordered s1 + 1\<rparr>
                else s1)
      in if sequence > cs_last_sequence s2 then s2\<lparr>cs_last_sequence := sequence\<rparr> else s2)"

fun account_sequences :: "hfior_record list \<Rightarrow> client \<Rightarrow> client" where
  "account_sequences [] c = c"
| "account_sequences (r # rs) c =
     account_sequences rs
       (if r_sequence r = 0 then c
        else
          let c1 = c\<lparr>c_stats := account_sequence (c_stats c) (r_sequence r)\<rparr>
          in if has_flag r HFIOR_RECORD_TERMINATE
             then (upd_cstats (\<lambda>s. s\<lparr>cs_terminal_records := cs_terminal_records s + 1\<rparr>) c1)
                    \<lparr>c_terminal_seen := True\<rparr>
             else c1)"

definition log_records :: "receipt_reason \<Rightarrow> hfior_record list \<Rightarrow> u64 \<Rightarrow> client \<Rightarrow> client" where
  "log_records reason records receipt_time_ns c =
     (if \<not> cc_record_trace (c_config c) then c
      else c\<lparr>c_receipts := c_receipts c @
             map (\<lambda>r. \<lparr>re_receipt_time_ns = receipt_time_ns, re_record = r, re_reason = reason\<rparr>) records\<rparr>)"

text \<open>\<open>now >= timestamp ? now - timestamp : 0\<close>.\<close>

definition age_at :: "u64 \<Rightarrow> hfior_record \<Rightarrow> u64" where
  "age_at now_ns r = (if now_ns \<ge> r_timestamp_ns r then now_ns - r_timestamp_ns r else 0)"

definition client_push :: "hfior_record list \<Rightarrow> client \<Rightarrow> client outcome" where
  "client_push records c =
     after (queue_push True (c_pending c) records) (\<lambda>q. Done (c\<lparr>c_pending := q\<rparr>))"

section \<open>Acknowledgements and the ring\<close>

definition send_ack_if_needed :: "client \<Rightarrow> client outcome" where
  "send_ack_if_needed c =
     (if c_local_tail c = c_last_acked_tail c then Done c
      else
        let message = encode_ack \<lparr>
              ack_header = \<lparr>mh_type = HFIOR_MSG_ACK, mh_size = of_nat sizeof_ack_message\<rparr>,
              ack_generation = c_generation c, ack_consumed_tail = c_local_tail c\<rparr>;
            (answer, c1) = client_asks kernel_call c
        in if answer = Returned (int sizeof_ack_message)
           then Done (upd_cstats (\<lambda>s. s\<lparr>cs_acknowledgements_sent := cs_acknowledgements_sent s + 1\<rparr>)
                  (c1\<lparr>c_last_acked_tail := c_local_tail c1,
                      c_kernel := emit (Sent (c_socket_fd c1) MSG_NOSIGNAL message []) (c_kernel c1)\<rparr>))
           else Died ''send HFIOR acknowledgement'')"

definition drain_buffer :: u64 where "drain_buffer = 4096"

text \<open>What \<open>drain_ring\<close> does with one buffer of records.\<close>

definition consume_records :: "receipt_reason \<Rightarrow> bool \<Rightarrow> hfior_record list \<Rightarrow> client \<Rightarrow> client outcome" where
  "consume_records reason shadow records c =
     (if \<not> shadow
      then
        let (now_ns, c1) = client_now c;
            c2 = account_sequences records c1;
            c3 = (if reason = RECEIPT_URGENT
                  then c2\<lparr>c_button_ages := c_button_ages c2 @
                         map (age_at now_ns) (filter (\<lambda>r. has_flag r HFIOR_RECORD_BUTTON) records)\<rparr>
                  else c2);
            c4 = log_records reason records now_ns c3
        in after (client_push records c4)
             (\<lambda>c5. Done (upd_cstats (\<lambda>s. s\<lparr>cs_ring_records := cs_ring_records s + of_nat (length records)\<rparr>) c5))
      else Done (upd_cstats (\<lambda>s. s\<lparr>cs_shadow_ring_records :=
                   cs_shadow_ring_records s + of_nat (length records)\<rparr>) c))"

text \<open>The loop of \<open>drain_ring\<close>: the number of records read, in \<open>total_read\<close>.\<close>

fun drain_loop :: "nat \<Rightarrow> receipt_reason \<Rightarrow> bool \<Rightarrow> nat \<Rightarrow> client \<Rightarrow> (nat \<times> client) outcome" where
  "drain_loop 0 reason shadow total_read c = Unfinished"
| "drain_loop (Suc fuel) reason shadow total_read c =
     (let (ring, c1) = look c
      in case hfior_ring_read_snapshot (Some ring) (Some (c_local_tail c1)) False drain_buffer of
           Inl _ \<Rightarrow> Died ''read-only HFIOR drain''
         | Inr (records, tail) \<Rightarrow>
             let c2 = c1\<lparr>c_local_tail := tail\<rparr>
             in if records = [] then Done (total_read, c2)
                else
                  after (consume_records reason shadow records c2)
                    (\<lambda>c3. if length records < unat drain_buffer then Done (total_read + length records, c3)
                          else drain_loop fuel reason shadow (total_read + length records) c3))"

definition drain_ring :: "nat \<Rightarrow> receipt_reason \<Rightarrow> bool \<Rightarrow> bool \<Rightarrow> client \<Rightarrow> (nat \<times> client) outcome" where
  "drain_ring fuel reason shadow acknowledge_now c =
     after (drain_loop fuel reason shadow 0
              (upd_cstats (\<lambda>s. s\<lparr>cs_ring_checks := cs_ring_checks s + 1\<rparr>) c))
       (\<lambda>(total_read, c1).
          let c2 = (if total_read \<noteq> 0
                    then upd_cstats (\<lambda>s. s\<lparr>cs_nonempty_ring_checks := cs_nonempty_ring_checks s + 1\<rparr>) c1
                    else c1)
          in after (if acknowledge_now then send_ack_if_needed c2 else Done c2) (\<lambda>c3. Done (total_read, c3)))"

section \<open>The control socket\<close>

text \<open>The busy loop: it reads the clock until \<open>end\<close>; each reading takes one unit of fuel.\<close>

fun busy_until :: "nat \<Rightarrow> u64 \<Rightarrow> client \<Rightarrow> client outcome" where
  "busy_until 0 deadline c = Unfinished"
| "busy_until (Suc fuel) deadline c =
     (let (now, c1) = client_now c in if now < deadline then busy_until fuel deadline c1 else Done c1)"

definition busy_for_ns :: "nat \<Rightarrow> u64 \<Rightarrow> client \<Rightarrow> client outcome" where
  "busy_for_ns fuel duration_ns c =
     (if duration_ns = 0 then Done c
      else let (now, c1) = client_now c in busy_until fuel (now + duration_ns) c1)"

definition process_eager_message :: "nat \<Rightarrow> hfior_eager_record_message \<Rightarrow> client \<Rightarrow> client outcome" where
  "process_eager_message fuel message c =
     (let (now_ns, c1) = client_now c; r = er_record message
      in after (if cc_callback_work_ns (c_config c1) \<noteq> 0
                then busy_for_ns fuel (cc_callback_work_ns (c_config c1)) c1 else Done c1)
           (\<lambda>c2.
              let c3 = upd_cstats (\<lambda>s. s\<lparr>cs_eager_messages := cs_eager_messages s + 1,
                         cs_eager_records := cs_eager_records s + 1\<rparr>) c2;
                  c4 = account_sequences [r] c3;
                  c5 = (if now_ns \<ge> r_timestamp_ns r
                        then c4\<lparr>c_eager_ingress_ages := c_eager_ingress_ages c4 @ [now_ns - r_timestamp_ns r]\<rparr>
                        else c4);
                  c6 = (if has_flag r HFIOR_RECORD_BUTTON
                        then c5\<lparr>c_button_ages := c_button_ages c5 @ [age_at now_ns r]\<rparr> else c5)
              in client_push [r] (log_records RECEIPT_EAGER_THREAD [r] now_ns c6)))"

text \<open>A well-framed message; the number is what it adds to \<open>eager_count\<close>.\<close>

definition client_message :: "nat \<Rightarrow> bool \<Rightarrow> u8 list \<Rightarrow> client \<Rightarrow> (nat \<times> client) outcome" where
  "client_message fuel accept_eager bytes c =
     (let type = mh_type (decode_message_header bytes);
          count = (\<lambda>c. upd_cstats (\<lambda>s. s\<lparr>cs_control_messages := cs_control_messages s + 1\<rparr>) c)
      in if type = HFIOR_MSG_EAGER_RECORD \<and> length bytes = sizeof_eager_record_message \<and> accept_eager
         then after (process_eager_message fuel (decode_eager_record bytes) c) (\<lambda>c1. Done (1, c1))
         else if type = HFIOR_MSG_DEVICE_STATE \<and> length bytes = sizeof_device_state_message
         then
           let generation = ds_generation (decode_device_state bytes);
               c1 = (if generation \<noteq> c_generation c
                     then upd_cstats (\<lambda>s. s\<lparr>cs_generation_changes := cs_generation_changes s + 1\<rparr>)
                            (c\<lparr>c_generation := generation\<rparr>)
                     else c)
           in Done (0, count c1)
         else Done (0, count c))"

definition client_buffer :: nat where "client_buffer = 256"

fun drain_control_socket_nonblocking :: "nat \<Rightarrow> bool \<Rightarrow> nat \<Rightarrow> client \<Rightarrow> (nat \<times> client) outcome" where
  "drain_control_socket_nonblocking 0 accept_eager eager_count c = Unfinished"
| "drain_control_socket_nonblocking (Suc fuel) accept_eager eager_count c =
     (let (answer, c1) = client_asks kernel_recv c
      in case answer of
           Recv_interrupted _ \<Rightarrow> Done (eager_count, c1)
         | Recv_failed e \<Rightarrow>
             if e = EAGAIN \<or> e = EWOULDBLOCK then Done (eager_count, c1)
             else Done (eager_count, c1\<lparr>c_terminal_seen := True\<rparr>)
         | Received r \<Rightarrow>
             let bytes = take client_buffer (rv_bytes r)
             in if bytes = [] then Done (eager_count, c1\<lparr>c_terminal_seen := True\<rparr>)
                else if length bytes < sizeof_message_header \<or>
                        mh_size (decode_message_header bytes) \<noteq> of_nat (length bytes)
                then drain_control_socket_nonblocking fuel accept_eager eager_count c1
                else
                  after (client_message fuel accept_eager bytes c1)
                    (\<lambda>(n, c2). drain_control_socket_nonblocking fuel accept_eager (eager_count + n) c2))"

section \<open>The handshake\<close>

text \<open>
  \<open>mapped\<close> is whether \<open>mmap\<close> succeeds; the mapping is then what the first look sees. A
  descriptor the hello does not carry keeps its initial value.
\<close>

definition receive_hello :: "bool \<Rightarrow> client \<Rightarrow> client outcome" where
  "receive_hello mapped c =
     (let (result, c1) = client_asks (hfior_recv_fds sizeof_hello_message 4) c
      in case result of
           Inl _ \<Rightarrow> Died ''HFIOR hello''
         | Inr (bytes, fds) \<Rightarrow>
             let hello = decode_hello bytes
             in if length bytes \<noteq> sizeof_hello_message \<or>
                   mh_type (hello_header hello) \<noteq> HFIOR_MSG_HELLO \<or>
                   mh_size (hello_header hello) \<noteq> of_nat sizeof_hello_message \<or>
                   hello_abi_version hello \<noteq> HFIOR_ABI_VERSION \<or> length fds \<noteq> 2
                then Died ''HFIOR hello''
                else
                  let c2 = c1\<lparr>c_memfd := fds ! 0, c_urgent_fd := fds ! 1,
                              c_generation := hello_generation hello, c_features := hello_features hello,
                              c_producer_pid := hello_producer_pid hello,
                              c_mapping_size := hfior_mapping_size (hello_capacity hello)\<rparr>
                  in if \<not> mapped then Died ''mmap HFIOR ring''
                     else
                       let (ring, c3) = look c2
                       in if md_magic (metadata ring) \<noteq> HFIOR_MAGIC \<or>
                             md_abi_version (metadata ring) \<noteq> HFIOR_ABI_VERSION \<or>
                             md_record_size (metadata ring) \<noteq> of_nat sizeof_record \<or>
                             md_capacity (metadata ring) \<noteq> hello_capacity hello
                          then Died ''HFIOR metadata'' else Done c3)"

text \<open>A plain \<open>send\<close> on the control socket that must take the whole message.\<close>

definition client_send :: "string \<Rightarrow> u8 list \<Rightarrow> client \<Rightarrow> client outcome" where
  "client_send what message c =
     (let (answer, c1) = client_asks kernel_call c
      in if answer = Returned (int (length message))
         then Done (c1\<lparr>c_kernel := emit (Sent (c_socket_fd c1) MSG_NOSIGNAL message []) (c_kernel c1)\<rparr>)
         else Died what)"

definition send_mode :: "client \<Rightarrow> client outcome" where
  "send_mode c =
     client_send ''send HFIOR mode'' (encode_set_mode \<lparr>
         sm_header = \<lparr>mh_type = HFIOR_MSG_SET_MODE, mh_size = of_nat sizeof_set_mode_message\<rparr>,
         sm_mode = (if cc_policy (c_config c) = Some POLICY_EAGER_THREAD
                    then HFIOR_MODE_EAGER_THREAD else HFIOR_MODE_HFIOR),
         sm_consumer_hz = cc_frame_hz (c_config c), sm_requested_deadline_ns = 0\<rparr>) c"

text \<open>The wait for \<open>STARTED\<close>: every other message is skipped.\<close>

fun await_started :: "nat \<Rightarrow> client \<Rightarrow> client outcome" where
  "await_started 0 c = Unfinished"
| "await_started (Suc fuel) c =
     (let (answer, c1) = client_asks kernel_recv c
      in case answer of
           Recv_interrupted _ \<Rightarrow> await_started fuel c1
         | Recv_failed _ \<Rightarrow> Died ''wait HFIOR start''
         | Received r \<Rightarrow>
             let bytes = take sizeof_message_header (rv_bytes r);
                 response = decode_message_header bytes
             in if length bytes = sizeof_message_header \<and>
                   mh_size response = of_nat sizeof_message_header \<and> mh_type response = HFIOR_MSG_STARTED
                then Done c1 else await_started fuel c1)"

definition synchronize_start :: "nat \<Rightarrow> client \<Rightarrow> client outcome" where
  "synchronize_start fuel c =
     after (client_send ''send HFIOR start'' (encode_message_header
              \<lparr>mh_type = HFIOR_MSG_START, mh_size = of_nat sizeof_message_header\<rparr>) c)
       (\<lambda>c1. after (await_started fuel c1)
          (\<lambda>c2. let (ring, c3) = look c2
                in Done (c3\<lparr>c_local_tail := pl_head (producer ring),
                            c_last_acked_tail := pl_head (producer ring)\<rparr>)))"

section \<open>Taking the pending records\<close>

text \<open>The four values the summary keeps: newest time and its sequence, oldest time, buttons.\<close>

record summary =
  su_newest :: u64
  su_newest_sequence :: u64
  su_oldest :: u64
  su_buttons :: u64

definition summarize_record :: "hfior_record \<Rightarrow> summary \<Rightarrow> summary" where
  "summarize_record r s0 =
     (let s1 = (if r_timestamp_ns r > su_newest s0 \<or>
                   (r_timestamp_ns r = su_newest s0 \<and> r_sequence r > su_newest_sequence s0)
                then s0\<lparr>su_newest := r_timestamp_ns r, su_newest_sequence := r_sequence r\<rparr> else s0);
          s2 = (if r_timestamp_ns r < su_oldest s1 then s1\<lparr>su_oldest := r_timestamp_ns r\<rparr> else s1)
      in if has_flag r HFIOR_RECORD_BUTTON then s2\<lparr>su_buttons := su_buttons s2 + 1\<rparr> else s2)"

definition summarize_records :: "hfior_record list \<Rightarrow> summary \<Rightarrow> summary" where
  "summarize_records records s = fold summarize_record records s"

text \<open>The number of records taken, their summary added to \<open>s\<close>, and the client after it.\<close>

definition take_pending :: "client \<Rightarrow> summary \<Rightarrow> nat \<times> summary \<times> client" where
  "take_pending c s =
     (let (records, q) = queue_take_all (c_pending c)
      in (length records, summarize_records records s, c\<lparr>c_pending := q\<rparr>))"

definition ack_during_drain :: "client \<Rightarrow> bool" where
  "ack_during_drain c \<longleftrightarrow> cc_ack_placement (c_config c) = ACK_CRITICAL"

definition maybe_ack_post_use :: "client \<Rightarrow> client outcome" where
  "maybe_ack_post_use c =
     (if cc_ack_placement (c_config c) = ACK_POST_USE then send_ack_if_needed c else Done c)"

definition maybe_ack_post_frame :: "client \<Rightarrow> client outcome" where
  "maybe_ack_post_frame c =
     (if cc_ack_placement (c_config c) = ACK_POST_FRAME then send_ack_if_needed c else Done c)"

end
