(* ===== verification/Client_Reading.thy ===== *)
theory Client_Reading
  imports Client
begin

text \<open>
  What the client reads: the queue never writes past its allocation, and a drain of the ring
  delivers the next records of the log in order, accounts for each of them and catches up with the
  head it started from, unless a look finds the log more than a capacity ahead of the cursor.
\<close>

section \<open>The queue\<close>

definition queue_ok :: "record_queue \<Rightarrow> bool" where
  "queue_ok q \<longleftrightarrow> length (q_records q) \<le> q_capacity q"

lemma grow_capacity_some:
  assumes "0 < capacity" "wanted \<le> 2 ^ 63"
  shows "\<exists>c. grow_capacity capacity wanted = Some c \<and> wanted \<le> c \<and> capacity \<le> c \<and>
    (c = capacity \<or> c < 2 * wanted)"
  using assms
proof (induction capacity wanted rule: grow_capacity.induct)
  case (1 capacity wanted)
  show ?case
  proof (cases "capacity < wanted")
    case True
    with "1.prems" have ok: "\<not> capacity > SIZE_MAX div 2" "capacity \<noteq> 0"
      by (simp_all add: SIZE_MAX_def)
    from "1.IH" [OF True ok] "1.prems" obtain c
      where c: "grow_capacity (capacity * 2) wanted = Some c" "wanted \<le> c" "capacity * 2 \<le> c"
        "c = capacity * 2 \<or> c < 2 * wanted" by auto
    then show ?thesis using True ok by (subst grow_capacity.simps) auto
  next
    case False
    then show ?thesis by (subst grow_capacity.simps) simp
  qed
qed

lemma queue_push_done:
  assumes "length (q_records q) + length rs \<le> 2 ^ 63" "queue_ok q"
  shows "\<exists>q'. queue_push True q rs = Done q' \<and> q_records q' = q_records q @ rs \<and> queue_ok q'"
proof (cases "rs = [] \<or> length (q_records q) + length rs \<le> q_capacity q")
  case True
  then show ?thesis
    using assms(2) by (auto simp: queue_push_def queue_reserve_locked_def queue_ok_def)
next
  case False
  have "0 < (if q_capacity q \<noteq> 0 then q_capacity q else 4096)" by simp
  from grow_capacity_some [OF this assms(1)] obtain c where "grow_capacity (if q_capacity q \<noteq> 0 then q_capacity q else 4096)
      (length (q_records q) + length rs) = Some c" "length (q_records q) + length rs \<le> c"
    by blast
  then show ?thesis
    using False by (auto simp: queue_push_def queue_reserve_locked_def queue_ok_def)
qed

section \<open>What reading leaves alone, and what it accounts for\<close>

text \<open>The part of the client a read of the ring does not change, apart from its cursor.\<close>

definition same_world :: "client \<Rightarrow> client \<Rightarrow> bool" where
  "same_world c c' \<longleftrightarrow> c_views c' = c_views c \<and> c_config c' = c_config c \<and> c_socket_fd c' = c_socket_fd c \<and>
     c_urgent_fd c' = c_urgent_fd c \<and> c_schedule c' = c_schedule c \<and> c_stop c' = c_stop c \<and>
     k_clock (c_kernel c') = k_clock (c_kernel c) \<and> k_clock_reads (c_kernel c) \<le> k_clock_reads (c_kernel c') \<and>
     k_calls (c_kernel c') = k_calls (c_kernel c) \<and>
     c_frames_csv c' = c_frames_csv c \<and> c_tail_csv c' = c_tail_csv c \<and> c_frame_times c' = c_frame_times c \<and>
     cs_frames (c_stats c') = cs_frames (c_stats c)"

definition same_cursor :: "client \<Rightarrow> client \<Rightarrow> bool" where
  "same_cursor c c' \<longleftrightarrow> same_world c c' \<and> c_views_used c' = c_views_used c \<and>
     c_local_tail c' = c_local_tail c \<and> c_last_acked_tail c' = c_last_acked_tail c \<and>
     c_generation c' = c_generation c"

lemma same_world_refl [simp]: "same_world c c"
  by (simp add: same_world_def)

lemma same_world_trans: "same_world a b \<Longrightarrow> same_world b c \<Longrightarrow> same_world a c"
  by (simp add: same_world_def)

lemma same_cursor_refl [simp]: "same_cursor c c"
  by (simp add: same_cursor_def)

lemma same_cursor_trans: "same_cursor a b \<Longrightarrow> same_cursor b c \<Longrightarrow> same_cursor a c"
  using same_world_trans by (auto simp: same_cursor_def)

text \<open>The counters of \<open>account_sequences\<close>, and what a list of records makes of them.\<close>

definition sequence_part :: "client_stats \<Rightarrow> u64 \<times> u64 \<times> u64 \<times> u64" where
  "sequence_part s = (cs_first_sequence s, cs_last_sequence s, cs_sequence_gaps s, cs_duplicate_or_reordered s)"

definition account_part :: "hfior_record \<Rightarrow> u64 \<times> u64 \<times> u64 \<times> u64 \<Rightarrow> u64 \<times> u64 \<times> u64 \<times> u64" where
  "account_part r p =
     (let q = r_sequence r; (first, latest, gaps, repeated) = p
      in if q = 0 then p
         else (if first = 0 then q else first, if q > latest then q else latest,
               if latest \<noteq> 0 \<and> q > latest + 1 then gaps + (q - latest - 1) else gaps,
               if latest \<noteq> 0 \<and> q \<noteq> latest + 1 \<and> \<not> q > latest + 1 then repeated + 1 else repeated))"

lemma account_sequence_part:
  "q \<noteq> 0 \<Longrightarrow> r_sequence r = q \<Longrightarrow> sequence_part (account_sequence s q) = account_part r (sequence_part s)"
  by (simp add: account_sequence_def sequence_part_def account_part_def Let_def)

definition terminal :: "hfior_record \<Rightarrow> bool" where
  "terminal r \<longleftrightarrow> r_sequence r \<noteq> 0 \<and> has_flag r HFIOR_RECORD_TERMINATE"

text \<open>From \<open>c\<close> to \<open>c'\<close> exactly \<open>rs\<close> were counted, their sequence numbers accounted and, with a
  record trace, their receipts kept.\<close>

definition accounted :: "hfior_record list \<Rightarrow> client \<Rightarrow> client \<Rightarrow> bool" where
  "accounted rs c c' \<longleftrightarrow>
     cs_ring_records (c_stats c') = cs_ring_records (c_stats c) + of_nat (length rs) \<and>
     sequence_part (c_stats c') = fold account_part rs (sequence_part (c_stats c)) \<and>
     (c_terminal_seen c' \<longleftrightarrow> c_terminal_seen c \<or> (\<exists>r \<in> set rs. terminal r)) \<and>
     map re_record (c_receipts c') = map re_record (c_receipts c) @
       (if cc_record_trace (c_config c) then rs else [])"

lemma accounted_trans:
  "accounted xs a b \<Longrightarrow> accounted ys b c \<Longrightarrow> c_config b = c_config a \<Longrightarrow> accounted (xs @ ys) a c"
  by (auto simp: accounted_def)

lemma accounted_refl [simp]: "accounted [] c c"
  by (simp add: accounted_def)

section \<open>One buffer\<close>

lemma account_sequences_kernel [simp]: "c_kernel (account_sequences rs c) = c_kernel c"
  by (induction rs arbitrary: c) (auto simp: Let_def)

lemma account_sequence_frames [simp]: "cs_frames (account_sequence s q) = cs_frames s"
  by (simp add: account_sequence_def Let_def)

lemma account_sequences_frame [simp]:
  "same_cursor c (account_sequences rs c) \<and> c_pending (account_sequences rs c) = c_pending c"
  by (induction rs arbitrary: c) (auto simp: Let_def same_cursor_def same_world_def)

lemma account_sequences_accounts:
  "sequence_part (c_stats (account_sequences rs c)) = fold account_part rs (sequence_part (c_stats c)) \<and>
   cs_ring_records (c_stats (account_sequences rs c)) = cs_ring_records (c_stats c) \<and>
   (c_terminal_seen (account_sequences rs c) \<longleftrightarrow> c_terminal_seen c \<or> (\<exists>r \<in> set rs. terminal r)) \<and>
   c_receipts (account_sequences rs c) = c_receipts c"
proof (induction rs arbitrary: c)
  case (Cons r rs)
  show ?case
  proof (cases "r_sequence r = 0")
    case True
    then show ?thesis using Cons.IH [of c] by (simp add: account_part_def Let_def split_def terminal_def)
  next
    case False
    let ?c1 = "c\<lparr>c_stats := account_sequence (c_stats c) (r_sequence r)\<rparr>"
    let ?c2 = "(upd_cstats (\<lambda>s. s\<lparr>cs_terminal_records := cs_terminal_records s + 1\<rparr>) ?c1)\<lparr>c_terminal_seen := True\<rparr>"
    have r: "cs_ring_records (account_sequence s q) = cs_ring_records s" for s q
      by (simp add: account_sequence_def Let_def)
    have p: "sequence_part (s\<lparr>cs_terminal_records := n\<rparr>) = sequence_part s" for s n
      by (simp add: sequence_part_def)
    have step: "account_sequences (r # rs) c = account_sequences rs
        (if has_flag r HFIOR_RECORD_TERMINATE then ?c2 else ?c1)"
      using False by (simp add: Let_def)
    show ?thesis
      unfolding step using Cons.IH [of ?c1] Cons.IH [of ?c2] False
      by (simp add: account_sequence_part r p terminal_def)
  qed
qed simp

lemma client_now_frame [simp]:
  "same_cursor c (snd (client_now c))" "c_pending (snd (client_now c)) = c_pending c"
  "c_stats (snd (client_now c)) = c_stats c" "c_receipts (snd (client_now c)) = c_receipts c"
  "c_terminal_seen (snd (client_now c)) = c_terminal_seen c" "c_config (snd (client_now c)) = c_config c"
  by (simp_all add: client_now_def client_asks_def same_cursor_def same_world_def hfior_now_ns_def split_def Let_def)

lemma log_records_frame [simp]:
  "same_cursor c (log_records reason rs t c)" "c_pending (log_records reason rs t c) = c_pending c"
  "c_stats (log_records reason rs t c) = c_stats c"
  "c_terminal_seen (log_records reason rs t c) = c_terminal_seen c"
  by (simp_all add: log_records_def same_cursor_def same_world_def)

lemma log_records_receipts:
  "map re_record (c_receipts (log_records reason rs t c)) = map re_record (c_receipts c) @
     (if cc_record_trace (c_config c) then rs else [])"
  by (simp add: log_records_def comp_def)

lemma consume_records_done:
  assumes "length (q_records (c_pending c)) + length rs \<le> 2 ^ 63" "queue_ok (c_pending c)"
  shows "\<exists>c'. consume_records reason shadow rs c = Done c' \<and> same_cursor c c' \<and> queue_ok (c_pending c') \<and>
    q_records (c_pending c') = q_records (c_pending c) @ (if shadow then [] else rs) \<and>
    accounted (if shadow then [] else rs) c c'"
proof (cases shadow)
  case True
  then show ?thesis
    using assms by (auto simp: consume_records_def same_cursor_def same_world_def accounted_def sequence_part_def)
next
  case False
  let ?t = "fst (client_now c)" and ?c1 = "snd (client_now c)"
  let ?c2 = "account_sequences rs ?c1"
  let ?c3 = "if reason = RECEIPT_URGENT
    then ?c2\<lparr>c_button_ages := c_button_ages ?c2 @
      map (age_at ?t) (filter (\<lambda>r. has_flag r HFIOR_RECORD_BUTTON) rs)\<rparr> else ?c2"
  let ?c4 = "log_records reason rs ?t ?c3"
  have c2: "same_cursor c ?c2" "c_pending ?c2 = c_pending c"
    using same_cursor_trans [OF client_now_frame(1)] by simp_all
  then have c3: "same_cursor c ?c3" "c_pending ?c3 = c_pending c" "c_stats ?c3 = c_stats ?c2"
    "c_receipts ?c3 = c_receipts ?c2" "c_terminal_seen ?c3 = c_terminal_seen ?c2"
    by (auto simp: same_cursor_def same_world_def)
  then have c4: "same_cursor c ?c4" "c_pending ?c4 = c_pending c"
    using same_cursor_trans [OF _ log_records_frame(1)] by (simp_all only: log_records_frame(2))
  obtain q where q: "queue_push True (c_pending ?c4) rs = Done q"
      "q_records q = q_records (c_pending c) @ rs" "queue_ok q"
    using queue_push_done [of "c_pending c" rs] assms unfolding c4(2) by blast
  let ?c5 = "upd_cstats (\<lambda>s. s\<lparr>cs_ring_records := cs_ring_records s + of_nat (length rs)\<rparr>) (?c4\<lparr>c_pending := q\<rparr>)"
  have done_: "consume_records reason shadow rs c = Done ?c5"
    using False q(1) by (simp add: consume_records_def Let_def split_def client_push_def)
  have part: "sequence_part (s\<lparr>cs_ring_records := n\<rparr>) = sequence_part s" for s n
    by (simp add: sequence_part_def)
  have conf: "c_config ?c3 = c_config c" using c3(1) by (simp add: same_cursor_def same_world_def)
  have "accounted rs c ?c5"
    using account_sequences_accounts [of rs ?c1] log_records_receipts [of reason rs ?t ?c3]
    unfolding accounted_def by (simp add: part c3(3-5) conf)
  moreover have "same_cursor c ?c5" using c4(1) by (simp add: same_cursor_def same_world_def)
  ultimately show ?thesis using done_ q(2,3) False by auto
qed

section \<open>Draining the ring\<close>

text \<open>
  What a client sees of the ring: an append-only log, no longer than \<open>bound\<close> while it looks. It is
  overrun when a look finds the log more than a capacity ahead of the cursor.
\<close>

definition log_views :: "client \<Rightarrow> (nat \<Rightarrow> hfior_record list) \<Rightarrow> nat \<Rightarrow> bool" where
  "log_views c logs bound \<longleftrightarrow>
     (\<forall>n \<ge> c_views_used c. ring_hist (c_views c n) (logs n) \<and> prefix (logs n) (logs (Suc n)) \<and>
        length (logs n) \<le> bound) \<and>
     unat (c_local_tail c) \<le> length (logs (c_views_used c))"

definition overrun :: "client \<Rightarrow> (nat \<Rightarrow> hfior_record list) \<Rightarrow> bool" where
  "overrun c logs \<longleftrightarrow> (\<exists>n \<ge> c_views_used c. \<exists>tail \<ge> unat (c_local_tail c).
     tail + ring_capacity (c_views c n) < length (logs n))"

text \<open>
  With a window that bounds the log for good: no overrun, since the producer overwrites nothing
  that is not acknowledged.
\<close>

definition client_views :: "client \<Rightarrow> (nat \<Rightarrow> hfior_record list) \<Rightarrow> nat \<Rightarrow> bool" where
  "client_views c logs bound \<longleftrightarrow>
     (\<forall>n \<ge> c_views_used c. ring_hist (c_views c n) (logs n) \<and> prefix (logs n) (logs (Suc n)) \<and>
        length (logs n) \<le> unat (c_local_tail c) + ring_capacity (c_views c n) \<and>
        length (logs n) \<le> bound) \<and>
     unat (c_local_tail c) \<le> length (logs (c_views_used c))"

lemma client_views_iff: "client_views c logs bound \<longleftrightarrow> log_views c logs bound \<and> \<not> overrun c logs"
  unfolding client_views_def log_views_def overrun_def
  by (meson add_le_mono1 le_refl linorder_not_less order.trans)

lemma log_views_prefix:
  assumes "log_views c logs bound" "c_views_used c \<le> m" "m \<le> n"
  shows "prefix (logs m) (logs n)"
  using assms(3)
proof (induction n rule: dec_induct)
  case (step n)
  then have "prefix (logs n) (logs (Suc n))"
    using assms(1,2) by (simp add: log_views_def)
  then show ?case using step.IH by (rule prefix_order.trans [rotated])
qed simp

text \<open>\<open>c'\<close> is \<open>c\<close> after looking further; \<open>log_between\<close> is what its cursor passed.\<close>

definition ahead :: "(nat \<Rightarrow> hfior_record list) \<Rightarrow> client \<Rightarrow> client \<Rightarrow> bool" where
  "ahead logs c c' \<longleftrightarrow> same_world c c' \<and> c_views_used c \<le> c_views_used c' \<and>
     unat (c_local_tail c) \<le> unat (c_local_tail c') \<and>
     unat (c_local_tail c') \<le> length (logs (c_views_used c'))"

definition log_between :: "(nat \<Rightarrow> hfior_record list) \<Rightarrow> client \<Rightarrow> client \<Rightarrow> hfior_record list" where
  "log_between logs c c' =
     take (unat (c_local_tail c') - unat (c_local_tail c)) (drop (unat (c_local_tail c)) (logs (c_views_used c')))"

lemma log_views_ahead: "log_views c logs bound \<Longrightarrow> ahead logs c c' \<Longrightarrow> log_views c' logs bound"
  by (auto simp: log_views_def ahead_def same_world_def)

lemma ahead_refl: "log_views c logs bound \<Longrightarrow> ahead logs c c"
  by (simp add: log_views_def ahead_def)

lemma ahead_trans: "ahead logs a b \<Longrightarrow> ahead logs b c \<Longrightarrow> ahead logs a c"
  using same_world_trans by (auto simp: ahead_def)

lemma overrun_ahead: "overrun c' logs \<Longrightarrow> ahead logs c c' \<Longrightarrow> overrun c logs"
  unfolding overrun_def ahead_def same_world_def by (metis order_trans)

lemma length_log_between:
  "ahead logs c c' \<Longrightarrow> length (log_between logs c c') = unat (c_local_tail c') - unat (c_local_tail c)"
  by (simp add: log_between_def ahead_def min_absorb2 diff_le_mono)

lemma log_between_refl [simp]: "log_between logs c c = []"
  by (simp add: log_between_def)

lemma log_between_append:
  assumes "log_views a logs bound" "ahead logs a b" "ahead logs b c"
  shows "log_between logs a c = log_between logs a b @ log_between logs b c"
proof -
  let ?a = "unat (c_local_tail a)" and ?b = "unat (c_local_tail b)" and ?c = "unat (c_local_tail c)"
  let ?m = "c_views_used b" and ?n = "c_views_used c"
  have le: "?a \<le> ?b" "?b \<le> ?c" "?b \<le> length (logs ?m)" "?m \<le> ?n" using assms(2,3) by (simp_all add: ahead_def)
  obtain more where more: "logs ?n = logs ?m @ more"
    using log_views_prefix [OF log_views_ahead [OF assms(1,2)], of ?m ?n] le(4) by (auto simp: prefix_def)
  have "take (?b - ?a) (drop ?a (logs ?m)) = take (?b - ?a) (drop ?a (logs ?n))"
    using le by (simp add: more)
  moreover have "take (?c - ?a) (drop ?a (logs ?n)) =
      take (?b - ?a) (drop ?a (logs ?n)) @ take (?c - ?b) (drop ?b (logs ?n))"
    using le take_add [of "?b - ?a" "?c - ?b" "drop ?a (logs ?n)"] by (simp add: add.commute)
  ultimately show ?thesis by (simp add: log_between_def)
qed

lemma same_cursor_ahead: "log_views c logs bound \<Longrightarrow> same_cursor c c' \<Longrightarrow> ahead logs c c'"
  by (simp add: same_cursor_def ahead_def log_views_def)

lemma same_cursor_between: "same_cursor b c \<Longrightarrow> log_between logs a c = log_between logs a b"
  by (simp add: log_between_def same_cursor_def)

text \<open>One drain, from \<open>c\<close> to \<open>c'\<close>.\<close>

definition drained :: "(nat \<Rightarrow> hfior_record list) \<Rightarrow> bool \<Rightarrow> client \<Rightarrow> client \<Rightarrow> bool" where
  "drained logs shadow c c' \<longleftrightarrow> ahead logs c c' \<and>
     q_records (c_pending c') = q_records (c_pending c) @ (if shadow then [] else log_between logs c c') \<and>
     queue_ok (c_pending c') \<and> accounted (if shadow then [] else log_between logs c c') c c' \<and>
     c_last_acked_tail c' = c_last_acked_tail c \<and> c_generation c' = c_generation c"

lemma drained_trans:
  assumes "log_views a logs bound" "drained logs shadow a b" "drained logs shadow b c"
  shows "drained logs shadow a c"
proof -
  have ab: "ahead logs a b" and bc: "ahead logs b c" using assms(2,3) by (simp_all add: drained_def)
  then have "c_config b = c_config a" by (simp add: ahead_def same_world_def)
  then have "accounted (if shadow then [] else log_between logs a b @ log_between logs b c) a c"
    using accounted_trans [of _ a b _ c] assms(2,3) by (force simp: drained_def)
  then show ?thesis
    using assms(2,3) ahead_trans [OF ab bc] log_between_append [OF assms(1) ab bc] by (auto simp: drained_def)
qed

lemma ring_read_snapshot:
  "hfior_ring_read_snapshot (Some h) (Some p) False n = ring_read h p n"
  by (simp add: ring_read_def)

text \<open>What the fuel has to suffice for and the queue to have room for.\<close>

definition drain_ready :: "nat \<Rightarrow> nat \<Rightarrow> client \<Rightarrow> bool" where
  "drain_ready fuel bound c \<longleftrightarrow> bound - unat (c_local_tail c) < unat drain_buffer * fuel \<and>
     length (q_records (c_pending c)) + (bound - unat (c_local_tail c)) \<le> 2 ^ 63 \<and> queue_ok (c_pending c)"

lemma drain_loop_reads:
  assumes "log_views c logs bound" "drain_ready fuel bound c"
  shows "(\<exists>c'. drain_loop fuel reason shadow t c =
        Done (t + (unat (c_local_tail c') - unat (c_local_tail c)), c') \<and>
      drained logs shadow c c' \<and> length (logs (c_views_used c)) \<le> unat (c_local_tail c') \<and>
      c_views_used c < c_views_used c' \<and> unat (c_local_tail c') = length (logs (c_views_used c' - 1))) \<or>
    (drain_loop fuel reason shadow t c = Died ''read-only HFIOR drain'' \<and> overrun c logs)"
  using assms
proof (induction fuel arbitrary: c t)
  case 0
  then show ?case by (simp add: drain_ready_def)
next
  case (Suc fuel)
  let ?n = "c_views_used c" and ?tail = "c_local_tail c"
  let ?log = "logs ?n" and ?c1 = "snd (look c)"
  have hist: "ring_hist (c_views c ?n) ?log" and tail: "unat ?tail \<le> length ?log"
    and bnd: "length ?log \<le> bound" and grow: "prefix ?log (logs (Suc ?n))"
    using Suc.prems(1) by (simp_all add: log_views_def)
  show ?case
  proof (cases "ring_read (c_views c ?n) ?tail drain_buffer")
    case (Inl e)
    then have "\<not> length ?log - unat ?tail \<le> ring_capacity (c_views c ?n)"
      using ring_log.read_total [OF hist tail, of drain_buffer] by auto
    then have "overrun c logs" unfolding overrun_def by (intro exI [of _ ?n] conjI exI [of _ "unat ?tail"]) simp_all
    then show ?thesis using Inl by (simp add: look_def ring_read_snapshot)
  next
    case (Inr r)
    obtain out p where read: "ring_read (c_views c ?n) ?tail drain_buffer = Inr (out, p)"
      using Inr by (cases r) simp
    note step = ring_log.read_step [OF hist read]
    have out: "out = take (length out) (drop (unat ?tail) ?log)"
      using step(3) by (metis append_eq_conv_conj)
    let ?c2 = "?c1\<lparr>c_local_tail := p\<rparr>"
    have unfold: "drain_loop (Suc fuel) reason shadow t c =
        (if out = [] then Done (t, ?c2)
         else after (consume_records reason shadow out ?c2)
           (\<lambda>c3. if length out < unat drain_buffer then Done (t + length out, c3)
                 else drain_loop fuel reason shadow (t + length out) c3))"
      using read by (simp add: look_def ring_read_snapshot)
    have ahead2: "ahead logs c ?c2"
      using step(2,5) prefix_length_le [OF grow] by (simp add: ahead_def look_def same_world_def)
    obtain more where "logs (Suc ?n) = ?log @ more" using grow by (auto simp: prefix_def)
    then have "log_between logs c ?c2 = take (length out) (drop (unat ?tail) ?log)"
      using step(2,5) by (simp add: log_between_def look_def)
    then have between2: "log_between logs c ?c2 = out" using out by simp
    have acc2: "accounted [] c ?c2" by (simp add: accounted_def look_def)
    show ?thesis
    proof (cases "out = []")
      case True
      then have "drained logs shadow c ?c2"
        using ahead2 between2 acc2 Suc.prems(2) by (simp add: drained_def look_def drain_ready_def)
      moreover have "unat p = length ?log" using step(6) True by (simp add: drain_buffer_def)
      ultimately show ?thesis
        unfolding unfold using True tail step(2)
        by (intro disjI1 exI [of _ ?c2]) (simp add: look_def)
    next
      case False
      have pend: "c_pending ?c2 = c_pending c" by (simp add: look_def)
      have "length out \<le> bound - unat ?tail" using step(2,5) bnd by linarith
      then have "length (q_records (c_pending ?c2)) + length out \<le> 2 ^ 63" "queue_ok (c_pending ?c2)"
        using Suc.prems(2) unfolding drain_ready_def pend by linarith+
      from consume_records_done [OF this] obtain c3 where c3: "consume_records reason shadow out ?c2 = Done c3"
          "same_cursor ?c2 c3" "queue_ok (c_pending c3)"
          "q_records (c_pending c3) = q_records (c_pending c) @ (if shadow then [] else out)"
          "accounted (if shadow then [] else out) ?c2 c3"
        by (auto simp: look_def)
      have used3: "c_views_used c3 = Suc ?n" "c_local_tail c3 = p"
        using c3(2) by (simp_all add: same_cursor_def look_def)
      have ahead3: "ahead logs c c3"
        by (rule ahead_trans [OF ahead2 same_cursor_ahead [OF log_views_ahead [OF Suc.prems(1) ahead2] c3(2)]])
      have d3: "drained logs shadow c c3"
        using ahead3 c3 accounted_trans [OF acc2 c3(5)] same_cursor_between [OF c3(2), of logs c] between2
        by (auto simp: drained_def same_cursor_def look_def)
      show ?thesis
      proof (cases "length out < unat drain_buffer")
        case True
        then show ?thesis
          unfolding unfold using False c3(1) d3 step(2,6) used3 by (intro disjI1 exI [of _ c3]) simp
      next
        case full: False
        have views3: "log_views c3 logs bound" by (rule log_views_ahead [OF Suc.prems(1) ahead3])
        have "drain_ready fuel bound c3"
          using Suc.prems(2) step(2,4,5) bnd full used3 c3(3,4) by (auto simp: drain_ready_def)
        note IH = Suc.IH [OF views3 this, of "t + length out"]
        have loop: "drain_loop (Suc fuel) reason shadow t c = drain_loop fuel reason shadow (t + length out) c3"
          unfolding unfold using False full c3(1) by simp
        from IH show ?thesis
        proof (elim disjE exE conjE)
          fix c' assume IH: "drain_loop fuel reason shadow (t + length out) c3 =
              Done (t + length out + (unat (c_local_tail c') - unat (c_local_tail c3)), c')"
            "drained logs shadow c3 c'" "length (logs (c_views_used c3)) \<le> unat (c_local_tail c')"
            "c_views_used c3 < c_views_used c'" "unat (c_local_tail c') = length (logs (c_views_used c' - 1))"
          have "unat p \<le> unat (c_local_tail c')" using IH(2) used3 by (simp add: drained_def ahead_def)
          then have "t + length out + (unat (c_local_tail c') - unat (c_local_tail c3)) =
              t + (unat (c_local_tail c') - unat ?tail)" using step(2) used3 by simp
          then show ?thesis
            unfolding loop using IH drained_trans [OF Suc.prems(1) d3 IH(2)] used3 prefix_length_le [OF grow]
            by (intro disjI1 exI [of _ c']) simp
        next
          assume "drain_loop fuel reason shadow (t + length out) c3 = Died ''read-only HFIOR drain''" "overrun c3 logs"
          then show ?thesis unfolding loop using overrun_ahead [OF _ ahead3] by simp
        qed
      qed
    qed
  qed
qed

lemma drain_ring_reads:
  assumes "log_views c logs bound" "drain_ready fuel bound c"
  shows "(\<exists>c'. drain_ring fuel reason shadow False c = Done (unat (c_local_tail c') - unat (c_local_tail c), c') \<and>
      drained logs shadow c c' \<and> length (logs (c_views_used c)) \<le> unat (c_local_tail c') \<and>
      c_views_used c < c_views_used c' \<and> unat (c_local_tail c') = length (logs (c_views_used c' - 1))) \<or>
    (drain_ring fuel reason shadow False c = Died ''read-only HFIOR drain'' \<and> overrun c logs)"
proof -
  let ?c = "upd_cstats (\<lambda>s. s\<lparr>cs_ring_checks := cs_ring_checks s + 1\<rparr>) c"
  have part: "sequence_part (s\<lparr>cs_ring_checks := n\<rparr>) = sequence_part s"
    "sequence_part (s\<lparr>cs_nonempty_ring_checks := n\<rparr>) = sequence_part s" for s n
    by (simp_all add: sequence_part_def)
  have c: "log_views ?c logs bound" "drain_ready fuel bound ?c" "overrun ?c logs = overrun c logs"
    using assms by (simp_all add: log_views_def drain_ready_def overrun_def)
  from drain_loop_reads [OF c(1,2), of reason shadow 0] show ?thesis
  proof (elim disjE exE conjE)
    fix c' assume r: "drain_loop fuel reason shadow 0 ?c = Done (0 + (unat (c_local_tail c') - unat (c_local_tail ?c)), c')"
      "drained logs shadow ?c c'" "length (logs (c_views_used ?c)) \<le> unat (c_local_tail c')"
      "c_views_used ?c < c_views_used c'" "unat (c_local_tail c') = length (logs (c_views_used c' - 1))"
    let ?d = "if unat (c_local_tail c') - unat (c_local_tail c) \<noteq> 0
      then upd_cstats (\<lambda>s. s\<lparr>cs_nonempty_ring_checks := cs_nonempty_ring_checks s + 1\<rparr>) c' else c'"
    have "drained logs shadow c ?d"
      using r(2) by (simp add: drained_def ahead_def same_world_def accounted_def log_between_def part)
    moreover have "drain_ring fuel reason shadow False c = Done (unat (c_local_tail c') - unat (c_local_tail c), ?d)"
      using r(1) by (simp add: drain_ring_def Let_def)
    ultimately show ?thesis using r(3-5) by (intro disjI1 exI [of _ ?d]) simp
  next
    assume "drain_loop fuel reason shadow 0 ?c = Died ''read-only HFIOR drain''" "overrun ?c logs"
    then show ?thesis by (simp add: drain_ring_def c(3))
  qed
qed

end
