(* ===== verification/Client_Accounting.thy ===== *)
theory Client_Accounting
  imports Client_Reading
begin

text \<open>
  The properties of what the latency client reads: its queue, a drain of the ring under a
  producer that keeps publishing, the accounting of sequence numbers, and the summary of a
  batch of records.
\<close>

section \<open>Properties of the queue\<close>

text \<open>A push to the pending queue (of less than \<open>2^63\<close> records) appends exactly the records and
  never writes past the allocation; the allocation grows by doubling, to less than twice what is
  needed, and taking everything leaves the queue empty with its allocation kept.\<close>

lemma queue_push_take:
  assumes "queue_ok q" "length (q_records q) + length rs \<le> 2 ^ 63"
  shows "\<exists>q'. queue_push True q rs = Done q' \<and> queue_ok q' \<and>
    (q_capacity q' = q_capacity q \<or> q_capacity q' = 4096 \<or>
     q_capacity q' < 2 * (length (q_records q) + length rs)) \<and>
    queue_take_all q' = (q_records q @ rs, q'\<lparr>q_records := []\<rparr>)"
proof (cases "rs = [] \<or> length (q_records q) + length rs \<le> q_capacity q")
  case True
  then show ?thesis
    using assms(1) by (auto simp: queue_push_def queue_reserve_locked_def queue_ok_def queue_take_all_def)
next
  case False
  have "0 < (if q_capacity q \<noteq> 0 then q_capacity q else 4096)" by simp
  from grow_capacity_some [OF this assms(2)] obtain c where
    "grow_capacity (if q_capacity q \<noteq> 0 then q_capacity q else 4096)
       (length (q_records q) + length rs) = Some c" "length (q_records q) + length rs \<le> c"
    "c = (if q_capacity q \<noteq> 0 then q_capacity q else 4096) \<or> c < 2 * (length (q_records q) + length rs)"
    by blast
  then show ?thesis
    using False
    by (auto simp: queue_push_def queue_reserve_locked_def queue_ok_def queue_take_all_def split: if_splits)
qed

lemma queue_push_take_witness:
  "\<exists>q'. queue_push True \<lparr>q_records = [], q_capacity = 0\<rparr> [zero_record] = Done q' \<and> queue_ok q' \<and>
     queue_take_all q' = ([zero_record], q'\<lparr>q_records := []\<rparr>)"
  using queue_push_take [of "\<lparr>q_records = [], q_capacity = 0\<rparr>" "[zero_record]"] by (auto simp: queue_ok_def)

section \<open>Draining and acknowledging\<close>

lemma send_ack_cases:
  "send_ack_if_needed c = Done c' \<Longrightarrow>
    c_local_tail c' = c_local_tail c \<and> c_last_acked_tail c' = c_local_tail c \<and>
    c_pending c' = c_pending c \<and> c_views c' = c_views c \<and> c_views_used c' = c_views_used c \<and>
    c_generation c' = c_generation c"
  by (auto simp: send_ack_if_needed_def client_asks_def Let_def split_def split: if_splits)

lemma drain_ring_exact:
  assumes "client_views c logs bound" "bound - unat (c_local_tail c) < unat drain_buffer * fuel"
    "length (q_records (c_pending c)) + (bound - unat (c_local_tail c)) \<le> 2 ^ 63" "queue_ok (c_pending c)"
  shows "\<exists>n new c'. drain_ring fuel reason shadow False c = Done (length new, c') \<and>
    new = take (length new) (drop (unat (c_local_tail c)) (logs n)) \<and>
    unat (c_local_tail c') = unat (c_local_tail c) + length new \<and>
    q_records (c_pending c') = q_records (c_pending c) @ (if shadow then [] else new) \<and>
    length (logs (c_views_used c)) \<le> unat (c_local_tail c') \<and>
    c_last_acked_tail c' = c_last_acked_tail c \<and> queue_ok (c_pending c') \<and>
    c_generation c' = c_generation c \<and> c_socket_fd c' = c_socket_fd c"
proof -
  have views: "log_views c logs bound" "\<not> overrun c logs" using assms(1) by (simp_all add: client_views_iff)
  have "drain_ready fuel bound c" using assms(2-) by (simp add: drain_ready_def)
  from drain_ring_reads [OF views(1) this, of reason shadow] views(2) obtain c'
    where r: "drain_ring fuel reason shadow False c = Done (unat (c_local_tail c') - unat (c_local_tail c), c')"
      "drained logs shadow c c'" "length (logs (c_views_used c)) \<le> unat (c_local_tail c')" by blast
  have len: "length (log_between logs c c') = unat (c_local_tail c') - unat (c_local_tail c)"
    using r(2) by (intro length_log_between) (simp add: drained_def)
  show ?thesis
    using r len unfolding drained_def ahead_def same_world_def
    by (intro exI [of _ "c_views_used c'"] exI [of _ "log_between logs c c'"] exI [of _ c'] conjI)
      (simp_all, simp add: log_between_def)
qed

text \<open>C9: A drain of the ring while the producer keeps publishing delivers the next records of the
  log to the pending queue, in order, without a gap or a repetition (or counts them only, in the shadow
  mode), and at its end has read at least everything committed when it began; without an immediate
  acknowledgement nothing is sent. \<open>bound\<close> is how far the log can get while it runs, and one unit of
  fuel suffices for 4096 records.\<close>

theorem drain_ring_delivers:
  assumes "client_views c logs bound" "bound - unat (c_local_tail c) < unat drain_buffer * fuel"
    "length (q_records (c_pending c)) + (bound - unat (c_local_tail c)) \<le> 2 ^ 63" "queue_ok (c_pending c)"
  shows "\<exists>n new c'. drain_ring fuel reason shadow False c = Done (length new, c') \<and>
    new = take (length new) (drop (unat (c_local_tail c)) (logs n)) \<and>
    unat (c_local_tail c') = unat (c_local_tail c) + length new \<and>
    q_records (c_pending c') = q_records (c_pending c) @ (if shadow then [] else new) \<and>
    length (logs (c_views_used c)) \<le> unat (c_local_tail c') \<and>
    c_last_acked_tail c' = c_last_acked_tail c"
  using drain_ring_exact [OF assms] by metis

definition zero_cstats :: client_stats where
  "zero_cstats = \<lparr>cs_started_ns = 0, cs_finished_ns = 0, cs_frames = 0, cs_overruns = 0,
     cs_input_consumptions = 0, cs_expensive_actions = 0, cs_late_latch_actions = 0, cs_ring_checks = 0,
     cs_nonempty_ring_checks = 0, cs_ring_records = 0, cs_shadow_ring_records = 0, cs_eager_messages = 0,
     cs_eager_records = 0, cs_control_messages = 0, cs_acknowledgements_sent = 0, cs_urgent_reads = 0,
     cs_urgent_counter_total = 0, cs_terminal_records = 0, cs_sequence_gaps = 0,
     cs_duplicate_or_reordered = 0, cs_first_sequence = 0, cs_last_sequence = 0,
     cs_ingress_thread_cpu_ns = 0, cs_consumer_process_cpu_ns = 0, cs_voluntary_context_switches = 0,
     cs_involuntary_context_switches = 0, cs_generation_changes = 0,
     cs_stall_count = 0, cs_late_latch_records = 0, cs_frames_with_late_latch = 0, cs_spin_iterations = 0\<rparr>"

text \<open>A client at the start of a ring that never changes, for evaluation.\<close>

definition demo_client :: "kernel \<Rightarrow> hfior_ring_header \<Rightarrow> client" where
  "demo_client k ring = \<lparr>
     c_config = \<lparr>cc_socket_path = ''/run/hfior.sock'', cc_output_dir = Some ''out'', cc_policy = Some POLICY_HFIOR_LATE, cc_ack_placement = ACK_CRITICAL, cc_checks_per_frame = 1,
       cc_final_rechecks = 0, cc_frame_hz = 240, cc_duration_s = 1, cc_input_phase = 0, cc_base_work_ns = 0,
       cc_integration_work_ns = 0, cc_callback_work_ns = 0, cc_spin_ns = 0, cc_tail_threshold_ns = 500000, cc_stall_after_ms = 0,
       cc_stall_ms = 0, cc_consumer_cpu = - 1, cc_ingress_cpu = - 1, cc_record_trace = True,
       cc_uncapped = False, cc_quiet = True\<rparr>,
     c_stats = zero_cstats, c_socket_fd = 3, c_memfd = 4, c_urgent_fd = 5, c_views = (\<lambda>_. ring),
     c_views_used = 0, c_mapping_size = hfior_mapping_size 2, c_generation = 1, c_local_tail = 0,
     c_last_acked_tail = 0, c_features = 0, c_producer_pid = 0, c_frames_csv = [], c_tail_csv = [],
     c_receipts = [], c_pending = \<lparr>q_records = [], q_capacity = 0\<rparr>, c_ingress_started = False,
     c_ingress_done = False, c_ingress_cpu_start = 0,
     c_schedule = (\<lambda>_. 0), c_switches = 0, c_stop = False, c_terminal_seen = False,
     c_frame_times = [], c_sample_ages = [], c_legacy_ages = [], c_latch_costs = [], c_start_lateness = [],
     c_button_ages = [], c_eager_ingress_ages = [], c_kernel = k\<rparr>"

lemma demo_client_views: "client_views (demo_client k demo_ring1) (\<lambda>_. [demo_record]) 1"
  by (simp add: client_views_def demo_client_def demo_ring1_facts)

lemma drain_ring_delivers_witness:
  "\<exists>c'. drain_ring 1 RECEIPT_FRAME_RING False False (demo_client quiet_kernel demo_ring1) = Done (1, c') \<and>
     q_records (c_pending c') = [demo_record]"
proof -
  let ?c = "demo_client quiet_kernel demo_ring1"
  have pre: "1 - unat (c_local_tail ?c) < unat drain_buffer * 1"
    "length (q_records (c_pending ?c)) + (1 - unat (c_local_tail ?c)) \<le> 2 ^ 63" "queue_ok (c_pending ?c)"
    "q_records (c_pending ?c) = []" "unat (c_local_tail ?c) = 0"
    by (simp_all add: demo_client_def drain_buffer_def queue_ok_def)
  from drain_ring_delivers [OF demo_client_views pre(1-3), of RECEIPT_FRAME_RING False] obtain new c' where
    r: "drain_ring 1 RECEIPT_FRAME_RING False False ?c = Done (length new, c')"
      "new = take (length new) [demo_record]" "q_records (c_pending c') = new"
      "length [demo_record] \<le> unat (c_local_tail c')" "unat (c_local_tail c') = length new"
    unfolding pre(4,5) by auto
  then have "new = [demo_record]" by (cases new) auto
  then show ?thesis using r by auto
qed

section \<open>Sequence numbers\<close>

lemma account_sequence_next:
  assumes "cs_last_sequence s < q" "q \<noteq> 0" "cs_last_sequence s \<noteq> 0" "cs_first_sequence s \<noteq> 0"
  shows "account_sequence s q = s\<lparr>cs_sequence_gaps := cs_sequence_gaps s + (q - cs_last_sequence s - 1),
     cs_last_sequence := q\<rparr>"
proof -
  have "cs_last_sequence s + 1 \<le> q" using assms(1) by (rule inc_le)
  then show ?thesis
    using assms by (cases "q = cs_last_sequence s + 1") (auto simp: account_sequence_def Let_def)
qed

lemma account_sequences_gaps:
  assumes "sorted_wrt (<) (map r_sequence rs)" "\<forall>r \<in> set rs. cs_last_sequence (c_stats c) < r_sequence r"
    "cs_last_sequence (c_stats c) \<noteq> 0" "cs_first_sequence (c_stats c) \<noteq> 0"
  shows "let s = c_stats (account_sequences rs c) in
    cs_last_sequence s = last (cs_last_sequence (c_stats c) # map r_sequence rs) \<and>
    cs_sequence_gaps s = cs_sequence_gaps (c_stats c) +
      (cs_last_sequence s - cs_last_sequence (c_stats c) - of_nat (length rs)) \<and>
    cs_duplicate_or_reordered s = cs_duplicate_or_reordered (c_stats c) \<and>
    cs_first_sequence s = cs_first_sequence (c_stats c)"
  using assms
proof (induction rs arbitrary: c)
  case Nil
  then show ?case by simp
next
  case (Cons r rs)
  let ?q = "r_sequence r"
  have q: "cs_last_sequence (c_stats c) < ?q" "?q \<noteq> 0" using Cons.prems(2) by (auto simp: word_less_nat_alt)
  let ?c1 = "c\<lparr>c_stats := account_sequence (c_stats c) ?q\<rparr>"
  let ?c2 = "if has_flag r HFIOR_RECORD_TERMINATE
    then (upd_cstats (\<lambda>s. s\<lparr>cs_terminal_records := cs_terminal_records s + 1\<rparr>) ?c1)\<lparr>c_terminal_seen := True\<rparr>
    else ?c1"
  have acc: "account_sequence (c_stats c) ?q = (c_stats c)\<lparr>cs_sequence_gaps :=
      cs_sequence_gaps (c_stats c) + (?q - cs_last_sequence (c_stats c) - 1), cs_last_sequence := ?q\<rparr>"
    using account_sequence_next [OF q Cons.prems(3,4)] .
  have c2: "cs_last_sequence (c_stats ?c2) = ?q" "cs_first_sequence (c_stats ?c2) = cs_first_sequence (c_stats c)"
    "cs_sequence_gaps (c_stats ?c2) = cs_sequence_gaps (c_stats c) + (?q - cs_last_sequence (c_stats c) - 1)"
    "cs_duplicate_or_reordered (c_stats ?c2) = cs_duplicate_or_reordered (c_stats c)"
    by (simp_all add: acc)
  have step: "account_sequences (r # rs) c = account_sequences rs ?c2"
    using q(2) by (simp add: Let_def)
  show ?case
    unfolding step using Cons.IH [of ?c2] Cons.prems q(2) c2 by (auto simp: Let_def)
qed


lemma card_missing:
  assumes "sorted_wrt (<) (map r_sequence rs)" "rs \<noteq> []"
  shows "card ({unat (r_sequence (hd rs))..unat (r_sequence (last rs))} - (unat \<circ> r_sequence) ` set rs) =
      unat (r_sequence (last rs)) + 1 - unat (r_sequence (hd rs)) - length rs"
    "unat (r_sequence (hd rs)) + length rs \<le> unat (r_sequence (last rs)) + 1"
proof -
  let ?S = "(unat \<circ> r_sequence) ` set rs" and ?I = "{unat (r_sequence (hd rs))..unat (r_sequence (last rs))}"
  have "r_sequence (hd rs) \<le> r_sequence r \<and> r_sequence r \<le> r_sequence (last rs)" if "r \<in> set rs" for r
  proof -
    obtain i where i: "i < length rs" "r = rs ! i" using \<open>r \<in> set rs\<close> by (metis in_set_conv_nth)
    have lt: "r_sequence (rs ! a) < r_sequence (rs ! b)" if "a < b" "b < length rs" for a b
      using assms(1) that by (simp add: sorted_wrt_iff_nth_less)
    have "r_sequence (rs ! 0) \<le> r_sequence r" using lt [of 0 i] i by (cases i) auto
    moreover have "r_sequence r \<le> r_sequence (rs ! (length rs - 1))"
    proof (cases "i = length rs - 1")
      case False
      then have "i < length rs - 1" "length rs - 1 < length rs" using i by simp_all
      from lt [OF this] show ?thesis using i by simp
    qed (simp add: i)
    ultimately show ?thesis using assms(2) by (simp add: hd_conv_nth last_conv_nth)
  qed
  then have sub: "?S \<subseteq> ?I" by (auto simp: word_le_nat_alt)
  have "distinct (map r_sequence rs)" using assms(1) by (simp add: strict_sorted_iff)
  then have "distinct (map (unat \<circ> r_sequence) rs)"
    by (auto simp: distinct_map inj_on_def intro: unsigned_word_eqI)
  then have card: "card ?S = length rs" using distinct_card [of "map (unat \<circ> r_sequence) rs"] by simp
  then show "card (?I - ?S) = unat (r_sequence (last rs)) + 1 - unat (r_sequence (hd rs)) - length rs"
    using sub by (simp add: card_Diff_subset finite_subset [OF sub])
  have "length rs \<le> card ?I" using card card_mono [OF _ sub] by simp
  moreover have "0 < length rs" using assms(2) by simp
  ultimately show "unat (r_sequence (hd rs)) + length rs \<le> unat (r_sequence (last rs)) + 1"
    by (simp only: card_atLeastAtMost)
qed

lemma account_sequences_exact:
  assumes "sorted_wrt (<) (map r_sequence rs)" "\<forall>r \<in> set rs. r_sequence r \<noteq> 0" "rs \<noteq> []"
    "c_stats c = zero_cstats"
  shows "let s = c_stats (account_sequences rs c) in
    cs_first_sequence s = r_sequence (hd rs) \<and> cs_last_sequence s = r_sequence (last rs) \<and>
    unat (cs_sequence_gaps s) =
      card ({unat (r_sequence (hd rs))..unat (r_sequence (last rs))} - (unat \<circ> r_sequence) ` set rs) \<and>
    cs_duplicate_or_reordered s = 0"
proof -
  obtain r rest where rs: "rs = r # rest" using assms(3) by (cases rs) auto
  let ?q = "r_sequence r"
  have q: "?q \<noteq> 0" using assms(2) rs by simp
  let ?c1 = "c\<lparr>c_stats := account_sequence (c_stats c) ?q\<rparr>"
  let ?c2 = "if has_flag r HFIOR_RECORD_TERMINATE
    then (upd_cstats (\<lambda>s. s\<lparr>cs_terminal_records := cs_terminal_records s + 1\<rparr>) ?c1)\<lparr>c_terminal_seen := True\<rparr>
    else ?c1"
  have acc: "account_sequence (c_stats c) ?q = zero_cstats\<lparr>cs_first_sequence := ?q, cs_last_sequence := ?q\<rparr>"
    using q assms(4) by (simp add: account_sequence_def Let_def zero_cstats_def word_gt_0)
  have c2: "cs_last_sequence (c_stats ?c2) = ?q" "cs_first_sequence (c_stats ?c2) = ?q"
    "cs_sequence_gaps (c_stats ?c2) = 0" "cs_duplicate_or_reordered (c_stats ?c2) = 0"
    by (simp_all add: acc zero_cstats_def)
  have step: "account_sequences rs c = account_sequences rest ?c2"
    using q by (simp add: rs Let_def)
  let ?s = "c_stats (account_sequences rs c)"
  have last: "last (?q # map r_sequence rest) = r_sequence (last rs)" by (simp add: rs last_map)
  have inc: "sorted_wrt (<) (map r_sequence rest)"
    "\<forall>x \<in> set rest. cs_last_sequence (c_stats ?c2) < r_sequence x"
    "cs_last_sequence (c_stats ?c2) \<noteq> 0" "cs_first_sequence (c_stats ?c2) \<noteq> 0"
    using assms(1) rs q unfolding c2 by simp_all
  have gaps: "cs_last_sequence ?s = r_sequence (last rs)"
    "cs_sequence_gaps ?s = r_sequence (last rs) - ?q - of_nat (length rest)"
    "cs_duplicate_or_reordered ?s = 0" "cs_first_sequence ?s = ?q"
    using account_sequences_gaps [OF inc] unfolding step [symmetric] c2 last Let_def by simp_all
  have room: "unat ?q + length rest \<le> unat (r_sequence (last rs))"
    using card_missing(2) [OF assms(1,3)] rs by simp
  then have le: "?q \<le> r_sequence (last rs)" by (simp add: word_le_nat_alt)
  have "length rest < 2 ^ 64" using room unat_less_pow [of "r_sequence (last rs)"] by simp
  then have n: "unat (of_nat (length rest) :: u64) = length rest"
    by (simp add: unat_of_nat take_bit_nat_eq_self_iff)
  then have "unat (cs_sequence_gaps ?s) = unat (r_sequence (last rs)) - unat ?q - length rest"
    using room le unfolding gaps(2) by (simp add: unat_sub_le word_le_nat_alt)
  then show ?thesis
    using gaps card_missing(1) [OF assms(1,3)] rs by (simp add: Let_def)
qed

text \<open>C17: The client counts exactly the missing sequence numbers: after records with increasing
  sequence numbers, the first and the last are remembered, the gap counter is the number of sequence
  numbers between them that no record had, and nothing is counted as repeated or out of order.\<close>

theorem account_sequences_counts_missing:
  assumes "sorted_wrt (<) (map r_sequence rs)" "\<forall>r \<in> set rs. r_sequence r \<noteq> 0" "rs \<noteq> []"
    "c_stats c = zero_cstats"
  shows "let s = c_stats (account_sequences rs c) in
    cs_first_sequence s = r_sequence (hd rs) \<and> cs_last_sequence s = r_sequence (last rs) \<and>
    unat (cs_sequence_gaps s) =
      card ({unat (r_sequence (hd rs))..unat (r_sequence (last rs))} - (unat \<circ> r_sequence) ` set rs) \<and>
    cs_duplicate_or_reordered s = 0"
  by (rule account_sequences_exact [OF assms])

lemma account_sequences_counts_missing_witness:
  "unat (cs_sequence_gaps (c_stats (account_sequences
     [zero_record\<lparr>r_sequence := 2\<rparr>, zero_record\<lparr>r_sequence := 5\<rparr>] (demo_client quiet_kernel demo_ring1)))) =
   card ({2..5} - {2, 5 :: nat})"
  using account_sequences_counts_missing [of "[zero_record\<lparr>r_sequence := 2\<rparr>, zero_record\<lparr>r_sequence := 5\<rparr>]"
      "demo_client quiet_kernel demo_ring1"]
  by (simp add: demo_client_def Let_def)

section \<open>The summary\<close>

text \<open>The order of the summary: the time first, then the sequence number.\<close>

definition later :: "u64 \<times> u64 \<Rightarrow> u64 \<times> u64 \<Rightarrow> bool" where
  "later a b \<longleftrightarrow> fst a > fst b \<or> (fst a = fst b \<and> snd a > snd b)"

definition stamp :: "hfior_record \<Rightarrow> u64 \<times> u64" where
  "stamp r = (r_timestamp_ns r, r_sequence r)"

definition newest :: "summary \<Rightarrow> u64 \<times> u64" where
  "newest s = (su_newest s, su_newest_sequence s)"

lemma later_trans: "\<not> later a b \<Longrightarrow> \<not> later b c \<Longrightarrow> \<not> later a c"
  by (auto simp: later_def)

lemma summarize_record_facts:
  "newest (summarize_record r s) = (if later (stamp r) (newest s) then stamp r else newest s)"
  "su_oldest (summarize_record r s) = min (r_timestamp_ns r) (su_oldest s)"
  "su_buttons (summarize_record r s) = su_buttons s + (if has_flag r HFIOR_RECORD_BUTTON then 1 else 0)"
  by (auto simp: summarize_record_def Let_def newest_def stamp_def later_def min_def)

text \<open>C27: The summary of the pending records is that of the whole batch, whatever the order they
  came in: its newest entry is one of them or the old one and none is later (by time, then by
  sequence number); its oldest time is the least; and its button count is the number of button
  records.\<close>

theorem summary_correct:
  "newest (summarize_records rs s) \<in> insert (newest s) (stamp ` set rs) \<and>
   \<not> later (newest s) (newest (summarize_records rs s)) \<and>
   (\<forall>r \<in> set rs. \<not> later (stamp r) (newest (summarize_records rs s))) \<and>
   su_oldest (summarize_records rs s) = Min (insert (su_oldest s) (r_timestamp_ns ` set rs)) \<and>
   su_buttons (summarize_records rs s) =
     su_buttons s + of_nat (length (filter (\<lambda>r. has_flag r HFIOR_RECORD_BUTTON) rs))"
proof (induction rs arbitrary: s)
  case Nil
  then show ?case by (simp add: summarize_records_def later_def)
next
  case (Cons r rs)
  let ?s = "summarize_record r s"
  have step: "summarize_records (r # rs) s = summarize_records rs ?s" by (simp add: summarize_records_def)
  have up: "\<not> later (stamp r) (newest ?s)" "\<not> later (newest s) (newest ?s)"
    "newest ?s \<in> {newest s, stamp r}"
    by (auto simp: summarize_record_facts(1)) (auto simp: later_def)
  have "\<not> later (stamp r) (newest (summarize_records rs ?s))"
    "\<not> later (newest s) (newest (summarize_records rs ?s))"
    using later_trans [OF up(1)] later_trans [OF up(2)] Cons.IH [of ?s] by blast+
  moreover have "Min (insert (su_oldest ?s) (r_timestamp_ns ` set rs)) =
      Min (insert (su_oldest s) (insert (r_timestamp_ns r) (r_timestamp_ns ` set rs)))"
    unfolding summarize_record_facts(2)
    by (cases "set rs = {}") (simp_all add: min.commute min.left_commute)
  ultimately show ?case
    unfolding step using Cons.IH [of ?s] up(3) summarize_record_facts(3) [of r s]
    by (auto simp: insert_commute)
qed

lemma summary_correct_witness:
  "su_oldest (summarize_records [zero_record\<lparr>r_timestamp_ns := 7\<rparr>, zero_record\<lparr>r_timestamp_ns := 5\<rparr>]
       \<lparr>su_newest = 0, su_newest_sequence = 0, su_oldest = 18446744073709551615, su_buttons = 0\<rparr>) = 5 \<and>
   \<not> later (7, 0) (newest (summarize_records [zero_record\<lparr>r_timestamp_ns := 7\<rparr>, zero_record\<lparr>r_timestamp_ns := 5\<rparr>]
       \<lparr>su_newest = 0, su_newest_sequence = 0, su_oldest = 18446744073709551615, su_buttons = 0\<rparr>))"
  using summary_correct [of "[zero_record\<lparr>r_timestamp_ns := 7\<rparr>, zero_record\<lparr>r_timestamp_ns := 5\<rparr>]"
      "\<lparr>su_newest = 0, su_newest_sequence = 0, su_oldest = 18446744073709551615, su_buttons = 0\<rparr>"]
  by (simp add: stamp_def zero_record_def)

end
