(* ===== verification/Client_Session.thy ===== *)
theory Client_Session
  imports Client_Accounting
begin

text \<open>
  The latency client's session with the bridge: the hello and the mapping it accepts, the start
  handshake, the busy loop and the control socket.
\<close>

section \<open>The hello\<close>

lemma receive_hello_done:
  assumes "receive_hello mapped c = Done c'"
  obtains hello :: hfior_hello_message where "c_mapping_size c' = hfior_mapping_size (hello_capacity hello)"
    "md_capacity (metadata (c_views c' (c_views_used c' - 1))) = hello_capacity hello"
proof (cases "fst (client_asks (hfior_recv_fds sizeof_hello_message 4) c)")
  case (Inl e)
  then show thesis using assms by (simp add: receive_hello_def split_def)
next
  case (Inr answer)
  then show thesis
    using assms that [of "decode_hello (fst answer)"]
    by (auto simp: receive_hello_def look_def Let_def split_def split: if_splits)
qed

lemma and_pred_le:
  fixes c :: u32
  assumes "c \<noteq> 0"
  shows "unat ((p :: u64) AND ucast (c - 1)) < unat c"
proof -
  have "unat (p AND ucast (c - 1)) \<le> unat (ucast (c - 1) :: u64)"
    using word_and_le1 [of p "ucast (c - 1)"] by (simp only: word_le_nat_alt)
  moreover have "unat (ucast (c - 1) :: u64) = unat c - 1" using assms by (simp add: unat_minus_one)
  moreover have "0 < unat c" using assms by (simp add: unat_gt_0)
  ultimately show ?thesis by linarith
qed


definition hello_kernel :: kernel where
  "hello_kernel = quiet_kernel\<lparr>k_recvs := (\<lambda>_. Received \<lparr>rv_bytes = encode_hello
       \<lparr>hello_header = \<lparr>mh_type = HFIOR_MSG_HELLO, mh_size = 40\<rparr>, hello_abi_version = HFIOR_ABI_VERSION,
        hello_capacity = 2, hello_generation = 1, hello_features = 0, hello_producer_pid = 42,
        hello_reserved = 0\<rparr>,
     rv_truncated = False, rv_cmsgs = [Rights [8, 9]]\<rparr>)\<rparr>"

lemma initialize_metadata:
  assumes "hfior_initialize_mapping header sz c feats name bus v p ver gen now = Inr h"
  shows "md_magic (metadata h) = HFIOR_MAGIC" "md_abi_version (metadata h) = HFIOR_ABI_VERSION"
    "md_record_size (metadata h) = of_nat sizeof_record" "md_capacity (metadata h) = c"
  using assms by (auto simp: hfior_initialize_mapping_def split: if_splits)

lemma demo_ring1_metadata:
  "md_magic (metadata demo_ring1) = HFIOR_MAGIC" "md_abi_version (metadata demo_ring1) = HFIOR_ABI_VERSION"
  "md_record_size (metadata demo_ring1) = of_nat sizeof_record" "md_capacity (metadata demo_ring1) = 2"
  using demo_ring_init initialize_metadata by (auto simp: demo_ring1_def)

lemma encode_hello_nonempty: "encode_hello m \<noteq> []"
  using length_encode(3) [of m] by (metis list.size(3) zero_neq_numeral)

lemma hello_accepted:
  "\<exists>c'. receive_hello True (demo_client hello_kernel demo_ring1) = Done c' \<and>
     c_views c' = (\<lambda>_. demo_ring1) \<and> c_mapping_size c' = hfior_mapping_size 2"
  by (simp add: receive_hello_def client_asks_def look_def demo_client_def hello_kernel_def quiet_kernel_def
      hfior_recv_fds_def kernel_recv_def sizeof_defs demo_ring1_metadata Let_def encode_hello_nonempty)


section \<open>The start handshake\<close>

text \<open>C33: When the bridge exits before it sent \<open>STARTED\<close>, every read of the socket reports the end
  of the stream, and the wait for the start never returns: no number of passes suffices.\<close>

theorem await_started_never_ends:
  assumes "\<forall>i \<ge> k_recvs_made (c_kernel c). \<exists>r. k_recvs (c_kernel c) i = Received r \<and> rv_bytes r = []"
  shows "await_started fuel c = Unfinished"
  using assms
proof (induction fuel arbitrary: c)
  case (Suc fuel)
  let ?c1 = "snd (client_asks kernel_recv c)"
  obtain r where r: "fst (client_asks kernel_recv c) = Received r" "rv_bytes r = []"
    using Suc.prems by (auto simp: client_asks_def kernel_recv_def Let_def)
  have "await_started fuel ?c1 = Unfinished"
    using Suc.prems by (intro Suc.IH) (simp add: client_asks_def kernel_recv_def Let_def)
  then show ?case using r by (simp add: split_def Let_def sizeof_message_header_def)
qed simp

lemma await_started_never_ends_witness:
  "await_started 1000 (demo_client (quiet_kernel\<lparr>k_recvs := (\<lambda>_. Received
     \<lparr>rv_bytes = [], rv_truncated = False, rv_cmsgs = []\<rparr>)\<rparr>) demo_ring1) = Unfinished"
  by (rule await_started_never_ends) (simp add: demo_client_def)

section \<open>The busy loop\<close>

definition client_clock :: "client \<Rightarrow> nat \<Rightarrow> u64" where
  "client_clock c i = fst (hfior_now_ns CLOCK_MONOTONIC ((c_kernel c)\<lparr>k_clock_reads := i\<rparr>))"

lemma client_now_clock:
  "fst (client_now c) = client_clock c (k_clock_reads (c_kernel c))"
  "client_clock (snd (client_now c)) = client_clock c"
  "k_clock_reads (c_kernel (snd (client_now c))) = Suc (k_clock_reads (c_kernel c))"
  by (simp_all add: client_now_def client_asks_def client_clock_def hfior_now_ns_def split_def Let_def fun_eq_iff)

lemma busy_until_first:
  assumes "client_clock c (k_clock_reads (c_kernel c) + n) \<ge> deadline"
    "\<forall>i < n. client_clock c (k_clock_reads (c_kernel c) + i) < deadline" "n < fuel"
  shows "busy_until fuel deadline c =
    Done (c\<lparr>c_kernel := (c_kernel c)\<lparr>k_clock_reads := k_clock_reads (c_kernel c) + n + 1\<rparr>\<rparr>)"
  using assms
proof (induction n arbitrary: c fuel)
  case 0
  then obtain f where "fuel = Suc f" by (cases fuel) auto
  moreover have "\<not> fst (client_now c) < deadline" using 0 client_now_clock(1) [of c] by simp
  moreover have "snd (client_now c) = c\<lparr>c_kernel := (c_kernel c)\<lparr>k_clock_reads := k_clock_reads (c_kernel c) + 0 + 1\<rparr>\<rparr>"
    by (simp add: client_now_def client_asks_def hfior_now_ns_def split_def Let_def)
  ultimately show ?case by (simp add: split_def Let_def)
next
  case (Suc n)
  then obtain f where f: "fuel = Suc f" "n < f" by (cases fuel) auto
  let ?c1 = "snd (client_now c)"
  have c1: "?c1 = c\<lparr>c_kernel := (c_kernel c)\<lparr>k_clock_reads := Suc (k_clock_reads (c_kernel c))\<rparr>\<rparr>"
    by (simp add: client_now_def client_asks_def hfior_now_ns_def split_def Let_def)
  have "fst (client_now c) < deadline" using Suc.prems(2) client_now_clock(1) [of c] by auto
  then have step: "busy_until fuel deadline c = busy_until f deadline ?c1"
    by (simp add: f split_def Let_def)
  have "busy_until f deadline ?c1 = Done (?c1\<lparr>c_kernel := (c_kernel ?c1)
      \<lparr>k_clock_reads := k_clock_reads (c_kernel ?c1) + n + 1\<rparr>\<rparr>)"
  proof (rule Suc.IH)
    show "client_clock ?c1 (k_clock_reads (c_kernel ?c1) + n) \<ge> deadline"
      using Suc.prems(1) by (simp add: client_now_clock)
    show "\<forall>i < n. client_clock ?c1 (k_clock_reads (c_kernel ?c1) + i) < deadline"
    proof (intro allI impI)
      fix i assume "i < n"
      then show "client_clock ?c1 (k_clock_reads (c_kernel ?c1) + i) < deadline"
        using Suc.prems(2) [rule_format, of "Suc i"] by (simp add: client_now_clock)
    qed
  qed (rule f(2))
  then show ?case unfolding step by (simp add: c1)
qed

text \<open>The busy loop returns as soon as the clock reads its end: if reading number \<open>n\<close> from now is
  the first at or past the end, it has read the clock exactly \<open>n + 1\<close> times, and has done nothing
  else; a duration of zero reads no clock at all.\<close>

lemma busy_loop_returns:
  assumes "client_clock c (k_clock_reads (c_kernel c) + n) \<ge> deadline"
    "\<forall>i < n. client_clock c (k_clock_reads (c_kernel c) + i) < deadline" "n < fuel"
  shows "busy_until fuel deadline c =
    Done (c\<lparr>c_kernel := (c_kernel c)\<lparr>k_clock_reads := k_clock_reads (c_kernel c) + n + 1\<rparr>\<rparr>)"
  using assms by (rule busy_until_first)

lemma busy_loop_returns_witness:
  "busy_until 5 2000000000 (demo_client quiet_kernel demo_ring1) =
     Done (demo_client (quiet_kernel\<lparr>k_clock_reads := 3\<rparr>) demo_ring1)"
proof -
  let ?c = "demo_client quiet_kernel demo_ring1"
  have clock: "client_clock ?c i = of_nat i * 1000000000" "k_clock_reads (c_kernel ?c) = 0" for i
    by (simp_all add: demo_client_def client_clock_def quiet_kernel_def hfior_now_ns_def)
  have "\<forall>i < 2. client_clock ?c (k_clock_reads (c_kernel ?c) + i) < 2000000000"
    by (auto simp: clock less_2_cases_iff)
  from busy_loop_returns [OF _ this, of 5] have
    "busy_until 5 2000000000 ?c = Done (?c\<lparr>c_kernel := (c_kernel ?c)\<lparr>k_clock_reads := 3\<rparr>\<rparr>)"
    by (simp add: clock)
  then show ?thesis by (simp add: demo_client_def)
qed

end
