(* ===== verification/Client_Options.thy ===== *)
theory Client_Options
  imports Client Numbers
begin

text \<open>
  The command line of the latency client: its policy and placement names, the option loop and the
  checks of \<open>main\<close> before it starts.
\<close>

section \<open>Names\<close>

definition parse_ack_placement :: "string \<Rightarrow> ack_placement option" where
  "parse_ack_placement text =
     (if text = ''critical'' then Some ACK_CRITICAL
      else if text = ''post-use'' then Some ACK_POST_USE
      else if text = ''post-frame'' then Some ACK_POST_FRAME
      else None)"

fun ack_placement_name :: "ack_placement \<Rightarrow> string" where
  "ack_placement_name ACK_CRITICAL = ''critical''"
| "ack_placement_name ACK_POST_USE = ''post-use''"
| "ack_placement_name ACK_POST_FRAME = ''post-frame''"

text \<open>The policy and the checks per frame; the checks stay as they were where a name sets none.\<close>

definition parse_policy :: "string \<Rightarrow> u32 \<Rightarrow> (hfior_policy \<times> u32) option" where
  "parse_policy text checks_per_frame =
     (if text = ''eager-thread'' then Some (POLICY_EAGER_THREAD, checks_per_frame)
      else if text = ''hfior-critical-ack'' then Some (POLICY_HFIOR_CRITICAL_ACK, checks_per_frame)
      else if text = ''hfior-late'' then Some (POLICY_HFIOR_LATE, checks_per_frame)
      else if text = ''hfior-2'' then Some (POLICY_HFIOR_MULTI, 2)
      else if text = ''hfior-4'' then Some (POLICY_HFIOR_MULTI, 4)
      else if text = ''hfior-8'' then Some (POLICY_HFIOR_MULTI, 8)
      else if text = ''hfior-multi'' then Some (POLICY_HFIOR_MULTI, checks_per_frame)
      else if text = ''hfior-two-stage'' then Some (POLICY_HFIOR_TWO_STAGE, checks_per_frame)
      else if text = ''hfior-spin'' then Some (POLICY_HFIOR_SPIN, checks_per_frame)
      else if text = ''hfior-late-latch'' then Some (POLICY_HFIOR_LATE_LATCH, checks_per_frame)
      else if text = ''hfior-8-latch'' then Some (POLICY_HFIOR_LATE_LATCH, 8)
      else if text = ''hfior-stable-latch'' then Some (POLICY_HFIOR_LATE_LATCH, 1)
      else if text = ''hfior-8-stable-latch'' then Some (POLICY_HFIOR_LATE_LATCH, 8)
      else None)"

definition policy_name :: "client_config \<Rightarrow> string" where
  "policy_name config =
     (case cc_policy config of
        Some POLICY_EAGER_THREAD \<Rightarrow> ''eager-thread''
      | Some POLICY_HFIOR_CRITICAL_ACK \<Rightarrow> ''hfior-critical-ack''
      | Some POLICY_HFIOR_LATE \<Rightarrow> ''hfior-late''
      | Some POLICY_HFIOR_MULTI \<Rightarrow>
          if cc_checks_per_frame config = 2 then ''hfior-2''
          else if cc_checks_per_frame config = 4 then ''hfior-4''
          else if cc_checks_per_frame config = 8 then ''hfior-8''
          else ''hfior-multi''
      | Some POLICY_HFIOR_TWO_STAGE \<Rightarrow> ''hfior-two-stage''
      | Some POLICY_HFIOR_SPIN \<Rightarrow> ''hfior-spin''
      | Some POLICY_HFIOR_LATE_LATCH \<Rightarrow>
          if cc_final_rechecks config \<noteq> 0
          then if cc_checks_per_frame config = 8 then ''hfior-8-stable-latch'' else ''hfior-stable-latch''
          else if cc_checks_per_frame config = 8 then ''hfior-8-latch'' else ''hfior-late-latch''
      | None \<Rightarrow> ''unknown'')"

section \<open>Options\<close>

definition default_client_config :: "string \<Rightarrow> client_config" where
  "default_client_config default_socket = \<lparr>
     cc_socket_path = default_socket, cc_output_dir = None, cc_policy = None, cc_ack_placement = ACK_POST_FRAME,
     cc_checks_per_frame = 1, cc_final_rechecks = 0, cc_frame_hz = 240, cc_duration_s = 5,
     cc_input_phase = 1 / 2, cc_base_work_ns = 1800000, cc_integration_work_ns = 0, cc_callback_work_ns = 0,
     cc_spin_ns = 0, cc_tail_threshold_ns = 500000, cc_stall_after_ms = 0, cc_stall_ms = 0,
     cc_consumer_cpu = - 1, cc_ingress_cpu = - 1, cc_record_trace = False, cc_uncapped = False,
     cc_quiet = False\<rparr>"

text \<open>
  \<open>(uint64_t)(parse_double(...) * 1000.0)\<close>; a product of \<open>2^64\<close> or more has no defined result
  (here it is taken modulo \<open>2^64\<close>).
\<close>

definition microseconds :: "rat \<Rightarrow> u64" where
  "microseconds us = u64_of_double (round_double (us * 1000))"

text \<open>
  An option that takes a value: \<open>None\<close> for any other word, \<open>Some None\<close> where the parser of the value
  ends the process with status 2.
\<close>

definition client_value_option :: "string \<Rightarrow> string \<Rightarrow> client_config \<Rightarrow> client_config option option" where
  "client_value_option opt value c =
     (let number = (\<lambda>store. Some (map_option store (parse_u32 value)));
          cpu = (\<lambda>store. Some (map_option store (parse_i32 value)));
          real = (\<lambda>store. Some (map_option store (client_parse_double value)))
      in if opt = ''--socket'' then Some (Some (c\<lparr>cc_socket_path := value\<rparr>))
         else if opt = ''--output-dir'' then Some (Some (c\<lparr>cc_output_dir := Some value\<rparr>))
         else if opt = ''--policy'' then
           Some (map_option (\<lambda>(policy, checks). c\<lparr>cc_policy := Some policy, cc_checks_per_frame := checks\<rparr>)
             (parse_policy value (cc_checks_per_frame c)))
         else if opt = ''--duration'' then real (\<lambda>x. c\<lparr>cc_duration_s := x\<rparr>)
         else if opt = ''--frame-hz'' then number (\<lambda>n. c\<lparr>cc_frame_hz := n\<rparr>)
         else if opt = ''--input-phase'' then real (\<lambda>x. c\<lparr>cc_input_phase := x\<rparr>)
         else if opt = ''--base-work-us'' then real (\<lambda>x. c\<lparr>cc_base_work_ns := microseconds x\<rparr>)
         else if opt = ''--integration-work-us'' then real (\<lambda>x. c\<lparr>cc_integration_work_ns := microseconds x\<rparr>)
         else if opt = ''--callback-work-ns'' then real (\<lambda>x. c\<lparr>cc_callback_work_ns := u64_of_double x\<rparr>)
         else if opt = ''--checks-per-frame'' then number (\<lambda>n. c\<lparr>cc_checks_per_frame := n\<rparr>)
         else if opt = ''--final-rechecks'' then number (\<lambda>n. c\<lparr>cc_final_rechecks := n\<rparr>)
         else if opt = ''--ack-placement'' then
           Some (map_option (\<lambda>p. c\<lparr>cc_ack_placement := p\<rparr>) (parse_ack_placement value))
         else if opt = ''--spin-us'' then real (\<lambda>x. c\<lparr>cc_spin_ns := microseconds x\<rparr>)
         else if opt = ''--tail-threshold-us'' then real (\<lambda>x. c\<lparr>cc_tail_threshold_ns := microseconds x\<rparr>)
         else if opt = ''--consumer-cpu'' then cpu (\<lambda>n. c\<lparr>cc_consumer_cpu := n\<rparr>)
         else if opt = ''--ingress-cpu'' then cpu (\<lambda>n. c\<lparr>cc_ingress_cpu := n\<rparr>)
         else if opt = ''--stall-after-ms'' then number (\<lambda>n. c\<lparr>cc_stall_after_ms := n\<rparr>)
         else if opt = ''--stall-ms'' then number (\<lambda>n. c\<lparr>cc_stall_ms := n\<rparr>)
         else None)"

definition client_flag_option :: "string \<Rightarrow> client_config \<Rightarrow> client_config option" where
  "client_flag_option opt c =
     (if opt = ''--record-trace'' then Some (c\<lparr>cc_record_trace := True\<rparr>)
      else if opt = ''--uncapped'' then Some (c\<lparr>cc_uncapped := True\<rparr>)
      else if opt = ''--quiet'' then Some (c\<lparr>cc_quiet := True\<rparr>)
      else None)"

text \<open>The option loop: the configuration, or the exit status.\<close>

fun client_options :: "string list \<Rightarrow> client_config \<Rightarrow> nat + client_config" where
  "client_options [] c = Inr c"
| "client_options (opt # rest) c =
     (case (case rest of [] \<Rightarrow> None | value # _ \<Rightarrow> client_value_option opt value c) of
        Some None \<Rightarrow> Inl 2
      | Some (Some c1) \<Rightarrow> client_options (tl rest) c1
      | None \<Rightarrow>
          (case client_flag_option opt c of
             Some c1 \<Rightarrow> client_options rest c1
           | None \<Rightarrow> if opt = ''--help'' then Inl 0 else Inl 2))"

text \<open>The checks after it, and the two defaults that depend on the policy.\<close>

definition client_config_accepted :: "client_config \<Rightarrow> bool" where
  "client_config_accepted c \<longleftrightarrow>
     \<not> (cc_policy c = None \<or> cc_output_dir c = None \<or> cc_frame_hz c = 0 \<or> cc_input_phase c > 1 \<or>
        cc_duration_s c \<le> 0 \<or> cc_checks_per_frame c > 64)"

definition client_defaults :: "string list \<Rightarrow> client_config \<Rightarrow> client_config" where
  "client_defaults args c0 =
     (let c = (if cc_policy c0 = Some POLICY_HFIOR_SPIN \<and> cc_spin_ns c0 = 0 then c0\<lparr>cc_spin_ns := 20000\<rparr> else c0)
      in if (\<exists>a \<in> set args. a = ''hfior-stable-latch'' \<or> a = ''hfior-8-stable-latch'') \<and> cc_final_rechecks c = 0
         then c\<lparr>cc_final_rechecks := 2\<rparr> else c)"

definition client_command_line :: "string \<Rightarrow> string list \<Rightarrow> nat + client_config" where
  "client_command_line default_socket args =
     (case client_options args (default_client_config default_socket) of
        Inl status \<Rightarrow> Inl status
      | Inr c \<Rightarrow> if client_config_accepted c then Inr (client_defaults args c) else Inl 2)"

section \<open>What is accepted\<close>

lemma client_value_option_range:
  assumes "client_value_option opt value c = Some (Some c')" "0 \<le> cc_input_phase c" "0 \<le> cc_duration_s c"
  shows "0 \<le> cc_input_phase c' \<and> 0 \<le> cc_duration_s c'"
  using assms client_parse_double_nonneg
  by (auto simp: client_value_option_def Let_def split: if_splits)

lemma client_flag_option_range:
  assumes "client_flag_option opt c = Some c'" "0 \<le> cc_input_phase c" "0 \<le> cc_duration_s c"
  shows "0 \<le> cc_input_phase c' \<and> 0 \<le> cc_duration_s c'"
  using assms by (auto simp: client_flag_option_def split: if_splits)

lemma client_options_range:
  assumes "client_options args c = Inr c'" "0 \<le> cc_input_phase c" "0 \<le> cc_duration_s c"
  shows "0 \<le> cc_input_phase c' \<and> 0 \<le> cc_duration_s c'"
  using assms
proof (induction args c rule: client_options.induct)
  case (2 opt rest c)
  let ?parsed = "case rest of [] \<Rightarrow> None | value # _ \<Rightarrow> client_value_option opt value c"
  show ?case
  proof (cases ?parsed)
    case None
    then obtain c1 where "client_flag_option opt c = Some c1" "client_options rest c1 = Inr c'"
      using 2(3) by (simp split: option.splits if_splits)
    then show ?thesis using 2(1) [OF None] client_flag_option_range 2(4,5) by blast
  next
    case (Some v)
    with 2(3) obtain c1 where v: "v = Some c1" by (cases v) simp_all
    obtain v1 rest' where rest: "rest = v1 # rest'" using Some by (cases rest) simp_all
    have "client_value_option opt v1 c = Some (Some c1)" using Some by (simp add: rest v)
    from client_value_option_range [OF this 2(4,5)]
    show ?thesis using 2(2) [OF Some v] 2(3) Some by (simp add: v)
  qed
qed simp

lemma client_defaults_keep:
  "cc_policy (client_defaults args c) = cc_policy c" "cc_output_dir (client_defaults args c) = cc_output_dir c"
  "cc_frame_hz (client_defaults args c) = cc_frame_hz c" "cc_input_phase (client_defaults args c) = cc_input_phase c"
  "cc_duration_s (client_defaults args c) = cc_duration_s c"
  "cc_checks_per_frame (client_defaults args c) = cc_checks_per_frame c"
  by (simp_all add: client_defaults_def Let_def)

lemma client_defaults_spin:
  "cc_policy c = Some POLICY_HFIOR_SPIN \<Longrightarrow> cc_spin_ns (client_defaults args c) \<noteq> 0"
  by (simp add: client_defaults_def Let_def)

text \<open>C30: A configuration the client starts with is well-formed: it names a policy and an output
  directory, has a positive frame rate (so the frame period divides by no zero) and duration, a phase
  between 0 and 1, at most 64 checks per frame, and a positive spin time for the spin policy.\<close>

theorem command_line_well_formed:
  assumes "client_command_line default_socket args = Inr c"
  shows "cc_policy c \<noteq> None \<and> cc_output_dir c \<noteq> None \<and> cc_frame_hz c \<noteq> 0 \<and>
    0 \<le> cc_input_phase c \<and> cc_input_phase c \<le> 1 \<and> 0 < cc_duration_s c \<and> cc_checks_per_frame c \<le> 64 \<and>
    (cc_policy c = Some POLICY_HFIOR_SPIN \<longrightarrow> cc_spin_ns c \<noteq> 0)"
proof -
  obtain c0 where c0: "client_options args (default_client_config default_socket) = Inr c0"
    "client_config_accepted c0" "c = client_defaults args c0"
    using assms by (auto simp: client_command_line_def split: sum.splits if_splits)
  have "0 \<le> cc_input_phase c0" using client_options_range [OF c0(1)] by (simp add: default_client_config_def)
  with c0(2) show ?thesis
    by (simp add: c0(3) client_config_accepted_def client_defaults_keep client_defaults_spin not_less not_le)
qed

lemma command_line_well_formed_witness:
  "\<exists>c. client_command_line ''s'' [''--policy'', ''hfior-8-stable-latch'', ''--output-dir'', ''o'', ''--frame-hz'', ''60''] = Inr c \<and>
     cc_frame_hz c \<noteq> 0 \<and> cc_checks_per_frame c = 8 \<and> cc_final_rechecks c = 2"
proof -
  let ?args = "[''--policy'', ''hfior-8-stable-latch'', ''--output-dir'', ''o'', ''--frame-hz'', ''60'']"
  have "decimal 60 = ''60''" by code_simp
  then have "parse_u32 ''60'' = Some 60" using parse_u32_decimal [of 60] by simp
  then have "client_value_option ''--frame-hz'' ''60'' c = Some (Some (c\<lparr>cc_frame_hz := 60\<rparr>))" for c
    by (simp add: client_value_option_def)
  moreover have "client_value_option ''--output-dir'' ''o'' c = Some (Some (c\<lparr>cc_output_dir := Some ''o''\<rparr>))" for c
    by (simp add: client_value_option_def)
  moreover have "client_value_option ''--policy'' ''hfior-8-stable-latch'' c =
      Some (Some (c\<lparr>cc_policy := Some POLICY_HFIOR_LATE_LATCH, cc_checks_per_frame := 8\<rparr>))" for c
    by (simp add: client_value_option_def parse_policy_def)
  ultimately obtain c where c: "client_command_line ''s'' ?args = Inr c" "cc_checks_per_frame c = 8" "cc_final_rechecks c = 2"
    by (simp add: client_command_line_def default_client_config_def client_config_accepted_def client_defaults_def)
  with command_line_well_formed [OF c(1)] show ?thesis by blast
qed

text \<open>The name the summary reports for a policy is one the command line takes, and it stands for the
  same policy, with the same number of checks except under the stable latch, whose name means 1 or 8.\<close>

lemma policy_name_round_trip:
  assumes "cc_policy c = Some policy"
  shows "parse_policy (policy_name c) (cc_checks_per_frame c) =
    Some (policy, if policy = POLICY_HFIOR_LATE_LATCH \<and> cc_final_rechecks c \<noteq> 0 \<and> cc_checks_per_frame c \<noteq> 8
                  then 1 else cc_checks_per_frame c)"
  using assms by (cases policy) (simp_all add: policy_name_def parse_policy_def)

lemma policy_name_round_trip_witness:
  "parse_policy (policy_name ((default_client_config ''s'')\<lparr>cc_policy := Some POLICY_HFIOR_MULTI,
     cc_checks_per_frame := 4\<rparr>)) 4 = Some (POLICY_HFIOR_MULTI, 4)"
  using policy_name_round_trip [of "(default_client_config ''s'')\<lparr>cc_policy := Some POLICY_HFIOR_MULTI,
     cc_checks_per_frame := 4\<rparr>" POLICY_HFIOR_MULTI]
  by simp

end
