(* ===== verification/Client_Frame.thy ===== *)
theory Client_Frame
  imports Client
begin

text \<open>
  One frame of the latency client (\<open>run_frame_policy\<close> of \<open>reference/latency-client/main.c\<close>)
  under each of its policies, and the ingress thread beside it. A policy is the list of the steps
  of its branch, in the order of the code. The two threads share the ring cursor and the pending
  queue under mutexes, so the ingress thread runs whole passes, and it is let in wherever the frame
  thread takes one of the mutexes: \<open>c_schedule\<close> says how many passes it makes there.
\<close>

section \<open>The ingress thread\<close>

definition CLOCK_PROCESS_CPUTIME_ID :: u32 where "CLOCK_PROCESS_CPUTIME_ID = 2"
definition CLOCK_THREAD_CPUTIME_ID :: u32 where "CLOCK_THREAD_CPUTIME_ID = 3"

definition pin_current_thread :: "int \<Rightarrow> client \<Rightarrow> client outcome" where
  "pin_current_thread cpu c =
     (if cpu < 0 then Done c
      else let (answer, c1) = client_asks kernel_call c
           in case answer of Failed _ \<Rightarrow> Died ''pthread_setaffinity_np'' | _ \<Rightarrow> Done c1)"

text \<open>The answer to a poll of one descriptor: its events, or the error that ends the loop.\<close>

definition first_revents :: "u16 list \<Rightarrow> u16" where
  "first_revents revents = (case revents of [] \<Rightarrow> 0 | r # _ \<Rightarrow> r)"

text \<open>One pass of the loop of the eager policy: every message that is waiting.\<close>

definition eager_pass :: "nat \<Rightarrow> client \<Rightarrow> client outcome" where
  "eager_pass fuel c =
     (let (answer, c1) = client_asks kernel_poll (c\<lparr>c_kernel := emit (Polled 100) (c_kernel c)\<rparr>)
      in case answer of
           Poll_interrupted _ \<Rightarrow> Done c1
         | Poll_failed _ \<Rightarrow> Done (c1\<lparr>c_ingress_done := True\<rparr>)
         | Poll_timeout \<Rightarrow> Done c1
         | Poll_ready revents \<Rightarrow>
             after (if first_revents revents AND POLLIN \<noteq> 0
                    then after (drain_control_socket_nonblocking fuel True 0 c1) (\<lambda>(_, c2). Done c2)
                    else Done c1)
               (\<lambda>c2. if first_revents revents AND (POLLHUP OR POLLERR OR POLLNVAL) \<noteq> 0
                     then Done (c2\<lparr>c_ingress_done := True\<rparr>) else Done c2))"

text \<open>One pass of the loop of the HFIOR policies: the urgent eventfd, then the ring.\<close>

definition urgent_pass :: "nat \<Rightarrow> client \<Rightarrow> client outcome" where
  "urgent_pass fuel c =
     (let (answer, c1) = client_asks kernel_poll (c\<lparr>c_kernel := emit (Polled 100) (c_kernel c)\<rparr>)
      in case answer of
           Poll_interrupted _ \<Rightarrow> Done c1
         | Poll_failed _ \<Rightarrow> Done (c1\<lparr>c_ingress_done := True\<rparr>)
         | Poll_timeout \<Rightarrow> Done c1
         | Poll_ready revents \<Rightarrow>
             if first_revents revents AND POLLIN \<noteq> 0
             then
               let (counter, c2) = client_asks kernel_counter c1
               in case counter of
                    None \<Rightarrow> Done c2
                  | Some n \<Rightarrow>
                      after (drain_ring fuel RECEIPT_URGENT False True
                               (upd_cstats (\<lambda>s. s\<lparr>cs_urgent_reads := cs_urgent_reads s + 1,
                                  cs_urgent_counter_total := cs_urgent_counter_total s + n\<rparr>) c2))
                        (\<lambda>(_, c3). Done c3)
             else Done c1)"

text \<open>The body of the loop, and the loop test before it.\<close>

definition ingress_body :: "nat \<Rightarrow> client \<Rightarrow> client outcome" where
  "ingress_body fuel c =
     (if cc_policy (c_config c) = Some POLICY_EAGER_THREAD then eager_pass fuel c else urgent_pass fuel c)"

definition ingress_pass :: "nat \<Rightarrow> client \<Rightarrow> client outcome" where
  "ingress_pass fuel c =
     (if \<not> c_ingress_started c \<or> c_ingress_done c \<or> c_stop c then Done c else ingress_body fuel c)"

fun ingress_passes :: "nat \<Rightarrow> nat \<Rightarrow> client \<Rightarrow> client outcome" where
  "ingress_passes fuel 0 c = Done c"
| "ingress_passes fuel (Suc n) c = after (ingress_pass fuel c) (ingress_passes fuel n)"

text \<open>A point where the frame thread waits for a mutex.\<close>

definition let_ingress :: "nat \<Rightarrow> client \<Rightarrow> client outcome" where
  "let_ingress fuel c =
     ingress_passes fuel (c_schedule c (c_switches c)) (c\<lparr>c_switches := Suc (c_switches c)\<rparr>)"

definition start_ingress_thread :: "client \<Rightarrow> client outcome" where
  "start_ingress_thread c =
     (let (answer, c1) = client_asks kernel_call c
      in case answer of
           Failed _ \<Rightarrow> Died ''pthread_create''
         | _ \<Rightarrow>
             after (pin_current_thread (cc_ingress_cpu (c_config c1)) (c1\<lparr>c_ingress_started := True\<rparr>))
               (\<lambda>c2. let (cpu_start, c3) = client_asks (hfior_now_ns CLOCK_THREAD_CPUTIME_ID) c2
                     in Done (c3\<lparr>c_ingress_cpu_start := cpu_start\<rparr>)))"

text \<open>
  \<open>pthread_join\<close>, after \<open>stop\<close> was set: a pass that had tested \<open>stop\<close> before may still run.
\<close>

definition join_ingress_thread :: "nat \<Rightarrow> client \<Rightarrow> client outcome" where
  "join_ingress_thread fuel c =
     (if \<not> c_ingress_started c then Done c
      else
        after (if \<not> c_ingress_done c \<and> c_schedule c (c_switches c) \<noteq> 0
               then ingress_body fuel (c\<lparr>c_switches := Suc (c_switches c)\<rparr>) else Done c)
          (\<lambda>c1. let (now, c2) = client_asks (hfior_now_ns CLOCK_THREAD_CPUTIME_ID) c1
                in Done (upd_cstats (\<lambda>s. s\<lparr>cs_ingress_thread_cpu_ns := now - c_ingress_cpu_start c2\<rparr>) c2)))"

section \<open>The steps of a frame\<close>

text \<open>The locals of \<open>run_frame_policy\<close>, with the client they work on.\<close>

record frame_state =
  fs_client :: client
  fs_result :: frame_observation
  fs_summary :: summary             \<comment> \<open>\<open>newest\<close>, \<open>newest_sequence\<close>, \<open>oldest\<close>, \<open>buttons\<close>\<close>
  fs_total_records :: nat
  fs_late_records :: nat
  fs_spent :: u64
  fs_final_check_begin_ns :: u64
  fs_final_latch_begin_ns :: u64

type_synonym frame_step = "frame_state \<Rightarrow> frame_state outcome"

fun steps :: "frame_step list \<Rightarrow> frame_step" where
  "steps [] s = Done s"
| "steps (f # fs) s = after (f s) (steps fs)"

definition on_client :: "(client \<Rightarrow> client outcome) \<Rightarrow> frame_step" where
  "on_client f s = after (f (fs_client s)) (\<lambda>c. Done (s\<lparr>fs_client := c\<rparr>))"

text \<open>A step that depends on where the frame is.\<close>

definition depending :: "(frame_state \<Rightarrow> frame_step) \<Rightarrow> frame_step" where
  "depending f s = f s s"

definition guarded :: "(frame_state \<Rightarrow> bool) \<Rightarrow> frame_step \<Rightarrow> frame_step" where
  "guarded b f s = (if b s then f s else Done s)"

text \<open>\<open>hfior_now_ns(CLOCK_MONOTONIC)\<close> and a load of the head, each stored to locals.\<close>

definition read_clock :: "(u64 \<Rightarrow> frame_state \<Rightarrow> frame_state) \<Rightarrow> frame_step" where
  "read_clock store s = (let (now, c) = client_now (fs_client s) in Done (store now (s\<lparr>fs_client := c\<rparr>)))"

definition observe_head :: "(u64 \<Rightarrow> frame_state \<Rightarrow> frame_state) \<Rightarrow> frame_step" where
  "observe_head store s =
     (let (ring, c) = look (fs_client s) in Done (store (pl_head (producer ring)) (s\<lparr>fs_client := c\<rparr>)))"

definition frame_drain :: "nat \<Rightarrow> receipt_reason \<Rightarrow> bool \<Rightarrow> bool \<Rightarrow> frame_step" where
  "frame_drain fuel reason shadow acknowledge_now =
     on_client (\<lambda>c. after (let_ingress fuel c)
       (\<lambda>c1. after (drain_ring fuel reason shadow acknowledge_now c1) (\<lambda>(_, c2). Done c2)))"

text \<open>\<open>take_pending\<close>, its count added to the total or, if \<open>late\<close>, to the late records.\<close>

definition frame_take :: "nat \<Rightarrow> bool \<Rightarrow> frame_step" where
  "frame_take fuel late s =
     after (let_ingress fuel (fs_client s))
       (\<lambda>c. let (n, summary, c1) = take_pending c (fs_summary s);
                s1 = s\<lparr>fs_client := c1, fs_summary := summary\<rparr>
            in Done (if late then s1\<lparr>fs_late_records := fs_late_records s1 + n\<rparr>
                     else s1\<lparr>fs_total_records := fs_total_records s1 + n\<rparr>))"

definition frame_busy :: "nat \<Rightarrow> u64 \<Rightarrow> frame_step" where
  "frame_busy fuel duration_ns = on_client (busy_for_ns fuel duration_ns)"

definition frame_stats :: "(frame_state \<Rightarrow> client_stats \<Rightarrow> client_stats) \<Rightarrow> frame_step" where
  "frame_stats f s = Done (s\<lparr>fs_client := upd_cstats (f s) (fs_client s)\<rparr>)"

definition one_action :: "frame_state \<Rightarrow> client_stats \<Rightarrow> client_stats" where
  "one_action s st = st\<lparr>cs_expensive_actions := cs_expensive_actions st + 1\<rparr>"

definition post_use :: "nat \<Rightarrow> frame_step" where
  "post_use fuel = on_client (\<lambda>c. if cc_ack_placement (c_config c) = ACK_POST_USE
     then after (let_ingress fuel c) maybe_ack_post_use else maybe_ack_post_use c)"

text \<open>\<open>perform_spin\<close>: the head is looked at and dropped.\<close>

fun spin_until :: "nat \<Rightarrow> u64 \<Rightarrow> client \<Rightarrow> client outcome" where
  "spin_until 0 deadline c = Unfinished"
| "spin_until (Suc fuel) deadline c =
     (let (now, c1) = client_now c
      in if now < deadline
         then let (_, c2) = look c1
              in spin_until fuel deadline
                   (upd_cstats (\<lambda>s. s\<lparr>cs_spin_iterations := cs_spin_iterations s + 1\<rparr>) c2)
         else Done c1)"

definition perform_spin :: "nat \<Rightarrow> client \<Rightarrow> client outcome" where
  "perform_spin fuel c =
     (let (now, c1) = client_now c in spin_until fuel (now + cc_spin_ns (c_config c1)) c1)"

abbreviation upd_result :: "(frame_observation \<Rightarrow> frame_observation) \<Rightarrow> frame_state \<Rightarrow> frame_state" where
  "upd_result f s \<equiv> s\<lparr>fs_result := f (fs_result s)\<rparr>"

definition legacy_and_latch_begin :: frame_step where
  "legacy_and_latch_begin =
     read_clock (\<lambda>now. upd_result (\<lambda>r. r\<lparr>fo_legacy_measurement_ns := now, fo_latch_begin_ns := now\<rparr>))"

definition latch_end :: frame_step where
  "latch_end = read_clock (\<lambda>now. upd_result (\<lambda>r. r\<lparr>fo_latch_end_ns := now\<rparr>))"

definition latch_end_and_use :: frame_step where
  "latch_end_and_use =
     read_clock (\<lambda>now. upd_result (\<lambda>r. r\<lparr>fo_latch_end_ns := now, fo_use_time_ns := now\<rparr>))"

definition use_time :: frame_step where
  "use_time = read_clock (\<lambda>now. upd_result (\<lambda>r. r\<lparr>fo_use_time_ns := now\<rparr>))"

definition initial_head :: frame_step where
  "initial_head = observe_head (\<lambda>h. upd_result (\<lambda>r. r\<lparr>fo_head_at_initial_latch := h\<rparr>))"

definition final_head :: frame_step where
  "final_head = observe_head (\<lambda>h. upd_result (\<lambda>r. r\<lparr>fo_head_at_final_latch := h\<rparr>))"

definition took :: "frame_state \<Rightarrow> bool" where "took s \<longleftrightarrow> fs_total_records s \<noteq> 0"

definition took_late :: "frame_state \<Rightarrow> bool" where "took_late s \<longleftrightarrow> fs_late_records s \<noteq> 0"

section \<open>The policies\<close>

definition frame_eager_thread :: "nat \<Rightarrow> client_config \<Rightarrow> frame_step" where
  "frame_eager_thread fuel config = steps
     [frame_busy fuel (cc_base_work_ns config + cc_integration_work_ns config),
      legacy_and_latch_begin,
      frame_take fuel False,
      latch_end_and_use,
      guarded took (frame_stats (\<lambda>s st. st\<lparr>cs_expensive_actions :=
        cs_expensive_actions st + of_nat (fs_total_records s)\<rparr>)),
      frame_drain fuel RECEIPT_FRAME_RING True True]"

text \<open>\<open>(uint64_t)((double)base_work_ns * input_phase)\<close>.\<close>

definition work_before :: "client_config \<Rightarrow> u64" where
  "work_before config = u64_of_double (round_double (double_of_u64 (cc_base_work_ns config) * cc_input_phase config))"

definition frame_critical_ack :: "nat \<Rightarrow> client_config \<Rightarrow> frame_step" where
  "frame_critical_ack fuel config = steps
     [frame_busy fuel (work_before config),
      legacy_and_latch_begin,
      depending (\<lambda>s. frame_drain fuel RECEIPT_FRAME_RING False (ack_during_drain (fs_client s))),
      initial_head,
      frame_take fuel False,
      latch_end_and_use,
      guarded took (frame_stats one_action),
      post_use fuel,
      frame_busy fuel ((cc_base_work_ns config - work_before config) + cc_integration_work_ns config)]"

definition frame_late :: "nat \<Rightarrow> client_config \<Rightarrow> frame_step" where
  "frame_late fuel config = steps
     [frame_busy fuel (cc_base_work_ns config),
      guarded (\<lambda>_. cc_policy config = Some POLICY_HFIOR_SPIN) (on_client (perform_spin fuel)),
      legacy_and_latch_begin,
      depending (\<lambda>s. frame_drain fuel RECEIPT_FINAL_RING False (ack_during_drain (fs_client s))),
      initial_head,
      frame_take fuel False,
      latch_end,
      guarded took (frame_stats one_action),
      post_use fuel,
      guarded (\<lambda>_. cc_integration_work_ns config \<noteq> 0) (frame_busy fuel (cc_integration_work_ns config)),
      use_time]"

text \<open>One check of the base work: \<open>left\<close> more follow it.\<close>

definition frame_check :: "nat \<Rightarrow> client_config \<Rightarrow> u64 \<Rightarrow> nat \<Rightarrow> frame_step" where
  "frame_check fuel config segment left = steps
     [depending (\<lambda>s. let work = (if left = 0 then cc_base_work_ns config - fs_spent s else segment)
        in steps [frame_busy fuel work, \<lambda>s1. Done (s1\<lparr>fs_spent := fs_spent s1 + work\<rparr>)]),
      read_clock (\<lambda>now s. if left = 0 then s\<lparr>fs_final_check_begin_ns := now\<rparr> else s),
      frame_drain fuel RECEIPT_FRAME_RING False False,
      read_clock (\<lambda>_ s. s)]"

fun frame_checks :: "nat \<Rightarrow> client_config \<Rightarrow> u64 \<Rightarrow> nat \<Rightarrow> frame_step" where
  "frame_checks fuel config segment 0 s = Done s"
| "frame_checks fuel config segment (Suc left) s =
     after (frame_check fuel config segment left s) (frame_checks fuel config segment left)"

text \<open>The rechecks after the final latch; the last one may acknowledge.\<close>

fun frame_rechecks :: "nat \<Rightarrow> nat \<Rightarrow> frame_step" where
  "frame_rechecks fuel 0 s = Done s"
| "frame_rechecks fuel (Suc left) s =
     after (steps
       [depending (\<lambda>s. frame_drain fuel RECEIPT_FINAL_RING False (left = 0 \<and> ack_during_drain (fs_client s))),
        frame_take fuel True] s)
       (frame_rechecks fuel left)"

definition final_latch :: "nat \<Rightarrow> client_config \<Rightarrow> frame_step" where
  "final_latch fuel config = steps
     [read_clock (\<lambda>now s. s\<lparr>fs_final_latch_begin_ns := now\<rparr>),
      depending (\<lambda>s. frame_drain fuel RECEIPT_FINAL_RING False (ack_during_drain (fs_client s))),
      frame_take fuel True,
      frame_rechecks fuel (unat (cc_final_rechecks config)),
      read_clock (\<lambda>now s. upd_result (\<lambda>r. r\<lparr>fo_latch_begin_ns := fs_final_latch_begin_ns s,
        fo_latch_end_ns := now\<rparr>) s),
      guarded took_late (frame_stats (\<lambda>s st. st\<lparr>cs_late_latch_actions := cs_late_latch_actions st + 1,
        cs_frames_with_late_latch := cs_frames_with_late_latch st + 1,
        cs_late_latch_records := cs_late_latch_records st + of_nat (fs_late_records s)\<rparr>))]"

definition frame_multi :: "nat \<Rightarrow> client_config \<Rightarrow> frame_step" where
  "frame_multi fuel config =
     (let checks = (if cc_checks_per_frame config \<noteq> 0 then cc_checks_per_frame config else 1);
          segment = cc_base_work_ns config div ucast checks
      in steps
        [frame_checks fuel config segment (unat checks),
         \<lambda>s. Done (upd_result (\<lambda>r. r\<lparr>fo_legacy_measurement_ns := fs_final_check_begin_ns s,
           fo_latch_begin_ns := fs_final_check_begin_ns s\<rparr>) s),
         initial_head,
         frame_take fuel False,
         latch_end,
         guarded took (frame_stats one_action),
         guarded (\<lambda>_. cc_integration_work_ns config \<noteq> 0) (frame_busy fuel (cc_integration_work_ns config)),
         if cc_policy config = Some POLICY_HFIOR_LATE_LATCH then final_latch fuel config
         else guarded (\<lambda>s. ack_during_drain (fs_client s))
                (on_client (\<lambda>c. after (let_ingress fuel c) send_ack_if_needed)),
         final_head,
         use_time,
         post_use fuel])"

definition frame_two_stage :: "nat \<Rightarrow> client_config \<Rightarrow> frame_step" where
  "frame_two_stage fuel config =
     (let first_work = cc_base_work_ns config div 2;
          second_work = cc_base_work_ns config - first_work
      in steps
        [frame_busy fuel first_work,
         legacy_and_latch_begin,
         frame_drain fuel RECEIPT_FRAME_RING False False,
         frame_take fuel False,
         guarded took (frame_stats one_action),
         frame_busy fuel (second_work + cc_integration_work_ns config),
         depending (\<lambda>s. frame_drain fuel RECEIPT_FINAL_RING False (ack_during_drain (fs_client s))),
         frame_take fuel True,
         guarded took_late (frame_stats one_action),
         latch_end,
         final_head,
         \<lambda>s. Done (upd_result (\<lambda>r. r\<lparr>fo_use_time_ns := fo_latch_end_ns r\<rparr>) s),
         post_use fuel])"

definition frame_policy :: "nat \<Rightarrow> client_config \<Rightarrow> frame_step" where
  "frame_policy fuel config =
     (case cc_policy config of
        None \<Rightarrow> Done
      | Some POLICY_EAGER_THREAD \<Rightarrow> frame_eager_thread fuel config
      | Some POLICY_HFIOR_CRITICAL_ACK \<Rightarrow> frame_critical_ack fuel config
      | Some POLICY_HFIOR_LATE \<Rightarrow> frame_late fuel config
      | Some POLICY_HFIOR_SPIN \<Rightarrow> frame_late fuel config
      | Some POLICY_HFIOR_MULTI \<Rightarrow> frame_multi fuel config
      | Some POLICY_HFIOR_LATE_LATCH \<Rightarrow> frame_multi fuel config
      | Some POLICY_HFIOR_TWO_STAGE \<Rightarrow> frame_two_stage fuel config)"

section \<open>The whole frame\<close>

text \<open>What follows the policy: the fields left at 0 get a value.\<close>

definition default_fields :: frame_step where
  "default_fields = steps
     [guarded (\<lambda>s. fo_head_at_initial_latch (fs_result s) = 0) initial_head,
      \<lambda>s. Done (if fo_head_at_final_latch (fs_result s) = 0
                then upd_result (\<lambda>r. r\<lparr>fo_head_at_final_latch := fo_head_at_initial_latch r\<rparr>) s else s),
      \<lambda>s. Done (if fo_latch_end_ns (fs_result s) = 0
                then upd_result (\<lambda>r. r\<lparr>fo_latch_end_ns := fo_use_time_ns r\<rparr>) s else s),
      guarded (\<lambda>s. fo_use_time_ns (fs_result s) = 0) use_time]"

text \<open>The derived fields, as a function of the locals.\<close>

definition conclude :: "frame_state \<Rightarrow> frame_observation \<Rightarrow> frame_observation" where
  "conclude s r0 =
     (let newest = su_newest (fs_summary s); oldest = su_oldest (fs_summary s);
          minus = (\<lambda>a b :: u64. if a \<ge> b then a - b else 0);
          r = r0\<lparr>fo_newest_timestamp_ns := newest,
                 fo_newest_sequence := su_newest_sequence (fs_summary s),
                 fo_oldest_timestamp_ns := (if oldest = - 1 then 0 else oldest),
                 fo_records := of_nat (fs_total_records s + fs_late_records s),
                 fo_late_records := of_nat (fs_late_records s)\<rparr>
      in r\<lparr>fo_actual_age_ns := (if newest \<noteq> 0 then minus (fo_use_time_ns r) newest else 0),
           fo_legacy_age_ns := (if newest \<noteq> 0 then minus (fo_legacy_measurement_ns r) newest else 0),
           fo_latch_cost_ns := minus (fo_latch_end_ns r) (fo_latch_begin_ns r),
           fo_post_latch_to_use_ns := minus (fo_use_time_ns r) (fo_latch_end_ns r)\<rparr>)"

definition finish_frame :: "u64 \<Rightarrow> u64 \<Rightarrow> frame_state \<Rightarrow> frame_observation \<times> client" where
  "finish_frame checks_before actions_before s =
     (let c = fs_client s;
          (ring, c1) = look c;
          r = (conclude s (fs_result s))
                \<lparr>fo_local_tail_after := c_local_tail c,
                 fo_checks := cs_ring_checks (c_stats c) - checks_before,
                 fo_expensive_actions := cs_expensive_actions (c_stats c) - actions_before,
                 fo_ring_depth_after := hfior_ring_depth ring\<rparr>;
          c2 = upd_cstats (\<lambda>st. st\<lparr>cs_input_consumptions := cs_input_consumptions st + 1\<rparr>) c1;
          c3 = (if fo_records r \<noteq> 0 \<and> fo_newest_timestamp_ns r \<noteq> 0
                then c2\<lparr>c_sample_ages := c_sample_ages c2 @ [fo_actual_age_ns r],
                        c_legacy_ages := c_legacy_ages c2 @ [fo_legacy_age_ns r]\<rparr>
                else c2)
      in (r, c3\<lparr>c_latch_costs := c_latch_costs c3 @ [fo_latch_cost_ns r],
                c_start_lateness := c_start_lateness c3 @ [fo_start_lateness_ns r]\<rparr>))"

definition zero_observation :: frame_observation where
  "zero_observation = \<lparr>fo_frame_index = 0, fo_target_start_ns = 0, fo_frame_start_ns = 0,
     fo_start_lateness_ns = 0, fo_legacy_measurement_ns = 0, fo_latch_begin_ns = 0, fo_latch_end_ns = 0,
     fo_use_time_ns = 0, fo_newest_timestamp_ns = 0, fo_newest_sequence = 0, fo_oldest_timestamp_ns = 0,
     fo_actual_age_ns = 0, fo_legacy_age_ns = 0, fo_latch_cost_ns = 0, fo_post_latch_to_use_ns = 0,
     fo_head_at_frame_start = 0, fo_head_at_initial_latch = 0, fo_head_at_final_latch = 0,
     fo_local_tail_after = 0, fo_records = 0, fo_late_records = 0, fo_checks = 0,
     fo_expensive_actions = 0, fo_ring_depth_after = 0\<rparr>"

definition empty_summary :: summary where
  "empty_summary = \<lparr>su_newest = 0, su_newest_sequence = 0, su_oldest = - 1, su_buttons = 0\<rparr>"

text \<open>The initial locals: the head at the start of the frame is the first look.\<close>

definition begin_frame :: "u64 \<Rightarrow> u64 \<Rightarrow> u64 \<Rightarrow> client \<Rightarrow> frame_state" where
  "begin_frame frame_index target_start_ns frame_start_ns c =
     (let (ring, c1) = look c
      in \<lparr>fs_client = c1,
          fs_result = zero_observation\<lparr>fo_frame_index := frame_index, fo_target_start_ns := target_start_ns,
            fo_frame_start_ns := frame_start_ns,
            fo_start_lateness_ns := (if frame_start_ns > target_start_ns then frame_start_ns - target_start_ns else 0),
            fo_head_at_frame_start := pl_head (producer ring), fo_oldest_timestamp_ns := - 1\<rparr>,
          fs_summary = empty_summary, fs_total_records = 0, fs_late_records = 0, fs_spent = 0,
          fs_final_check_begin_ns = frame_start_ns, fs_final_latch_begin_ns = 0\<rparr>)"

definition run_frame_policy ::
    "nat \<Rightarrow> u64 \<Rightarrow> u64 \<Rightarrow> u64 \<Rightarrow> client \<Rightarrow> (frame_observation \<times> client) outcome" where
  "run_frame_policy fuel frame_index target_start_ns frame_start_ns c =
     (let s = begin_frame frame_index target_start_ns frame_start_ns c
      in after (frame_policy fuel (c_config c) s)
           (\<lambda>s1. after (default_fields s1)
              (\<lambda>s2. Done (finish_frame (cs_ring_checks (c_stats c)) (cs_expensive_actions (c_stats c)) s2))))"

end
