(* ===== verification/Client_Latch.thy ===== *)
theory Client_Latch
  imports Client_Frame Client_Session
begin

text \<open>
  What a frame of the latency client takes: under every HFIOR policy, whatever the ingress thread
  does in between and while the producer keeps publishing, the records a frame consumes are exactly
  the next ones of the log, and none that was committed before its latch is left out.
\<close>

section \<open>Outcomes\<close>

text \<open>The computation ends with \<open>P\<close>, or dies for a reason in \<open>E\<close>; it does not run out of fuel.\<close>

definition runs :: "(string \<Rightarrow> bool) \<Rightarrow> ('a \<Rightarrow> bool) \<Rightarrow> 'a outcome \<Rightarrow> bool" where
  "runs E P out \<longleftrightarrow> (case out of Done x \<Rightarrow> P x | Died what \<Rightarrow> E what | Unfinished \<Rightarrow> False)"

lemma runs_simps [simp]: "runs E P (Done x) \<longleftrightarrow> P x" "runs E P (Died what) \<longleftrightarrow> E what" "\<not> runs E P Unfinished"
  by (simp_all add: runs_def)

lemma runs_after: "runs E P out \<Longrightarrow> (\<And>x. P x \<Longrightarrow> runs E Q (f x)) \<Longrightarrow> runs E Q (after out f)"
  by (cases out) simp_all

lemma runs_mono: "runs E P out \<Longrightarrow> (\<And>x. P x \<Longrightarrow> Q x) \<Longrightarrow> runs E Q out"
  by (cases out) simp_all

text \<open>The two ways a client may end early: a lost acknowledgement, an overrun.\<close>

definition excused :: "(nat \<Rightarrow> hfior_record list) \<Rightarrow> client \<Rightarrow> string \<Rightarrow> bool" where
  "excused logs c0 what \<longleftrightarrow> what = ''send HFIOR acknowledgement'' \<or>
     (what = ''read-only HFIOR drain'' \<and> overrun c0 logs)"

section \<open>The invariant of the client during a frame\<close>

text \<open>The records that were pending at the start and those read since.\<close>

definition offered :: "(nat \<Rightarrow> hfior_record list) \<Rightarrow> client \<Rightarrow> client \<Rightarrow> hfior_record list" where
  "offered logs c0 c = q_records (c_pending c0) @ log_between logs c0 c"

text \<open>The first \<open>k\<close> of them have been taken, the rest is pending.\<close>

definition client_inv :: "(nat \<Rightarrow> hfior_record list) \<Rightarrow> client \<Rightarrow> nat \<Rightarrow> client \<Rightarrow> bool" where
  "client_inv logs c0 k c \<longleftrightarrow> ahead logs c0 c \<and> accounted (log_between logs c0 c) c0 c \<and>
     k \<le> length (offered logs c0 c) \<and> q_records (c_pending c) = drop k (offered logs c0 c) \<and>
     queue_ok (c_pending c)"

text \<open>
  What a run needs: the log, fuel for a drain and room in the queue, a clock that advances by every
  duration up to \<open>w\<close> within the fuel, and one of the HFIOR policies.
\<close>

definition clock_passes :: "nat \<Rightarrow> u64 \<Rightarrow> client \<Rightarrow> bool" where
  "clock_passes fuel w c \<longleftrightarrow> (\<forall>i d. d \<le> w \<longrightarrow> (\<exists>n < fuel. client_clock c (Suc i + n) \<ge> client_clock c i + d))"

definition run_ready :: "nat \<Rightarrow> nat \<Rightarrow> u64 \<Rightarrow> (nat \<Rightarrow> hfior_record list) \<Rightarrow> client \<Rightarrow> bool" where
  "run_ready fuel bound w logs c \<longleftrightarrow> log_views c logs bound \<and> drain_ready fuel bound c \<and>
     clock_passes fuel w c \<and> cc_policy (c_config c) \<noteq> Some POLICY_EAGER_THREAD"

lemma client_inv_start: "run_ready fuel bound w logs c \<Longrightarrow> client_inv logs c 0 c"
  using ahead_refl [of c logs bound] by (simp add: client_inv_def run_ready_def offered_def drain_ready_def)

lemma client_inv_ready:
  assumes "run_ready fuel bound w logs c0" "client_inv logs c0 k c"
  shows "log_views c logs bound" "drain_ready fuel bound c"
proof -
  have ahead: "ahead logs c0 c" using assms(2) by (simp add: client_inv_def)
  show views: "log_views c logs bound"
    using assms(1) log_views_ahead [OF _ ahead] by (simp add: run_ready_def)
  have "length (q_records (c_pending c)) \<le> length (offered logs c0 c)"
    using assms(2) by (simp add: client_inv_def)
  also have "\<dots> = length (q_records (c_pending c0)) + (unat (c_local_tail c) - unat (c_local_tail c0))"
    using length_log_between [OF ahead] by (simp add: offered_def)
  finally have len: "length (q_records (c_pending c)) \<le>
      length (q_records (c_pending c0)) + (unat (c_local_tail c) - unat (c_local_tail c0))" .
  have tail: "unat (c_local_tail c0) \<le> unat (c_local_tail c)" "unat (c_local_tail c) \<le> bound"
    using ahead views by (auto simp: ahead_def log_views_def intro: order_trans)
  have d: "bound - unat (c_local_tail c0) < unat drain_buffer * fuel"
    "length (q_records (c_pending c0)) + (bound - unat (c_local_tail c0)) \<le> 2 ^ 63"
    using assms(1) by (simp_all only: run_ready_def drain_ready_def)
  have "bound - unat (c_local_tail c) < unat drain_buffer * fuel"
    "length (q_records (c_pending c)) + (bound - unat (c_local_tail c)) \<le> 2 ^ 63"
    using len tail d by linarith+
  then show "drain_ready fuel bound c" using assms(2) by (simp only: drain_ready_def client_inv_def)
qed

text \<open>What leaves the cursor, the queue and the counters of the records alone.\<close>

definition beside :: "client \<Rightarrow> client \<Rightarrow> bool" where
  "beside c c' \<longleftrightarrow> same_world c c' \<and> c_views_used c \<le> c_views_used c' \<and> c_local_tail c' = c_local_tail c \<and>
     c_pending c' = c_pending c \<and> accounted [] c c'"

lemma beside_refl [simp]: "beside c c"
  by (simp add: beside_def)

lemma beside_trans: "beside a b \<Longrightarrow> beside b c \<Longrightarrow> beside a c"
  using same_world_trans accounted_trans [of "[]" a b "[]" c] by (fastforce simp: beside_def same_world_def)

lemma beside_ahead:
  assumes "log_views c logs bound" "beside c c'"
  shows "ahead logs c c'" "log_between logs c c' = []"
proof -
  have "length (logs (c_views_used c)) \<le> length (logs (c_views_used c'))"
    using log_views_prefix [OF assms(1), of "c_views_used c" "c_views_used c'"] assms(2)
    by (simp add: beside_def prefix_length_le)
  then show "ahead logs c c'" "log_between logs c c' = []"
    using assms by (auto simp: beside_def ahead_def log_views_def log_between_def)
qed

text \<open>One move of the client: the invariant for \<open>k\<close> taken records is kept.\<close>

definition moves :: "(nat \<Rightarrow> hfior_record list) \<Rightarrow> client \<Rightarrow> nat \<Rightarrow> client \<Rightarrow> client \<Rightarrow> bool" where
  "moves logs c0 k c c' \<longleftrightarrow> client_inv logs c0 k c' \<and> ahead logs c c'"

lemma moves_refl: "client_inv logs c0 k c \<Longrightarrow> log_views c logs bound \<Longrightarrow> moves logs c0 k c c"
  by (simp add: moves_def ahead_refl)

lemma moves_trans: "moves logs c0 k a b \<Longrightarrow> moves logs c0 k b c \<Longrightarrow> moves logs c0 k a c"
  using ahead_trans by (auto simp: moves_def)

lemma moves_beside:
  assumes "run_ready fuel bound w logs c0" "client_inv logs c0 k c" "beside c c'"
  shows "moves logs c0 k c c'"
proof -
  note b = beside_ahead [OF client_inv_ready(1) [OF assms(1,2)] assms(3)]
  have a: "ahead logs c0 c" "log_views c0 logs bound" using assms(1,2) by (simp_all add: client_inv_def run_ready_def)
  have "log_between logs c0 c' = log_between logs c0 c"
    using log_between_append [OF a(2,1) b(1)] b(2) by simp
  moreover have "accounted (log_between logs c0 c @ []) c0 c'"
    by (rule accounted_trans [of _ c0 c]) (use assms(2,3) a(1) in \<open>auto simp: client_inv_def beside_def ahead_def same_world_def\<close>)
  ultimately show ?thesis
    using assms(2,3) ahead_trans [OF a(1) b(1)] b(1) by (simp add: moves_def client_inv_def offered_def beside_def)
qed

lemma drained_moves:
  assumes "run_ready fuel bound w logs c0" "client_inv logs c0 k c" "drained logs False c c'"
  shows "moves logs c0 k c c'"
proof -
  have a: "ahead logs c0 c" "log_views c0 logs bound" "ahead logs c c'"
    using assms by (simp_all add: client_inv_def run_ready_def drained_def)
  have app: "log_between logs c0 c' = log_between logs c0 c @ log_between logs c c'"
    by (rule log_between_append [OF a(2,1,3)])
  have "accounted (log_between logs c0 c') c0 c'"
    unfolding app by (rule accounted_trans [of _ c0 c])
      (use assms(2,3) a(1) in \<open>simp_all add: client_inv_def drained_def ahead_def same_world_def\<close>)
  then show ?thesis
    using assms(2,3) ahead_trans [OF a(1,3)] a(3) by (simp add: moves_def client_inv_def drained_def offered_def app)
qed

section \<open>The operations of the client\<close>

lemma send_ack_beside: "runs (excused logs c0) (beside c) (send_ack_if_needed c)"
  by (simp add: send_ack_if_needed_def client_asks_def kernel_call_def Let_def split_def beside_def same_world_def
      accounted_def sequence_part_def excused_def emit_def)

lemma drain_ring_ack:
  "drain_ring fuel reason shadow ack c = after (drain_ring fuel reason shadow False c)
     (\<lambda>(n, c1). after (if ack then send_ack_if_needed c1 else Done c1) (\<lambda>c2. Done (n, c2)))"
  by (cases "drain_loop fuel reason shadow 0 (upd_cstats (\<lambda>s. s\<lparr>cs_ring_checks := cs_ring_checks s + 1\<rparr>) c)")
    (auto simp: drain_ring_def Let_def split_def)

text \<open>A drain moves the client up to everything that was committed when it began.\<close>

lemma drain_ring_moves:
  assumes ready: "run_ready fuel bound w logs c0" and inv: "client_inv logs c0 k c"
  shows "runs (excused logs c0) (\<lambda>(n, c'). moves logs c0 k c c' \<and>
    length (logs (c_views_used c)) \<le> unat (c_local_tail c')) (drain_ring fuel reason False ack c)"
proof (subst drain_ring_ack, rule runs_after)
  let ?P = "\<lambda>(n :: nat, c'). moves logs c0 k c c' \<and> length (logs (c_views_used c)) \<le> unat (c_local_tail c')"
  show "runs (excused logs c0) ?P (drain_ring fuel reason False False c)"
    using drain_ring_reads [OF client_inv_ready [OF ready inv], of reason False]
  proof (elim disjE exE conjE)
    assume "drain_ring fuel reason False False c = Died ''read-only HFIOR drain''" "overrun c logs"
    then show ?thesis using overrun_ahead [of c logs c0] inv by (simp add: excused_def client_inv_def)
  next
    fix c' assume d: "drain_ring fuel reason False False c =
        Done (unat (c_local_tail c') - unat (c_local_tail c), c')"
      "drained logs False c c'" "length (logs (c_views_used c)) \<le> unat (c_local_tail c')"
    show ?thesis unfolding d(1) using drained_moves [OF ready inv d(2)] d(3) by simp
  qed
  fix x assume x: "?P x"
  obtain n c1 where [simp]: "x = (n, c1)" by (cases x)
  have "runs (excused logs c0) (\<lambda>c2. moves logs c0 k c c2 \<and>
      length (logs (c_views_used c)) \<le> unat (c_local_tail c2)) (if ack then send_ack_if_needed c1 else Done c1)"
  proof (cases ack)
    case True
    have "runs (excused logs c0) (\<lambda>c2. moves logs c0 k c c2 \<and>
        length (logs (c_views_used c)) \<le> unat (c_local_tail c2)) (send_ack_if_needed c1)"
    proof (rule runs_mono [OF send_ack_beside])
      fix c2 assume b: "beside c1 c2"
      have "moves logs c0 k c1 c2" using moves_beside [OF ready _ b, of k] x by (simp add: moves_def)
      then show "moves logs c0 k c c2 \<and> length (logs (c_views_used c)) \<le> unat (c_local_tail c2)"
        using moves_trans [of logs c0 k c c1 c2] x b by (simp add: beside_def)
    qed
    with True show ?thesis by simp
  qed (use x in simp)
  then show "runs (excused logs c0) ?P (case x of (n, c1) \<Rightarrow>
      after (if ack then send_ack_if_needed c1 else Done c1) (\<lambda>c2. Done (n, c2)))"
    by (simp add: runs_after)
qed

lemma urgent_pass_moves:
  assumes ready: "run_ready fuel bound w logs c0" and inv: "client_inv logs c0 k c"
  shows "runs (excused logs c0) (moves logs c0 k c) (urgent_pass fuel c)"
proof -
  let ?c0 = "c\<lparr>c_kernel := emit (Polled 100) (c_kernel c)\<rparr>"
  let ?c1 = "snd (client_asks kernel_poll ?c0)"
  let ?c2 = "snd (client_asks kernel_counter ?c1)"
  let ?up = "\<lambda>n. upd_cstats (\<lambda>s. s\<lparr>cs_urgent_reads := cs_urgent_reads s + 1,
    cs_urgent_counter_total := cs_urgent_counter_total s + n\<rparr>) ?c2"
  have b1: "beside c ?c1" "beside c (?c1\<lparr>c_ingress_done := True\<rparr>)"
    by (simp_all add: client_asks_def kernel_poll_def beside_def same_world_def accounted_def split_def Let_def)
  have b2: "beside c ?c2" "beside c (?up n)" for n
    by (simp_all add: client_asks_def kernel_poll_def kernel_counter_def beside_def same_world_def
        accounted_def sequence_part_def split_def Let_def)
  note m = moves_beside [OF ready inv]
  have d: "runs (excused logs c0) (moves logs c0 k c)
      (after (drain_ring fuel RECEIPT_URGENT False True (?up n)) (\<lambda>(_, c3). Done c3))" for n
  proof (rule runs_after)
    show "runs (excused logs c0) (\<lambda>(m, c'). moves logs c0 k (?up n) c' \<and>
        length (logs (c_views_used (?up n))) \<le> unat (c_local_tail c'))
        (drain_ring fuel RECEIPT_URGENT False True (?up n))"
      using m [OF b2(2)] by (intro drain_ring_moves [OF ready]) (simp add: moves_def)
  qed (use moves_trans [OF m [OF b2(2)]] in auto)
  show ?thesis
  proof (cases "fst (client_asks kernel_poll ?c0)")
    case (Poll_ready revents)
    then show ?thesis
      using m [OF b1(1)] m [OF b2(1)] d
      by (cases "fst (client_asks kernel_counter ?c1)") (simp_all add: urgent_pass_def Let_def split_def)
  qed (use m [OF b1(1)] m [OF b1(2)] in \<open>simp_all add: urgent_pass_def Let_def split_def\<close>)
qed

lemma ingress_pass_moves:
  assumes ready: "run_ready fuel bound w logs c0" and inv: "client_inv logs c0 k c"
  shows "runs (excused logs c0) (moves logs c0 k c) (ingress_pass fuel c)"
proof -
  have "cc_policy (c_config c) \<noteq> Some POLICY_EAGER_THREAD"
    using ready inv by (simp add: run_ready_def client_inv_def ahead_def same_world_def)
  then show ?thesis
    using urgent_pass_moves [OF ready inv] moves_refl [OF inv client_inv_ready(1) [OF ready inv]]
    by (simp add: ingress_pass_def ingress_body_def)
qed

lemma ingress_passes_moves:
  assumes ready: "run_ready fuel bound w logs c0" and "client_inv logs c0 k c"
  shows "runs (excused logs c0) (moves logs c0 k c) (ingress_passes fuel n c)"
  using assms(2)
proof (induction n arbitrary: c)
  case 0
  then show ?case using moves_refl [OF _ client_inv_ready(1) [OF ready]] by simp
next
  case (Suc n)
  show ?case
    unfolding ingress_passes.simps
  proof (rule runs_after [OF ingress_pass_moves [OF ready Suc.prems]])
    fix c1 assume c1: "moves logs c0 k c c1"
    then have "runs (excused logs c0) (moves logs c0 k c1) (ingress_passes fuel n c1)"
      by (intro Suc.IH) (simp add: moves_def)
    then show "runs (excused logs c0) (moves logs c0 k c) (ingress_passes fuel n c1)"
      by (rule runs_mono) (rule moves_trans [OF c1])
  qed
qed

lemma let_ingress_moves:
  assumes ready: "run_ready fuel bound w logs c0" and inv: "client_inv logs c0 k c"
  shows "runs (excused logs c0) (moves logs c0 k c) (let_ingress fuel c)"
proof -
  let ?c1 = "c\<lparr>c_switches := Suc (c_switches c)\<rparr>"
  have m: "moves logs c0 k c ?c1"
    by (rule moves_beside [OF ready inv]) (simp add: beside_def same_world_def accounted_def)
  then have "runs (excused logs c0) (moves logs c0 k ?c1) (let_ingress fuel c)"
    unfolding let_ingress_def by (intro ingress_passes_moves [OF ready]) (simp add: moves_def)
  then show ?thesis by (rule runs_mono) (rule moves_trans [OF m])
qed

section \<open>Waiting\<close>

lemma client_clock_same:
  "same_world c c' \<Longrightarrow> client_clock c' = client_clock c"
  by (simp add: client_clock_def same_world_def hfior_now_ns_def fun_eq_iff)

lemma clock_readings_beside:
  "k_clock_reads (c_kernel c) \<le> n \<Longrightarrow> beside c (c\<lparr>c_kernel := (c_kernel c)\<lparr>k_clock_reads := n\<rparr>\<rparr>)"
  by (simp add: beside_def same_world_def accounted_def)

lemma client_now_beside: "beside c (snd (client_now c))"
  by (simp add: client_now_def client_asks_def hfior_now_ns_def beside_def same_world_def accounted_def split_def Let_def)

text \<open>The first reading of the clock at or past a deadline it reaches.\<close>

lemma first_reading:
  assumes "\<exists>n < fuel. client_clock c (i + n) \<ge> deadline"
  obtains n where "n < fuel" "client_clock c (i + n) \<ge> deadline" "\<forall>j < n. client_clock c (i + j) < deadline"
proof -
  define n where "n = (LEAST n. client_clock c (i + n) \<ge> deadline)"
  obtain m where m: "m < fuel" "client_clock c (i + m) \<ge> deadline" using assms by blast
  have "client_clock c (i + n) \<ge> deadline" unfolding n_def by (rule LeastI, rule m(2))
  moreover have "n \<le> m" unfolding n_def by (rule Least_le, rule m(2))
  moreover have "\<forall>j < n. client_clock c (i + j) < deadline"
    unfolding n_def using not_less_Least by (metis not_le)
  ultimately show thesis using m(1) by (intro that [of n]) simp_all
qed

lemma busy_until_beside:
  assumes "\<exists>n < fuel. client_clock c (k_clock_reads (c_kernel c) + n) \<ge> deadline"
  shows "\<exists>n \<ge> k_clock_reads (c_kernel c). busy_until fuel deadline c = Done (c\<lparr>c_kernel := (c_kernel c)\<lparr>k_clock_reads := n\<rparr>\<rparr>)"
proof -
  obtain n where n: "n < fuel" "client_clock c (k_clock_reads (c_kernel c) + n) \<ge> deadline"
    "\<forall>j < n. client_clock c (k_clock_reads (c_kernel c) + j) < deadline"
    using first_reading [OF assms] by blast
  show ?thesis unfolding busy_until_first [OF n(2,3,1)] by (intro exI conjI [rotated]) (rule refl, simp)
qed

lemma busy_for_beside:
  assumes "clock_passes fuel w c" "d \<le> w"
  shows "runs E (beside c) (busy_for_ns fuel d c)"
proof (cases "d = 0")
  case False
  let ?c1 = "snd (client_now c)"
  let ?i = "k_clock_reads (c_kernel c)"
  have clock: "client_clock ?c1 = client_clock c" by (rule client_now_clock(2))
  have "\<exists>n < fuel. client_clock ?c1 (k_clock_reads (c_kernel ?c1) + n) \<ge> fst (client_now c) + d"
    unfolding clock client_now_clock(1,3) using assms by (simp add: clock_passes_def)
  from busy_until_beside [OF this] obtain n where
    n: "k_clock_reads (c_kernel ?c1) \<le> n" and "busy_until fuel (fst (client_now c) + d) ?c1 = Done (?c1\<lparr>c_kernel := (c_kernel ?c1)\<lparr>k_clock_reads := n\<rparr>\<rparr>)" by blast
  moreover have "beside c (?c1\<lparr>c_kernel := (c_kernel ?c1)\<lparr>k_clock_reads := n\<rparr>\<rparr>)"
    by (rule beside_trans [OF client_now_beside clock_readings_beside [OF n]])
  ultimately show ?thesis using False by (simp add: busy_for_ns_def Let_def split_def)
qed (simp add: busy_for_ns_def)

lemma look_beside: "beside c (snd (look c))"
  by (simp add: look_def beside_def same_world_def accounted_def)

lemma spin_until_beside:
  assumes "\<exists>n < fuel. client_clock c (k_clock_reads (c_kernel c) + n) \<ge> deadline"
  shows "runs E (beside c) (spin_until fuel deadline c)"
  using assms
proof (induction fuel arbitrary: c)
  case (Suc fuel)
  let ?c1 = "snd (client_now c)"
  let ?c2 = "upd_cstats (\<lambda>s. s\<lparr>cs_spin_iterations := cs_spin_iterations s + 1\<rparr>) (snd (look ?c1))"
  show ?case
  proof (cases "fst (client_now c) < deadline")
    case True
    have b: "beside c ?c2"
      by (rule beside_trans [OF client_now_beside beside_trans [OF look_beside]])
        (simp add: beside_def same_world_def accounted_def sequence_part_def)
    obtain n where n: "n < Suc fuel" "client_clock c (k_clock_reads (c_kernel c) + n) \<ge> deadline"
      using Suc.prems by blast
    have "n \<noteq> 0"
    proof
      assume "n = 0"
      then show False using True n(2) by (simp add: client_now_clock(1))
    qed
    then obtain m where m: "n = Suc m" by (cases n) simp_all
    have "client_clock ?c2 = client_clock c"
      using client_clock_same [of c ?c2] b by (simp add: beside_def)
    moreover have "k_clock_reads (c_kernel ?c2) = Suc (k_clock_reads (c_kernel c))"
      using client_now_clock(3) [of c] by (simp add: look_def)
    ultimately have "runs E (beside ?c2) (spin_until fuel deadline ?c2)"
      using n m by (intro Suc.IH exI [of _ m]) simp
    then have "runs E (beside c) (spin_until fuel deadline ?c2)"
      by (rule runs_mono) (rule beside_trans [OF b])
    then show ?thesis using True by (simp add: Let_def split_def)
  next
    case False
    then show ?thesis using client_now_beside by (simp add: Let_def split_def)
  qed
qed simp

lemma perform_spin_beside:
  assumes "clock_passes fuel w c" "cc_spin_ns (c_config c) \<le> w"
  shows "runs E (beside c) (perform_spin fuel c)"
proof -
  let ?c1 = "snd (client_now c)"
  have conf: "c_config ?c1 = c_config c" by simp
  have "runs E (beside ?c1) (spin_until fuel (fst (client_now c) + cc_spin_ns (c_config ?c1)) ?c1)"
    unfolding conf using assms by (intro spin_until_beside) (simp add: client_now_clock clock_passes_def)
  then show ?thesis
    unfolding perform_spin_def Let_def split_def by (rule runs_mono) (rule beside_trans [OF client_now_beside])
qed

section \<open>Steps\<close>

definition taken_records :: "frame_state \<Rightarrow> nat" where
  "taken_records s = fs_total_records s + fs_late_records s"

definition frame_inv :: "(nat \<Rightarrow> hfior_record list) \<Rightarrow> client \<Rightarrow> frame_state \<Rightarrow> bool" where
  "frame_inv logs c0 s \<longleftrightarrow> client_inv logs c0 (taken_records s) (fs_client s) \<and>
     fs_summary s = summarize_records (take (taken_records s) (offered logs c0 (fs_client s))) empty_summary"

text \<open>A step from \<open>s\<close> to \<open>s'\<close>; \<open>g\<close> is a local it does not touch.\<close>

definition advances :: "(frame_state \<Rightarrow> u64) \<Rightarrow> (nat \<Rightarrow> hfior_record list) \<Rightarrow> client \<Rightarrow> frame_state \<Rightarrow> frame_state \<Rightarrow> bool" where
  "advances g logs c0 s s' \<longleftrightarrow> frame_inv logs c0 s' \<and> ahead logs (fs_client s) (fs_client s') \<and>
     taken_records s \<le> taken_records s' \<and> g s' = g s"

lemma advances_trans: "advances g logs c0 a b \<Longrightarrow> advances g logs c0 b c \<Longrightarrow> advances g logs c0 a c"
  using ahead_trans by (auto simp: advances_def)

definition local_field :: "(frame_state \<Rightarrow> u64) \<Rightarrow> bool" where
  "local_field g \<longleftrightarrow> (\<forall>s c u n. g (s\<lparr>fs_client := c\<rparr>) = g s \<and> g (s\<lparr>fs_summary := u\<rparr>) = g s \<and>
     g (s\<lparr>fs_total_records := n\<rparr>) = g s \<and> g (s\<lparr>fs_late_records := n\<rparr>) = g s)"

text \<open>
  What a step guarantees: nothing but the invariant (\<open>quiet\<close>); that everything visible at its
  beginning has been read (\<open>draining\<close>); that everything read before has been taken (\<open>taking\<close>);
  that everything visible at its beginning has been taken (\<open>latching\<close>).
\<close>

definition step_gives ::
    "(frame_state \<Rightarrow> u64) \<Rightarrow> (nat \<Rightarrow> hfior_record list) \<Rightarrow> client \<Rightarrow> (frame_state \<Rightarrow> frame_state \<Rightarrow> bool) \<Rightarrow>
      frame_step \<Rightarrow> bool" where
  "step_gives g logs c0 R f \<longleftrightarrow> local_field g \<longrightarrow> (\<forall>s. frame_inv logs c0 s \<longrightarrow>
     runs (excused logs c0) (\<lambda>s'. advances g logs c0 s s' \<and> R s s') (f s))"

abbreviation quiet where "quiet g logs c0 \<equiv> step_gives g logs c0 (\<lambda>_ _. True)"

abbreviation draining where "draining g logs c0 \<equiv> step_gives g logs c0
  (\<lambda>s s'. length (logs (c_views_used (fs_client s))) \<le> unat (c_local_tail (fs_client s')))"

abbreviation taking where "taking g logs c0 \<equiv> step_gives g logs c0
  (\<lambda>s s'. length (q_records (c_pending c0)) + (unat (c_local_tail (fs_client s)) - unat (c_local_tail c0))
     \<le> taken_records s')"

abbreviation latching where "latching g logs c0 \<equiv> step_gives g logs c0
  (\<lambda>s s'. length (q_records (c_pending c0)) +
     (length (logs (c_views_used (fs_client s))) - unat (c_local_tail c0)) \<le> taken_records s')"

lemma step_gives_quiet: "step_gives g logs c0 R f \<Longrightarrow> quiet g logs c0 f"
  unfolding step_gives_def by (blast intro: runs_mono)

text \<open>Sequences.\<close>

lemma step_gives_after:
  assumes "step_gives g logs c0 R f" "step_gives g logs c0 S h"
    "\<And>a b c. frame_inv logs c0 a \<Longrightarrow> advances g logs c0 a b \<Longrightarrow> R a b \<Longrightarrow> advances g logs c0 b c \<Longrightarrow> S b c \<Longrightarrow> T a c"
  shows "step_gives g logs c0 T (\<lambda>s. after (f s) h)"
  unfolding step_gives_def
proof (intro allI impI)
  fix s assume g: "local_field g" and s: "frame_inv logs c0 s"
  then have "runs (excused logs c0) (\<lambda>s'. advances g logs c0 s s' \<and> R s s') (f s)"
    using assms(1) g by (simp add: step_gives_def)
  then show "runs (excused logs c0) (\<lambda>s'. advances g logs c0 s s' \<and> T s s') (after (f s) h)"
  proof (rule runs_after)
    fix x assume x: "advances g logs c0 s x \<and> R s x"
    then have "frame_inv logs c0 x" by (simp add: advances_def)
    then have "runs (excused logs c0) (\<lambda>s'. advances g logs c0 x s' \<and> S x s') (h x)"
      using assms(2) g unfolding step_gives_def by blast
    then show "runs (excused logs c0) (\<lambda>s'. advances g logs c0 s s' \<and> T s s') (h x)"
      using x assms(3) [OF s] advances_trans by (blast intro: runs_mono)
  qed
qed

lemma steps_gives:
  "step_gives g logs c0 T (\<lambda>s. after (f s) (steps fs)) \<Longrightarrow> step_gives g logs c0 T (steps (f # fs))"
  by (simp add: step_gives_def)

lemma visible_mono:
  assumes "log_views c0 logs bound" "frame_inv logs c0 a" "advances g logs c0 a b"
  shows "length (logs (c_views_used (fs_client a))) \<le> length (logs (c_views_used (fs_client b)))"
proof -
  have "log_views (fs_client a) logs bound"
    using log_views_ahead [OF assms(1)] assms(2) by (simp add: frame_inv_def client_inv_def)
  from log_views_prefix [OF this] assms(3) show ?thesis
    by (simp add: advances_def ahead_def prefix_length_le)
qed

lemma cursor_mono: "advances g logs c0 a b \<Longrightarrow> unat (c_local_tail (fs_client a)) \<le> unat (c_local_tail (fs_client b))"
  by (simp add: advances_def ahead_def)

lemma taken_mono: "advances g logs c0 a b \<Longrightarrow> taken_records a \<le> taken_records b"
  by (simp add: advances_def)

lemma count_le: "a \<le> b \<Longrightarrow> q + (b - t) \<le> k \<Longrightarrow> q + (a - t) \<le> (k :: nat)"
  by arith

lemma steps_quiet:
  "quiet g logs c0 f \<Longrightarrow> quiet g logs c0 (steps fs) \<Longrightarrow> quiet g logs c0 (steps (f # fs))"
  by (rule steps_gives, rule step_gives_after)

lemma after_draining:
  assumes "log_views c0 logs bound" "quiet g logs c0 f" "draining g logs c0 h"
  shows "draining g logs c0 (\<lambda>s. after (f s) h)"
  using assms(2,3) by (rule step_gives_after) (use visible_mono [OF assms(1)] order_trans in blast)

lemma steps_draining:
  assumes "draining g logs c0 f" "quiet g logs c0 (steps fs)"
  shows "draining g logs c0 (steps (f # fs))"
  by (rule steps_gives, rule step_gives_after [OF assms]) (use cursor_mono order_trans in blast)

lemma steps_later_draining:
  assumes "log_views c0 logs bound" "quiet g logs c0 f" "draining g logs c0 (steps fs)"
  shows "draining g logs c0 (steps (f # fs))"
  by (rule steps_gives, rule after_draining [OF assms])

lemma steps_taking:
  assumes "taking g logs c0 f" "quiet g logs c0 (steps fs)"
  shows "taking g logs c0 (steps (f # fs))"
  by (rule steps_gives, rule step_gives_after [OF assms]) (use taken_mono order_trans in blast)

lemma steps_later_taking:
  assumes "quiet g logs c0 f" "taking g logs c0 (steps fs)"
  shows "taking g logs c0 (steps (f # fs))"
  by (rule steps_gives, rule step_gives_after [OF assms])
    (drule cursor_mono, erule (1) count_le)

lemma steps_latching:
  assumes "latching g logs c0 f" "quiet g logs c0 (steps fs)"
  shows "latching g logs c0 (steps (f # fs))"
  by (rule steps_gives, rule step_gives_after [OF assms]) (use taken_mono order_trans in blast)

lemma steps_drain_take:
  assumes "draining g logs c0 f" "taking g logs c0 (steps fs)"
  shows "latching g logs c0 (steps (f # fs))"
  by (rule steps_gives, rule step_gives_after [OF assms])
    (erule (1) count_le)

lemma steps_later_latching:
  assumes "log_views c0 logs bound" "quiet g logs c0 f" "latching g logs c0 (steps fs)"
  shows "latching g logs c0 (steps (f # fs))"
  by (rule steps_gives, rule step_gives_after [OF assms(2,3)])
    (drule (1) visible_mono [OF assms(1)], erule (1) count_le)

lemma steps_nil: "log_views c0 logs bound \<Longrightarrow> quiet g logs c0 (steps [])"
  using ahead_refl [OF log_views_ahead]
  by (auto simp: step_gives_def advances_def frame_inv_def client_inv_def)

section \<open>The single steps\<close>

lemma frame_move:
  assumes "frame_inv logs c0 s" "moves logs c0 (taken_records s) (fs_client s) c"
    "log_views c0 logs bound"
  shows "frame_inv logs c0 (s\<lparr>fs_client := c\<rparr>)" "ahead logs (fs_client s) c"
proof -
  let ?o = "offered logs c0 (fs_client s)" and ?k = "taken_records s"
  have k: "?k \<le> length ?o" using assms(1) by (simp add: frame_inv_def client_inv_def)
  show a: "ahead logs (fs_client s) c" using assms(2) by (simp add: moves_def)
  have "log_between logs c0 c = log_between logs c0 (fs_client s) @ log_between logs (fs_client s) c"
    using assms(1) by (intro log_between_append [OF assms(3) _ a]) (simp add: frame_inv_def client_inv_def)
  then have "take ?k (offered logs c0 c) = take ?k ?o" using k by (simp add: offered_def)
  then show "frame_inv logs c0 (s\<lparr>fs_client := c\<rparr>)"
    using assms(1,2) by (simp add: frame_inv_def moves_def taken_records_def)
qed

text \<open>A store to the locals that leaves what was taken and the field \<open>g\<close> alone.\<close>

definition stores :: "(frame_state \<Rightarrow> u64) \<Rightarrow> (frame_state \<Rightarrow> frame_state) \<Rightarrow> bool" where
  "stores g f \<longleftrightarrow> (\<forall>s. fs_client (f s) = fs_client s \<and> fs_summary (f s) = fs_summary s \<and>
     taken_records (f s) = taken_records s \<and> g (f s) = g s)"

lemma stores_inv: "stores g f \<Longrightarrow> frame_inv logs c0 s \<Longrightarrow> frame_inv logs c0 (f s)"
  by (simp add: stores_def frame_inv_def)

lemma client_step:
  assumes "\<And>k c. client_inv logs c0 k c \<Longrightarrow> runs (excused logs c0) (\<lambda>c'. moves logs c0 k c c' \<and> R c c') (f c)"
    "log_views c0 logs bound"
  shows "step_gives g logs c0 (\<lambda>s s'. R (fs_client s) (fs_client s')) (on_client f)"
  unfolding step_gives_def
proof (intro allI impI)
  fix s assume g: "local_field g" and s: "frame_inv logs c0 s"
  let ?R = "\<lambda>c. moves logs c0 (taken_records s) (fs_client s) c \<and> R (fs_client s) c"
  have "runs (excused logs c0) ?R (f (fs_client s))"
    using s assms(1) by (simp add: frame_inv_def)
  then show "runs (excused logs c0) (\<lambda>s'. advances g logs c0 s s' \<and> R (fs_client s) (fs_client s')) (on_client f s)"
    unfolding on_client_def
  proof (rule runs_after)
    fix c assume c: "?R c"
    with frame_move [OF s _ assms(2)] show "runs (excused logs c0)
        (\<lambda>s'. advances g logs c0 s s' \<and> R (fs_client s) (fs_client s')) (Done (s\<lparr>fs_client := c\<rparr>))"
      using g by (simp add: advances_def taken_records_def local_field_def)
  qed
qed

lemma on_client_quiet:
  assumes "run_ready fuel bound w logs c0"
    "\<And>k c. client_inv logs c0 k c \<Longrightarrow> runs (excused logs c0) (moves logs c0 k c) (f c)"
  shows "quiet g logs c0 (on_client f)"
  using client_step [of logs c0 "\<lambda>_ _. True" f bound g] assms by (simp add: run_ready_def)

lemma beside_quiet:
  assumes "run_ready fuel bound w logs c0"
    "\<And>k c. client_inv logs c0 k c \<Longrightarrow> runs (excused logs c0) (beside c) (f c)"
  shows "quiet g logs c0 (on_client f)"
  using assms(1) by (rule on_client_quiet) (use assms moves_beside in \<open>blast intro: runs_mono\<close>)

lemma store_quiet:
  assumes "run_ready fuel bound w logs c0" "stores g f"
  shows "quiet g logs c0 (\<lambda>s. Done (f s))"
  unfolding step_gives_def
proof (intro allI impI)
  fix s assume g: "local_field g" and s: "frame_inv logs c0 s"
  then have "ahead logs (fs_client s) (fs_client s)"
    using client_inv_ready(1) [OF assms(1), THEN ahead_refl] unfolding frame_inv_def by blast
  then show "runs (excused logs c0) (\<lambda>s'. advances g logs c0 s s' \<and> True) (Done (f s))"
    using stores_inv [OF assms(2) s] assms(2) by (simp add: advances_def stores_def)
qed

lemma look_store_quiet:
  assumes "run_ready fuel bound w logs c0" "\<And>c. beside c (snd (ask c))" "\<And>x. stores g (store x)"
  shows "quiet g logs c0 (\<lambda>s. let (x, c) = ask (fs_client s) in Done (store x (s\<lparr>fs_client := c\<rparr>)))"
proof -
  have q: "quiet g logs c0 (on_client (\<lambda>c. Done (snd (ask c))))"
    by (rule beside_quiet [OF assms(1)]) (simp add: assms(2))
  show ?thesis
    unfolding step_gives_def
  proof (intro allI impI)
    fix s assume g: "local_field g" and s: "frame_inv logs c0 s"
    let ?s1 = "s\<lparr>fs_client := snd (ask (fs_client s))\<rparr>" and ?x = "fst (ask (fs_client s))"
    have a: "advances g logs c0 s ?s1" using q s g by (simp add: step_gives_def on_client_def)
    then have "frame_inv logs c0 (store ?x ?s1)"
      by (intro stores_inv [OF assms(3)]) (simp add: advances_def)
    then show "runs (excused logs c0) (\<lambda>s'. advances g logs c0 s s' \<and> True)
        (let (x, c) = ask (fs_client s) in Done (store x (s\<lparr>fs_client := c\<rparr>)))"
      using a assms(3) [of ?x] by (simp add: advances_def stores_def split_def Let_def)
  qed
qed

lemma read_clock_quiet:
  "run_ready fuel bound w logs c0 \<Longrightarrow> (\<And>now. stores g (store now)) \<Longrightarrow> quiet g logs c0 (read_clock store)"
  using look_store_quiet [of fuel bound w logs c0 client_now g store] client_now_beside
  by (simp add: read_clock_def [abs_def])

lemma observe_head_quiet:
  assumes "run_ready fuel bound w logs c0" "\<And>h. stores g (store h)"
  shows "quiet g logs c0 (observe_head store)"
  using look_store_quiet [of fuel bound w logs c0 look g "\<lambda>r. store (pl_head (producer r))"] look_beside assms
  by (simp add: observe_head_def [abs_def])

lemma clock_passes_later:
  assumes "run_ready fuel bound w logs c0" "client_inv logs c0 k c"
  shows "clock_passes fuel w c"
  using assms client_clock_same [of c0 c] by (simp add: run_ready_def client_inv_def ahead_def clock_passes_def)

lemma frame_busy_quiet:
  assumes "run_ready fuel bound w logs c0" "d \<le> w"
  shows "quiet g logs c0 (frame_busy fuel d)"
  unfolding frame_busy_def
  by (rule beside_quiet [OF assms(1)]) (rule busy_for_beside [OF clock_passes_later [OF assms(1)] assms(2)])

lemma spin_quiet:
  assumes "run_ready fuel bound w logs c0" "cc_spin_ns (c_config c0) \<le> w"
  shows "quiet g logs c0 (on_client (perform_spin fuel))"
proof (rule beside_quiet [OF assms(1)])
  fix k c assume inv: "client_inv logs c0 k c"
  then have "c_config c = c_config c0" by (simp add: client_inv_def ahead_def same_world_def)
  then show "runs (excused logs c0) (beside c) (perform_spin fuel c)"
    using assms(2) by (intro perform_spin_beside [OF clock_passes_later [OF assms(1) inv]]) simp
qed

lemma frame_stats_quiet:
  assumes "run_ready fuel bound w logs c0"
    "\<And>s st. sequence_part (f s st) = sequence_part st \<and> cs_ring_records (f s st) = cs_ring_records st \<and>
      cs_frames (f s st) = cs_frames st"
  shows "quiet g logs c0 (frame_stats f)"
  unfolding step_gives_def
proof (intro allI impI)
  fix s assume g: "local_field g" and s: "frame_inv logs c0 s"
  have "beside (fs_client s) (upd_cstats (f s) (fs_client s))"
    using assms(2) by (simp add: beside_def same_world_def accounted_def)
  then have "moves logs c0 (taken_records s) (fs_client s) (upd_cstats (f s) (fs_client s))"
    using s by (intro moves_beside [OF assms(1)]) (simp_all add: frame_inv_def)
  moreover have "log_views c0 logs bound" using assms(1) by (simp add: run_ready_def)
  ultimately show "runs (excused logs c0) (\<lambda>s'. advances g logs c0 s s' \<and> True) (frame_stats f s)"
    using frame_move [OF s] g by (simp add: frame_stats_def advances_def taken_records_def local_field_def)
qed

lemma guarded_quiet:
  assumes "run_ready fuel bound w logs c0" "quiet g logs c0 f"
  shows "quiet g logs c0 (guarded b f)"
  using store_quiet [OF assms(1), of g "\<lambda>s. s"] assms(2)
  by (simp add: step_gives_def guarded_def stores_def)

lemma depending_gives: "(\<And>s. step_gives g logs c0 R (f s)) \<Longrightarrow> step_gives g logs c0 R (depending f)"
  by (simp add: step_gives_def depending_def)

lemma let_ingress_then_beside:
  assumes ready: "run_ready fuel bound w logs c0" and inv: "client_inv logs c0 k c"
    and f: "\<And>c. runs (excused logs c0) (beside c) (f c)"
  shows "runs (excused logs c0) (moves logs c0 k c) (after (let_ingress fuel c) f)"
proof (rule runs_after [OF let_ingress_moves [OF ready inv]])
  fix c1 assume c1: "moves logs c0 k c c1"
  then have m: "beside c1 c2 \<Longrightarrow> moves logs c0 k c1 c2" for c2
    by (intro moves_beside [OF ready]) (simp_all add: moves_def)
  show "runs (excused logs c0) (moves logs c0 k c) (f c1)"
    by (rule runs_mono [OF f]) (rule moves_trans [OF c1 m])
qed

lemma maybe_ack_beside:
  "runs (excused logs c0) (beside c) (maybe_ack_post_use c)"
  "runs (excused logs c0) (beside c) (maybe_ack_post_frame c)"
  using send_ack_beside by (simp_all add: maybe_ack_post_use_def maybe_ack_post_frame_def)

lemma post_use_quiet:
  assumes ready: "run_ready fuel bound w logs c0"
  shows "quiet g logs c0 (post_use fuel)"
  unfolding post_use_def
proof (rule on_client_quiet [OF ready])
  fix k c assume inv: "client_inv logs c0 k c"
  have "runs (excused logs c0) (moves logs c0 k c) (maybe_ack_post_use c)"
    by (rule runs_mono [OF maybe_ack_beside(1)]) (rule moves_beside [OF ready inv])
  then show "runs (excused logs c0) (moves logs c0 k c) (if cc_ack_placement (c_config c) = ACK_POST_USE
      then after (let_ingress fuel c) maybe_ack_post_use else maybe_ack_post_use c)"
    using let_ingress_then_beside [OF ready inv maybe_ack_beside(1)] by simp
qed

lemma frame_ack_quiet:
  assumes "run_ready fuel bound w logs c0"
  shows "quiet g logs c0 (on_client (\<lambda>c. after (let_ingress fuel c) send_ack_if_needed))"
  by (rule on_client_quiet [OF assms]) (rule let_ingress_then_beside [OF assms _ send_ack_beside])

lemma frame_drain_draining:
  assumes ready: "run_ready fuel bound w logs c0"
  shows "draining g logs c0 (frame_drain fuel reason False ack)"
proof -
  have views: "log_views c0 logs bound" using ready by (simp add: run_ready_def)
  show ?thesis
    unfolding frame_drain_def
  proof (rule client_step [OF _ views])
    fix k c assume inv: "client_inv logs c0 k c"
    show "runs (excused logs c0) (\<lambda>c'. moves logs c0 k c c' \<and> length (logs (c_views_used c)) \<le> unat (c_local_tail c'))
        (after (let_ingress fuel c) (\<lambda>c1. after (drain_ring fuel reason False ack c1) (\<lambda>(_, c2). Done c2)))"
    proof (rule runs_after [OF let_ingress_moves [OF ready inv]])
      fix c1 assume c1: "moves logs c0 k c c1"
      then have inv1: "client_inv logs c0 k c1" by (simp add: moves_def)
      have "prefix (logs (c_views_used c)) (logs (c_views_used c1))"
        using c1 by (intro log_views_prefix [OF client_inv_ready(1) [OF ready inv]]) (simp_all add: moves_def ahead_def)
      then have grow: "length (logs (c_views_used c)) \<le> length (logs (c_views_used c1))" by (rule prefix_length_le)
      show "runs (excused logs c0) (\<lambda>c'. moves logs c0 k c c' \<and> length (logs (c_views_used c)) \<le> unat (c_local_tail c'))
          (after (drain_ring fuel reason False ack c1) (\<lambda>(_, c2). Done c2))"
        by (rule runs_after [OF drain_ring_moves [OF ready inv1]])
          (use moves_trans [OF c1] grow in \<open>auto intro: order_trans\<close>)
    qed
  qed
qed

lemma summarize_append: "summarize_records (xs @ ys) s = summarize_records ys (summarize_records xs s)"
  by (simp add: summarize_records_def)

text \<open>Taking the pending records takes everything that has been read.\<close>

lemma frame_take_taking:
  assumes ready: "run_ready fuel bound w logs c0"
  shows "taking g logs c0 (frame_take fuel late)"
  unfolding step_gives_def
proof (intro allI impI)
  fix s assume g: "local_field g" and s: "frame_inv logs c0 s"
  let ?k = "taken_records s"
  have inv: "client_inv logs c0 ?k (fs_client s)" using s by (simp add: frame_inv_def)
  have views: "log_views c0 logs bound" using ready by (simp add: run_ready_def)
  show "runs (excused logs c0) (\<lambda>s'. advances g logs c0 s s' \<and>
      length (q_records (c_pending c0)) + (unat (c_local_tail (fs_client s)) - unat (c_local_tail c0)) \<le> taken_records s')
      (frame_take fuel late s)"
    unfolding frame_take_def
  proof (rule runs_after [OF let_ingress_moves [OF ready inv]])
    fix c assume c: "moves logs c0 ?k (fs_client s) c"
    let ?c1 = "c\<lparr>c_pending := (c_pending c)\<lparr>q_records := []\<rparr>\<rparr>"
    let ?o = "offered logs c0 c"
    have s1: "frame_inv logs c0 (s\<lparr>fs_client := c\<rparr>)" by (rule frame_move(1) [OF s c views])
    have ci: "client_inv logs c0 ?k c" using c by (simp add: moves_def)
    then have n: "q_records (c_pending c) = drop ?k ?o" "?k \<le> length ?o" by (simp_all add: client_inv_def)
    have o: "offered logs c0 ?c1 = ?o" by (simp add: offered_def log_between_def)
    have len: "length ?o = length (q_records (c_pending c0)) + (unat (c_local_tail c) - unat (c_local_tail c0))"
      using ci length_log_between [of logs c0 c] by (simp add: client_inv_def offered_def)
    have sum: "summarize_records (drop ?k ?o) (fs_summary s) = summarize_records ?o empty_summary"
    proof -
      have "fs_summary s = summarize_records (take ?k ?o) empty_summary"
        using s1 by (simp add: frame_inv_def taken_records_def)
      then show ?thesis using summarize_append [of "take ?k ?o" "drop ?k ?o" empty_summary] by simp
    qed
    have ci1: "client_inv logs c0 (length ?o) ?c1"
      using ci unfolding client_inv_def o
      by (simp add: ahead_def same_world_def accounted_def log_between_def queue_ok_def)
    let ?s1 = "s\<lparr>fs_client := ?c1, fs_summary := summarize_records (drop ?k ?o) (fs_summary s)\<rparr>"
    let ?t = "if late then ?s1\<lparr>fs_late_records := fs_late_records ?s1 + (length ?o - ?k)\<rparr>
      else ?s1\<lparr>fs_total_records := fs_total_records ?s1 + (length ?o - ?k)\<rparr>"
    have step: "(let (n, summary, c1) = take_pending c (fs_summary s);
          s1 = s\<lparr>fs_client := c1, fs_summary := summary\<rparr>
        in Done (if late then s1\<lparr>fs_late_records := fs_late_records s1 + n\<rparr>
                 else s1\<lparr>fs_total_records := fs_total_records s1 + n\<rparr>)) = Done ?t"
      by (simp add: take_pending_def queue_take_all_def n(1))
    have t: "fs_client ?t = ?c1" "fs_summary ?t = summarize_records ?o empty_summary"
      "taken_records ?t = length ?o" "g ?t = g s"
      using n(2) sum g by (simp_all add: taken_records_def local_field_def)
    have "frame_inv logs c0 ?t" unfolding frame_inv_def t o using ci1 by simp
    moreover have "ahead logs (fs_client s) ?c1" using c by (simp add: moves_def ahead_def same_world_def)
    ultimately have "advances g logs c0 s ?t" unfolding advances_def t using n(2) by simp
    moreover have "unat (c_local_tail (fs_client s)) \<le> unat (c_local_tail c)"
      using c by (simp add: moves_def ahead_def)
    then have "length (q_records (c_pending c0)) + (unat (c_local_tail (fs_client s)) - unat (c_local_tail c0))
        \<le> length ?o" unfolding len by simp
    then have "length (q_records (c_pending c0)) + (unat (c_local_tail (fs_client s)) - unat (c_local_tail c0))
        \<le> taken_records ?t" by (simp only: t(3))
    ultimately show "runs (excused logs c0) (\<lambda>s'. advances g logs c0 s s' \<and>
        length (q_records (c_pending c0)) + (unat (c_local_tail (fs_client s)) - unat (c_local_tail c0)) \<le> taken_records s')
        (let (n, summary, c1) = take_pending c (fs_summary s);
             s1 = s\<lparr>fs_client := c1, fs_summary := summary\<rparr>
         in Done (if late then s1\<lparr>fs_late_records := fs_late_records s1 + n\<rparr>
                  else s1\<lparr>fs_total_records := fs_total_records s1 + n\<rparr>))"
      unfolding step runs_simps by (rule conjI)
  qed
qed

lemmas frame_drain_quiet = frame_drain_draining [THEN step_gives_quiet]
lemmas frame_take_quiet = frame_take_taking [THEN step_gives_quiet]

end
