(* ===== verification/Client_Policies.thy ===== *)
theory Client_Policies
  imports Client_Latch
begin

text \<open>
  What each policy of the latency client takes in a frame: its steps composed, up to the two
  properties of a whole frame.
\<close>

section \<open>The policies\<close>

text \<open>The configured work fits the durations the clock passes, and no sum of it wraps.\<close>

definition work_fits :: "client_config \<Rightarrow> u64 \<Rightarrow> bool" where
  "work_fits config w \<longleftrightarrow>
     unat (cc_base_work_ns config) + unat (cc_integration_work_ns config) \<le> unat w \<and>
     unat (cc_base_work_ns config) < 2 ^ 53 \<and>
     0 \<le> cc_input_phase config \<and> cc_input_phase config \<le> 1 \<and> cc_spin_ns config \<le> w"

lemma work_before_le:
  assumes "work_fits config w"
  shows "work_before config \<le> cc_base_work_ns config"
proof -
  define b where "b = unat (cc_base_work_ns config)"
  let ?p = "cc_input_phase config" and ?r = "round_double (of_nat b * cc_input_phase config)"
  have b: "b < 2 ^ 53" "0 \<le> ?p" "?p \<le> 1" using assms by (simp_all add: work_fits_def b_def)
  have d: "double_of_u64 (cc_base_work_ns config) = of_nat b"
    unfolding double_of_u64_def b_def [symmetric] by (rule round_double_int [OF b(1)])
  have "0 \<le> of_nat b * ?p" "of_nat b * ?p \<le> of_nat b" using b by (simp_all add: mult_right_le_one_le)
  from round_double_le [OF this b(1)] have r: "0 \<le> ?r" "?r \<le> of_int (int b)" by simp_all
  then have f: "0 \<le> \<lfloor>?r\<rfloor>" "\<lfloor>?r\<rfloor> \<le> int b" by (simp_all add: floor_le_iff order.strict_trans1)
  then have n: "nat \<lfloor>?r\<rfloor> \<le> b" by linarith
  have "b < 2 ^ 64" using b(1) by simp
  with n have lt: "nat \<lfloor>?r\<rfloor> < 2 ^ 64" by (rule le_less_trans)
  have "(word_of_int \<lfloor>?r\<rfloor> :: u64) = of_nat (nat \<lfloor>?r\<rfloor>)" using f(1) by simp
  then have "unat (word_of_int \<lfloor>?r\<rfloor> :: u64) \<le> b"
    using n lt by (simp only: unsigned_of_nat take_bit_nat_eq_self)
      (simp add: take_bit_nat_eq_self)
  then show ?thesis by (simp add: work_before_def d u64_of_double_def word_le_nat_alt b_def)
qed

lemma unat_sum_within:
  fixes a b w :: u64
  assumes "unat a + unat b \<le> unat w"
  shows "unat (a + b) = unat a + unat b"
proof -
  have "unat a + unat b < 2 ^ LENGTH(64)" using assms
    by (rule le_less_trans) (rule unsigned_less)
  then show ?thesis by (simp add: unat_word_ariths)
qed

lemma word_sum_le:
  fixes a b w :: u64
  assumes "unat a + unat b \<le> unat w"
  shows "a + b \<le> w" "a \<le> w" "b \<le> w"
  using assms unat_sum_within [OF assms] by (simp_all add: word_le_nat_alt)

lemma work_le:
  assumes "work_fits config w"
  shows "cc_base_work_ns config \<le> w" "cc_integration_work_ns config \<le> w" "work_before config \<le> w"
    "cc_base_work_ns config div 2 \<le> w"
    "(cc_base_work_ns config - work_before config) + cc_integration_work_ns config \<le> w"
    "(cc_base_work_ns config - cc_base_work_ns config div 2) + cc_integration_work_ns config \<le> w"
proof -
  have s: "unat (cc_base_work_ns config) + unat (cc_integration_work_ns config) \<le> unat w"
    using assms by (simp add: work_fits_def)
  show "cc_base_work_ns config \<le> w" "cc_integration_work_ns config \<le> w" using word_sum_le [OF s] by simp_all
  then show "work_before config \<le> w" using work_before_le [OF assms] by simp
  have half: "cc_base_work_ns config div 2 \<le> cc_base_work_ns config" by (simp add: word_le_nat_alt unat_div)
  with \<open>cc_base_work_ns config \<le> w\<close> show "cc_base_work_ns config div 2 \<le> w" by simp
  have "(cc_base_work_ns config - x) + cc_integration_work_ns config \<le> w" if "x \<le> cc_base_work_ns config" for x
  proof -
    have "unat (cc_base_work_ns config - x) \<le> unat (cc_base_work_ns config)" using that by (simp add: unat_sub_if' word_le_nat_alt)
    then show ?thesis using s by (intro word_sum_le(1)) linarith
  qed
  then show "(cc_base_work_ns config - work_before config) + cc_integration_work_ns config \<le> w"
    "(cc_base_work_ns config - cc_base_work_ns config div 2) + cc_integration_work_ns config \<le> w"
    using work_before_le [OF assms] half by simp_all
qed

text \<open>A field of the observation that only \<open>initial_head\<close> or nothing writes during the policy.\<close>

definition untouched :: "(frame_state \<Rightarrow> u64) \<Rightarrow> bool" where
  "untouched g \<longleftrightarrow> (\<exists>f. g = (\<lambda>s. f (fs_result s)) \<and>
     (\<forall>r t. f (r\<lparr>fo_legacy_measurement_ns := t\<rparr>) = f r \<and> f (r\<lparr>fo_latch_begin_ns := t\<rparr>) = f r \<and>
        f (r\<lparr>fo_latch_end_ns := t\<rparr>) = f r \<and> f (r\<lparr>fo_use_time_ns := t\<rparr>) = f r \<and>
        f (r\<lparr>fo_head_at_final_latch := t\<rparr>) = f r))"

lemma untouched_heads:
  "untouched (\<lambda>s. fo_head_at_frame_start (fs_result s))" "untouched (\<lambda>s. fo_head_at_initial_latch (fs_result s))"
  unfolding untouched_def by (rule exI, rule conjI, rule refl, simp)+

lemma named_steps_quiet:
  assumes "run_ready fuel bound w logs c0" "untouched g"
  shows "quiet g logs c0 legacy_and_latch_begin" "quiet g logs c0 latch_end" "quiet g logs c0 latch_end_and_use"
    "quiet g logs c0 use_time" "quiet g logs c0 final_head"
    "quiet g logs c0 (\<lambda>s. Done (upd_result (\<lambda>r. r\<lparr>fo_legacy_measurement_ns := fs_final_check_begin_ns s,
      fo_latch_begin_ns := fs_final_check_begin_ns s\<rparr>) s))"
    "quiet g logs c0 (\<lambda>s. Done (upd_result (\<lambda>r. r\<lparr>fo_use_time_ns := fo_latch_end_ns r\<rparr>) s))"
    "quiet g logs c0 (read_clock (\<lambda>now s. s\<lparr>fs_final_latch_begin_ns := now\<rparr>))"
    "quiet g logs c0 (read_clock (\<lambda>now s. upd_result (\<lambda>r. r\<lparr>fo_latch_begin_ns := fs_final_latch_begin_ns s,
      fo_latch_end_ns := now\<rparr>) s))"
  unfolding legacy_and_latch_begin_def latch_end_def latch_end_and_use_def use_time_def final_head_def
  by (rule read_clock_quiet [OF assms(1)] observe_head_quiet [OF assms(1)] store_quiet [OF assms(1)],
      use assms(2) in \<open>auto simp: untouched_def stores_def taken_records_def\<close>)+

lemma initial_head_quiet:
  assumes "run_ready fuel bound w logs c0"
  shows "quiet (\<lambda>s. fo_head_at_frame_start (fs_result s)) logs c0 initial_head"
  unfolding initial_head_def
  by (rule observe_head_quiet [OF assms]) (simp add: stores_def taken_records_def)

lemma count_quiet:
  assumes "run_ready fuel bound w logs c0"
  shows "quiet g logs c0 (frame_stats one_action)"
    "quiet g logs c0 (frame_stats (\<lambda>s st. st\<lparr>cs_late_latch_actions := cs_late_latch_actions st + 1,
        cs_frames_with_late_latch := cs_frames_with_late_latch st + 1,
        cs_late_latch_records := cs_late_latch_records st + of_nat (fs_late_records s)\<rparr>))"
  by (rule frame_stats_quiet [OF assms], simp add: one_action_def sequence_part_def)+

lemma drain_depending:
  assumes "run_ready fuel bound w logs c0"
  shows "draining g logs c0 (depending (\<lambda>s. frame_drain fuel reason False (b s)))"
  by (rule depending_gives, rule frame_drain_draining [OF assms])

lemma quiet_after: "quiet g logs c0 f \<Longrightarrow> quiet g logs c0 h \<Longrightarrow> quiet g logs c0 (\<lambda>s. after (f s) h)"
  by (rule step_gives_after)

lemma rechecks_quiet:
  assumes "run_ready fuel bound w logs c0"
  shows "quiet g logs c0 (frame_rechecks fuel n)"
proof (induction n)
  case 0
  then show ?case using store_quiet [OF assms, of g "\<lambda>s. s"] by (simp add: step_gives_def stores_def)
next
  case (Suc n)
  have views: "log_views c0 logs bound" using assms by (simp add: run_ready_def)
  have "quiet g logs c0 (steps
       [depending (\<lambda>s. frame_drain fuel RECEIPT_FINAL_RING False (n = 0 \<and> ack_during_drain (fs_client s))),
        frame_take fuel True])"
    by (intro steps_quiet steps_nil [OF views] drain_depending [OF assms, THEN step_gives_quiet] frame_take_quiet [OF assms])
  from quiet_after [OF this Suc.IH] show ?case by (simp add: step_gives_def)
qed

text \<open>The loop of checks reads everything, and never works more than the configured time.\<close>

lemma runs_conj: "runs E P out \<Longrightarrow> runs E Q out \<Longrightarrow> runs E (\<lambda>x. P x \<and> Q x) out"
  by (cases out) simp_all

lemma step_givesD:
  "step_gives g logs c0 R f \<Longrightarrow> local_field g \<Longrightarrow> frame_inv logs c0 s \<Longrightarrow>
    runs (excused logs c0) (\<lambda>s'. advances g logs c0 s s' \<and> R s s') (f s)"
  by (simp add: step_gives_def)

lemma untouched_local: "untouched g \<Longrightarrow> local_field g"
  by (auto simp: untouched_def local_field_def)

definition check_result :: "(frame_state \<Rightarrow> u64) \<Rightarrow> (nat \<Rightarrow> hfior_record list) \<Rightarrow> client \<Rightarrow> u64 \<Rightarrow> frame_state \<Rightarrow> frame_state \<Rightarrow> bool" where
  "check_result g logs c0 work s s' \<longleftrightarrow> advances g logs c0 s s' \<and> fs_spent s' = fs_spent s + work \<and>
     length (logs (c_views_used (fs_client s))) \<le> unat (c_local_tail (fs_client s'))"

lemma frame_check_spends:
  assumes ready: "run_ready fuel bound w logs c0" and inv: "frame_inv logs c0 s" and g: "untouched g"
    and work: "work = (if left = 0 then cc_base_work_ns config - fs_spent s else segment)" "work \<le> w"
  shows "runs (excused logs c0) (check_result g logs c0 work s) (frame_check fuel config segment left s)"
proof -
  let ?rest = "steps [read_clock (\<lambda>now s. if left = 0 then s\<lparr>fs_final_check_begin_ns := now\<rparr> else s),
      frame_drain fuel RECEIPT_FRAME_RING False False, read_clock (\<lambda>_ s. s)]"
  have views: "log_views c0 logs bound" using ready by (simp add: run_ready_def)
  have gl: "local_field g" "local_field fs_spent" using untouched_local [OF g] by (simp_all add: local_field_def)
  have rest: "draining h logs c0 ?rest" if "h = g \<or> h = fs_spent" for h
    using that g
    by (intro steps_later_draining [OF views] steps_draining steps_quiet steps_nil [OF views]
        read_clock_quiet [OF ready] frame_drain_draining [OF ready])
      (auto simp: stores_def taken_records_def untouched_def)
  have unfold: "frame_check fuel config segment left s =
      after (frame_busy fuel work s) (\<lambda>s1. ?rest (s1\<lparr>fs_spent := fs_spent s1 + work\<rparr>))"
    by (cases "frame_busy fuel work s") (simp_all add: frame_check_def depending_def Let_def work(1) [symmetric])
  note busy = frame_busy_quiet [OF ready work(2), THEN step_givesD, OF _ inv]
  show ?thesis
    unfolding unfold
  proof (rule runs_after [OF runs_conj [OF busy [OF gl(1)] busy [OF gl(2)]]])
    fix s1 assume s1: "(advances g logs c0 s s1 \<and> True) \<and> advances fs_spent logs c0 s s1 \<and> True"
    let ?s2 = "s1\<lparr>fs_spent := fs_spent s1 + work\<rparr>"
    have s2: "frame_inv logs c0 ?s2" "g ?s2 = g s1" "taken_records ?s2 = taken_records s1"
      using s1 g by (auto simp: advances_def frame_inv_def taken_records_def untouched_def)
    note r = rest [THEN step_givesD, OF _ _ s2(1)]
    have vis: "length (logs (c_views_used (fs_client s))) \<le> length (logs (c_views_used (fs_client s1)))"
      using s1 by (intro visible_mono [OF views inv, where g = g]) simp
    have adv: "advances g logs c0 s ?s2" using s1 s2 by (simp add: advances_def)
    show "runs (excused logs c0) (check_result g logs c0 work s) (?rest ?s2)"
    proof (rule runs_mono [OF runs_conj [OF r [OF _ gl(1)] r [OF _ gl(2)]]])
      fix s3 assume s3: "(advances g logs c0 ?s2 s3 \<and>
          length (logs (c_views_used (fs_client ?s2))) \<le> unat (c_local_tail (fs_client s3))) \<and>
        advances fs_spent logs c0 ?s2 s3 \<and>
        length (logs (c_views_used (fs_client ?s2))) \<le> unat (c_local_tail (fs_client s3))"
      have "advances g logs c0 s s3" using s3 by (intro advances_trans [OF adv]) simp
      moreover have "fs_spent s3 = fs_spent s1 + work" "fs_spent s1 = fs_spent s"
        using s1 s3 by (simp_all add: advances_def)
      moreover have "length (logs (c_views_used (fs_client s))) \<le> unat (c_local_tail (fs_client s3))"
        using vis s3 by simp
      ultimately show "check_result g logs c0 work s s3" by (simp add: check_result_def)
    qed simp_all
  qed
qed

lemma frame_checks_reads:
  assumes ready: "run_ready fuel bound w logs c0" and g: "untouched g" and fits: "work_fits config w"
    and "frame_inv logs c0 s" "unat (fs_spent s) + left * unat segment \<le> unat (cc_base_work_ns config)"
  shows "runs (excused logs c0) (\<lambda>s'. advances g logs c0 s s' \<and> (left \<noteq> 0 \<longrightarrow>
    length (logs (c_views_used (fs_client s))) \<le> unat (c_local_tail (fs_client s'))))
    (frame_checks fuel config segment left s)"
  using assms(4,5)
proof (induction left arbitrary: s)
  case 0
  have "quiet g logs c0 (\<lambda>s. Done s)"
    using store_quiet [OF ready, of g "\<lambda>s. s"] by (simp add: stores_def)
  then show ?case using step_givesD [OF _ untouched_local [OF g] 0(1)] by fastforce
next
  case (Suc left)
  let ?work = "if left = 0 then cc_base_work_ns config - fs_spent s else segment"
  have base: "cc_base_work_ns config \<le> w" by (rule work_le(1) [OF fits])
  have "unat segment \<le> Suc left * unat segment" by simp
  then have seg: "unat segment \<le> unat (cc_base_work_ns config)" "unat (fs_spent s) \<le> unat (cc_base_work_ns config)"
    using Suc.prems(2) by linarith+
  have "?work \<le> w"
  proof (cases "left = 0")
    case True
    then show ?thesis using seg(2) base by (simp add: word_le_nat_alt unat_sub_if')
  qed (use seg(1) base in \<open>simp add: word_le_nat_alt\<close>)
  from frame_check_spends [OF ready Suc.prems(1) g refl this]
  show ?case
    unfolding frame_checks.simps
  proof (rule runs_after)
    fix s1 assume s1: "check_result g logs c0 ?work s s1"
    have inv1: "frame_inv logs c0 s1" using s1 by (simp add: check_result_def advances_def)
    have "unat (fs_spent s1) + left * unat segment \<le> unat (cc_base_work_ns config)"
    proof (cases "left = 0")
      case True
      then show ?thesis using s1 by (simp add: check_result_def)
    next
      case False
      have "unat (fs_spent s) + unat segment \<le> unat (cc_base_work_ns config)"
        using Suc.prems(2) by simp
      then have "unat (fs_spent s + segment) = unat (fs_spent s) + unat segment"
        by (rule unat_sum_within)
      then show ?thesis using False s1 Suc.prems(2) by (simp add: check_result_def)
    qed
    from Suc.IH [OF inv1 this] show "runs (excused logs c0) (\<lambda>s'. advances g logs c0 s s' \<and> (Suc left \<noteq> 0 \<longrightarrow>
        length (logs (c_views_used (fs_client s))) \<le> unat (c_local_tail (fs_client s'))))
        (frame_checks fuel config segment left s1)"
    proof (rule runs_mono)
      fix s' assume "advances g logs c0 s1 s' \<and> (left \<noteq> 0 \<longrightarrow>
        length (logs (c_views_used (fs_client s1))) \<le> unat (c_local_tail (fs_client s')))"
      then show "advances g logs c0 s s' \<and> (Suc left \<noteq> 0 \<longrightarrow>
        length (logs (c_views_used (fs_client s))) \<le> unat (c_local_tail (fs_client s')))"
        using s1 advances_trans cursor_mono order_trans by (fastforce simp: check_result_def)
    qed
  qed
qed


abbreviation frame_start_head :: "frame_state \<Rightarrow> u64" where
  "frame_start_head s \<equiv> fo_head_at_frame_start (fs_result s)"

abbreviation initial_latch_head :: "frame_state \<Rightarrow> u64" where
  "initial_latch_head s \<equiv> fo_head_at_initial_latch (fs_result s)"

lemma frame_late_latching:
  assumes ready: "run_ready fuel bound w logs c0" and fits: "work_fits (c_config c0) w"
  shows "latching frame_start_head logs c0 (frame_late fuel (c_config c0))"
proof -
  have views: "log_views c0 logs bound" using ready by (simp add: run_ready_def)
  have spin: "cc_spin_ns (c_config c0) \<le> w" using fits by (simp add: work_fits_def)
  show ?thesis
    unfolding frame_late_def
    by (rule steps_later_latching [OF views], rule frame_busy_quiet [OF ready work_le(1) [OF fits]],
        rule steps_later_latching [OF views], rule guarded_quiet [OF ready], rule spin_quiet [OF ready spin],
        rule steps_later_latching [OF views], rule named_steps_quiet(1) [OF ready untouched_heads(1)],
        rule steps_drain_take, rule drain_depending [OF ready],
        rule steps_later_taking, rule initial_head_quiet [OF ready],
        rule steps_taking, rule frame_take_taking [OF ready],
        intro steps_quiet steps_nil [OF views] guarded_quiet [OF ready] count_quiet [OF ready] post_use_quiet [OF ready]
          named_steps_quiet [OF ready untouched_heads(1)] frame_busy_quiet [OF ready work_le(2) [OF fits]])
qed

lemma frame_critical_ack_latching:
  assumes ready: "run_ready fuel bound w logs c0" and fits: "work_fits config w"
  shows "latching frame_start_head logs c0 (frame_critical_ack fuel config)"
proof -
  have views: "log_views c0 logs bound" using ready by (simp add: run_ready_def)
  show ?thesis
    unfolding frame_critical_ack_def
    by (rule steps_later_latching [OF views], rule frame_busy_quiet [OF ready work_le(3) [OF fits]],
        rule steps_later_latching [OF views], rule named_steps_quiet(1) [OF ready untouched_heads(1)],
        rule steps_drain_take, rule drain_depending [OF ready],
        rule steps_later_taking, rule initial_head_quiet [OF ready],
        rule steps_taking, rule frame_take_taking [OF ready],
        intro steps_quiet steps_nil [OF views] guarded_quiet [OF ready] count_quiet [OF ready] post_use_quiet [OF ready]
          named_steps_quiet [OF ready untouched_heads(1)] frame_busy_quiet [OF ready work_le(5) [OF fits]])
qed

lemma frame_two_stage_latching:
  assumes ready: "run_ready fuel bound w logs c0" and fits: "work_fits config w"
  shows "latching frame_start_head logs c0 (frame_two_stage fuel config)"
proof -
  have views: "log_views c0 logs bound" using ready by (simp add: run_ready_def)
  show ?thesis
    unfolding frame_two_stage_def Let_def
    by (rule steps_later_latching [OF views], rule frame_busy_quiet [OF ready work_le(4) [OF fits]],
        rule steps_later_latching [OF views], rule named_steps_quiet(1) [OF ready untouched_heads(1)],
        rule steps_drain_take, rule frame_drain_draining [OF ready],
        rule steps_taking, rule frame_take_taking [OF ready],
        intro steps_quiet steps_nil [OF views] guarded_quiet [OF ready] count_quiet [OF ready] post_use_quiet [OF ready]
          named_steps_quiet [OF ready untouched_heads(1)] frame_busy_quiet [OF ready work_le(6) [OF fits]]
          drain_depending [OF ready, THEN step_gives_quiet] frame_take_quiet [OF ready])
qed

text \<open>The part of \<open>frame_multi\<close> behind the first look at the head.\<close>

definition multi_rest :: "nat \<Rightarrow> client_config \<Rightarrow> frame_step list" where
  "multi_rest fuel config =
     [frame_take fuel False, latch_end, guarded took (frame_stats one_action),
      guarded (\<lambda>_. cc_integration_work_ns config \<noteq> 0) (frame_busy fuel (cc_integration_work_ns config)),
      if cc_policy config = Some POLICY_HFIOR_LATE_LATCH then final_latch fuel config
      else guarded (\<lambda>s. ack_during_drain (fs_client s))
             (on_client (\<lambda>c. after (let_ingress fuel c) send_ack_if_needed)),
      final_head, use_time, post_use fuel]"

lemma final_latch_latching:
  assumes ready: "run_ready fuel bound w logs c0" and g: "untouched g"
  shows "latching g logs c0 (final_latch fuel config)"
proof -
  have views: "log_views c0 logs bound" using ready by (simp add: run_ready_def)
  show ?thesis
    unfolding final_latch_def
    by (rule steps_later_latching [OF views], rule named_steps_quiet(8) [OF ready g],
        rule steps_drain_take, rule drain_depending [OF ready],
        rule steps_taking, rule frame_take_taking [OF ready],
        intro steps_quiet steps_nil [OF views] rechecks_quiet [OF ready] guarded_quiet [OF ready] count_quiet [OF ready]
          named_steps_quiet [OF ready g])
qed

lemma multi_rest_taking:
  assumes ready: "run_ready fuel bound w logs c0" and fits: "work_fits config w" and g: "untouched g"
  shows "taking g logs c0 (steps (multi_rest fuel config))"
proof -
  have views: "log_views c0 logs bound" using ready by (simp add: run_ready_def)
  have "quiet g logs c0 (if cc_policy config = Some POLICY_HFIOR_LATE_LATCH then final_latch fuel config
      else guarded (\<lambda>s. ack_during_drain (fs_client s))
             (on_client (\<lambda>c. after (let_ingress fuel c) send_ack_if_needed)))"
    using final_latch_latching [OF ready g, THEN step_gives_quiet] guarded_quiet [OF ready frame_ack_quiet [OF ready]]
    by simp
  then show ?thesis
    unfolding multi_rest_def
    by (intro steps_taking frame_take_taking [OF ready] steps_quiet steps_nil [OF views] guarded_quiet [OF ready]
        count_quiet [OF ready] post_use_quiet [OF ready] named_steps_quiet [OF ready g]
        frame_busy_quiet [OF ready work_le(2) [OF fits]])
qed

lemma multi_rest_latching:
  assumes ready: "run_ready fuel bound w logs c0" and fits: "work_fits config w" and g: "untouched g"
    and "cc_policy config = Some POLICY_HFIOR_LATE_LATCH"
  shows "latching g logs c0 (steps (multi_rest fuel config))"
proof -
  have views: "log_views c0 logs bound" using ready by (simp add: run_ready_def)
  have latch: "latching g logs c0 (if cc_policy config = Some POLICY_HFIOR_LATE_LATCH then final_latch fuel config
      else guarded (\<lambda>s. ack_during_drain (fs_client s))
             (on_client (\<lambda>c. after (let_ingress fuel c) send_ack_if_needed)))"
    using final_latch_latching [OF ready g] assms(4) by simp
  show ?thesis
    unfolding multi_rest_def
    by (rule steps_later_latching [OF views], rule frame_take_quiet [OF ready],
        rule steps_later_latching [OF views], rule named_steps_quiet(2) [OF ready g],
        rule steps_later_latching [OF views], rule guarded_quiet [OF ready], rule count_quiet(1) [OF ready],
        rule steps_later_latching [OF views], rule guarded_quiet [OF ready],
          rule frame_busy_quiet [OF ready work_le(2) [OF fits]],
        rule steps_latching, rule latch,
        intro steps_quiet steps_nil [OF views] post_use_quiet [OF ready] named_steps_quiet [OF ready g])
qed

text \<open>What a policy has taken when it is through.\<close>

definition policy_takes :: "(nat \<Rightarrow> hfior_record list) \<Rightarrow> client \<Rightarrow> frame_state \<Rightarrow> frame_state \<Rightarrow> bool" where
  "policy_takes logs c0 s s' \<longleftrightarrow> advances frame_start_head logs c0 s s' \<and>
     length (q_records (c_pending c0)) +
       (length (logs (c_views_used (fs_client s))) - unat (c_local_tail c0)) \<le> taken_records s' \<and>
     (cc_policy (c_config c0) = Some POLICY_HFIOR_LATE_LATCH \<longrightarrow>
       length (logs (c_views_used (fs_client s))) \<le> unat (initial_latch_head s') \<and>
       length (q_records (c_pending c0)) + (unat (initial_latch_head s') - unat (c_local_tail c0)) \<le> taken_records s')"

lemma steps_cons: "steps (f # fs) = (\<lambda>s. after (f s) (steps fs))"
  by (simp add: fun_eq_iff)

lemma untouched_head_local: "local_field frame_start_head" "local_field initial_latch_head"
  by (simp_all add: local_field_def)

lemma initial_head_step:
  assumes ready: "run_ready fuel bound w logs c0" and inv: "frame_inv logs c0 s"
  shows "\<exists>s'. initial_head s = Done s' \<and> advances frame_start_head logs c0 s s' \<and>
    unat (initial_latch_head s') = length (logs (c_views_used (fs_client s))) \<and>
    c_views_used (fs_client s') = Suc (c_views_used (fs_client s)) \<and> fs_client s' = snd (look (fs_client s))"
proof -
  have "quiet frame_start_head logs c0 initial_head" by (rule initial_head_quiet [OF ready])
  from step_givesD [OF this untouched_head_local(1) inv]
  have adv: "runs (excused logs c0) (\<lambda>s'. advances frame_start_head logs c0 s s') (initial_head s)" by simp
  have "log_views (fs_client s) logs bound"
    by (rule client_inv_ready(1) [OF ready inv [unfolded frame_inv_def, THEN conjunct1]])
  then have "ring_hist (c_views (fs_client s) (c_views_used (fs_client s))) (logs (c_views_used (fs_client s)))"
    by (simp add: log_views_def)
  then show ?thesis using adv by (simp add: initial_head_def observe_head_def look_def ring_hist_def)
qed

lemma frame_multi_takes:
  assumes ready: "run_ready fuel bound w logs c0" and fits: "work_fits (c_config c0) w"
    and inv: "frame_inv logs c0 s" and spent: "fs_spent s = 0"
  shows "runs (excused logs c0) (policy_takes logs c0 s) (frame_multi fuel (c_config c0) s)"
proof -
  let ?config = "c_config c0"
  define checks where "checks = (if cc_checks_per_frame ?config \<noteq> 0 then cc_checks_per_frame ?config else 1)"
  define segment where "segment = cc_base_work_ns ?config div ucast checks"
  let ?q = "length (q_records (c_pending c0))" and ?t = "unat (c_local_tail c0)"
  let ?store = "\<lambda>s. Done (upd_result (\<lambda>r. r\<lparr>fo_legacy_measurement_ns := fs_final_check_begin_ns s,
    fo_latch_begin_ns := fs_final_check_begin_ns s\<rparr>) s)"
  have views: "log_views c0 logs bound" using ready by (simp add: run_ready_def)
  have checks: "unat checks \<noteq> 0" by (simp add: checks_def unat_eq_0)
  have unfold: "frame_multi fuel ?config s = after (frame_checks fuel ?config segment (unat checks) s)
      (\<lambda>s1. after (?store s1) (\<lambda>s2. after (initial_head s2) (steps (multi_rest fuel ?config))))"
  proof -
    have "frame_multi fuel ?config =
        steps (frame_checks fuel ?config segment (unat checks) # ?store # initial_head # multi_rest fuel ?config)"
      by (simp only: frame_multi_def multi_rest_def checks_def segment_def Let_def)
    then show ?thesis by (simp only: steps_cons)
  qed
  have "unat segment * unat (ucast checks :: u64) \<le> unat (cc_base_work_ns ?config)"
    by (simp add: segment_def unat_div)
  then have "unat (fs_spent s) + unat checks * unat segment \<le> unat (cc_base_work_ns ?config)"
    by (simp add: spent mult.commute)
  from frame_checks_reads [OF ready untouched_heads(1) fits inv this] show ?thesis
    unfolding unfold
  proof (rule runs_after)
    fix s1 assume "advances frame_start_head logs c0 s s1 \<and> (unat checks \<noteq> 0 \<longrightarrow>
      length (logs (c_views_used (fs_client s))) \<le> unat (c_local_tail (fs_client s1)))"
    then have s1: "advances frame_start_head logs c0 s s1"
        "length (logs (c_views_used (fs_client s))) \<le> unat (c_local_tail (fs_client s1))"
      using checks by simp_all
    have inv1: "frame_inv logs c0 s1" using s1(1) by (simp add: advances_def)
    obtain s2 where s2: "?store s1 = Done s2" "advances frame_start_head logs c0 s1 s2"
      using step_givesD [OF named_steps_quiet(6) [OF ready untouched_heads(1)] untouched_head_local(1) inv1] by simp
    have inv2: "frame_inv logs c0 s2" using s2(2) by (simp add: advances_def)
    obtain s3 where s3: "initial_head s2 = Done s3" "advances frame_start_head logs c0 s2 s3"
        "unat (initial_latch_head s3) = length (logs (c_views_used (fs_client s2)))"
      using initial_head_step [OF ready inv2] by blast
    have inv3: "frame_inv logs c0 s3" using s3(2) by (simp add: advances_def)
    have adv3: "advances frame_start_head logs c0 s s3"
      by (rule advances_trans [OF s1(1) advances_trans [OF s2(2) s3(2)]])
    have tail3: "length (logs (c_views_used (fs_client s))) \<le> unat (c_local_tail (fs_client s3))"
      using s1(2) cursor_mono [OF advances_trans [OF s2(2) s3(2)]] by simp
    have head3: "length (logs (c_views_used (fs_client s))) \<le> unat (initial_latch_head s3)"
      unfolding s3(3) by (rule visible_mono [OF views inv advances_trans [OF s1(1) s2(2)]])
    have head3': "unat (initial_latch_head s3) \<le> length (logs (c_views_used (fs_client s3)))"
      unfolding s3(3) by (rule visible_mono [OF views inv2 s3(2)])
    let ?R = "\<lambda>s'. initial_latch_head s' = initial_latch_head s3 \<and>
      (cc_policy ?config = Some POLICY_HFIOR_LATE_LATCH \<longrightarrow>
         ?q + (length (logs (c_views_used (fs_client s3))) - ?t) \<le> taken_records s')"
    have late: "runs (excused logs c0) ?R (steps (multi_rest fuel ?config) s3)"
    proof (cases "cc_policy ?config = Some POLICY_HFIOR_LATE_LATCH")
      case True
      show ?thesis
        by (rule runs_mono [OF step_givesD [OF multi_rest_latching [OF ready fits untouched_heads(2) True]
            untouched_head_local(2) inv3]]) (simp add: advances_def)
    next
      case False
      show ?thesis
        by (rule runs_mono [OF step_givesD [OF multi_rest_taking [OF ready fits untouched_heads(2)]
            untouched_head_local(2) inv3]]) (simp add: advances_def False)
    qed
    note rest = step_givesD [OF multi_rest_taking [OF ready fits untouched_heads(1)] untouched_head_local(1) inv3]
    have "runs (excused logs c0) (policy_takes logs c0 s) (steps (multi_rest fuel ?config) s3)"
    proof (rule runs_mono [OF runs_conj [OF rest late]])
      fix s' assume s': "(advances frame_start_head logs c0 s3 s' \<and>
        ?q + (unat (c_local_tail (fs_client s3)) - ?t) \<le> taken_records s') \<and> ?R s'"
      have "?q + (length (logs (c_views_used (fs_client s))) - ?t) \<le> taken_records s'"
        by (rule count_le [OF tail3]) (use s' in simp)
      moreover have "?q + (unat (initial_latch_head s3) - ?t) \<le> taken_records s'"
        if "cc_policy ?config = Some POLICY_HFIOR_LATE_LATCH"
        by (rule count_le [OF head3']) (use s' that in simp)
      ultimately show "policy_takes logs c0 s s'"
        using s' advances_trans [OF adv3] head3 by (simp add: policy_takes_def)
    qed
    then show "runs (excused logs c0) (policy_takes logs c0 s)
        (after (?store s1) (\<lambda>s2. after (initial_head s2) (steps (multi_rest fuel ?config))))"
      unfolding s2(1) after.simps s3(1) .
  qed
qed

lemma frame_policy_takes:
  assumes ready: "run_ready fuel bound w logs c0" and fits: "work_fits (c_config c0) w"
    and inv: "frame_inv logs c0 s" and spent: "fs_spent s = 0" and set: "cc_policy (c_config c0) \<noteq> None"
  shows "runs (excused logs c0) (policy_takes logs c0 s) (frame_policy fuel (c_config c0) s)"
proof -
  obtain policy where p: "cc_policy (c_config c0) = Some policy" using set by blast
  have l: "runs (excused logs c0) (policy_takes logs c0 s) (f s)"
    if "latching frame_start_head logs c0 f" "policy \<noteq> POLICY_HFIOR_LATE_LATCH" for f
    by (rule runs_mono [OF step_givesD [OF that(1) untouched_head_local(1) inv]])
      (use that(2) p in \<open>simp add: policy_takes_def\<close>)
  have "policy \<noteq> POLICY_EAGER_THREAD" using ready p by (simp add: run_ready_def)
  then show ?thesis
    using l [OF frame_late_latching [OF ready fits]] l [OF frame_critical_ack_latching [OF ready fits]]
      l [OF frame_two_stage_latching [OF ready fits]] frame_multi_takes [OF ready fits inv spent]
    by (cases policy) (simp_all add: frame_policy_def p)
qed


section \<open>The whole frame\<close>

lemma default_fields_keeps:
  assumes ready: "run_ready fuel bound w logs c0" and inv: "frame_inv logs c0 s"
  shows "runs (excused logs c0) (\<lambda>s'. advances frame_start_head logs c0 s s' \<and>
    (initial_latch_head s \<noteq> 0 \<longrightarrow> initial_latch_head s' = initial_latch_head s)) (default_fields s)"
proof -
  have views: "log_views c0 logs bound" using ready by (simp add: run_ready_def)
  let ?rest = "steps [\<lambda>s. Done (if fo_head_at_final_latch (fs_result s) = 0
        then upd_result (\<lambda>r. r\<lparr>fo_head_at_final_latch := fo_head_at_initial_latch r\<rparr>) s else s),
      \<lambda>s. Done (if fo_latch_end_ns (fs_result s) = 0
        then upd_result (\<lambda>r. r\<lparr>fo_latch_end_ns := fo_use_time_ns r\<rparr>) s else s),
      guarded (\<lambda>s. fo_use_time_ns (fs_result s) = 0) use_time]"
  have rest: "quiet g logs c0 ?rest" if "untouched g" for g
    using that
    by (intro steps_quiet steps_nil [OF views] store_quiet [OF ready] guarded_quiet [OF ready]
        named_steps_quiet(4) [OF ready that])
      (auto simp: stores_def untouched_def taken_records_def)
  have unfold: "default_fields s = after (guarded (\<lambda>s. initial_latch_head s = 0) initial_head s) ?rest"
    by (simp only: default_fields_def steps_cons)
  show ?thesis
  proof (cases "initial_latch_head s = 0")
    case True
    have "quiet frame_start_head logs c0 (\<lambda>s. after (guarded (\<lambda>s. initial_latch_head s = 0) initial_head s) ?rest)"
      by (rule quiet_after [OF guarded_quiet [OF ready initial_head_quiet [OF ready]] rest [OF untouched_heads(1)]])
    from step_givesD [OF this untouched_head_local(1) inv] show ?thesis unfolding unfold using True by simp
  next
    case False
    then have "default_fields s = ?rest s" by (simp only: unfold guarded_def if_False after.simps)
    then show ?thesis
      using runs_conj [OF step_givesD [OF rest [OF untouched_heads(1)] untouched_head_local(1) inv]
        step_givesD [OF rest [OF untouched_heads(2)] untouched_head_local(2) inv]]
      by (auto intro: runs_mono simp: advances_def)
  qed
qed

lemma finish_frame_facts:
  "beside (fs_client s) (snd (finish_frame a b s))"
  "fo_records (fst (finish_frame a b s)) = of_nat (taken_records s)"
  "fo_newest_timestamp_ns (fst (finish_frame a b s)) = su_newest (fs_summary s)"
  "fo_newest_sequence (fst (finish_frame a b s)) = su_newest_sequence (fs_summary s)"
  "fo_head_at_frame_start (fst (finish_frame a b s)) = frame_start_head s"
  "fo_head_at_initial_latch (fst (finish_frame a b s)) = initial_latch_head s"
  "fo_local_tail_after (fst (finish_frame a b s)) = c_local_tail (fs_client s)"
  by (simp_all add: finish_frame_def conclude_def Let_def look_def beside_def same_world_def accounted_def
      sequence_part_def taken_records_def)

lemma begin_frame_inv:
  assumes ready: "run_ready fuel bound w logs c"
  shows "frame_inv logs c (begin_frame i target start c)" "fs_spent (begin_frame i target start c) = 0"
    "unat (frame_start_head (begin_frame i target start c)) = length (logs (c_views_used c))"
    "c_views_used c \<le> c_views_used (fs_client (begin_frame i target start c))"
proof -
  let ?s = "begin_frame i target start c"
  have s: "fs_client ?s = snd (look c)" "fs_summary ?s = empty_summary" "taken_records ?s = 0"
    by (simp_all add: begin_frame_def Let_def split_def taken_records_def)
  have "moves logs c 0 c (snd (look c))"
    by (rule moves_beside [OF ready client_inv_start [OF ready] look_beside])
  then show "frame_inv logs c ?s" by (simp add: frame_inv_def s moves_def summarize_records_def)
  show "fs_spent ?s = 0" "c_views_used c \<le> c_views_used (fs_client ?s)"
    by (simp_all add: begin_frame_def look_def)
  have "ring_hist (c_views c (c_views_used c)) (logs (c_views_used c))"
    using ready by (simp add: run_ready_def log_views_def)
  then show "unat (frame_start_head ?s) = length (logs (c_views_used c))"
    by (simp add: begin_frame_def look_def ring_hist_def)
qed

text \<open>The result of a frame, in terms of the log.\<close>

definition frame_takes :: "(nat \<Rightarrow> hfior_record list) \<Rightarrow> client \<Rightarrow> frame_observation \<times> client \<Rightarrow> nat \<Rightarrow> bool" where
  "frame_takes logs c0 result k \<longleftrightarrow>
     (let (obs, c) = result; all = offered logs c0 c; summary = summarize_records (take k all) empty_summary in
      client_inv logs c0 k c \<and> fo_records obs = of_nat k \<and>
      fo_newest_timestamp_ns obs = su_newest summary \<and> fo_newest_sequence obs = su_newest_sequence summary \<and>
      fo_local_tail_after obs = c_local_tail c \<and>
      unat (fo_head_at_frame_start obs) = length (logs (c_views_used c0)) \<and>
      length (q_records (c_pending c0)) + (unat (fo_head_at_frame_start obs) - unat (c_local_tail c0)) \<le> k)"

lemma run_frame_policy_takes:
  assumes ready: "run_ready fuel bound w logs c" and fits: "work_fits (c_config c) w"
    and set: "cc_policy (c_config c) \<noteq> None"
  shows "runs (excused logs c) (\<lambda>result. \<exists>k. frame_takes logs c result k \<and>
    (cc_policy (c_config c) = Some POLICY_HFIOR_LATE_LATCH \<and> logs (c_views_used c) \<noteq> [] \<longrightarrow>
      length (q_records (c_pending c)) + (unat (fo_head_at_initial_latch (fst result)) - unat (c_local_tail c)) \<le> k))
    (run_frame_policy fuel i target start c)"
proof -
  let ?s = "begin_frame i target start c"
  note begin_ = begin_frame_inv [OF ready, of i target start]
  let ?a = "cs_ring_checks (c_stats c)" and ?b = "cs_expensive_actions (c_stats c)"
  have views: "log_views c logs bound" using ready by (simp add: run_ready_def)
  have unfold: "run_frame_policy fuel i target start c =
      after (frame_policy fuel (c_config c) ?s) (\<lambda>s1. after (default_fields s1) (\<lambda>s2. Done (finish_frame ?a ?b s2)))"
    by (simp add: run_frame_policy_def Let_def)
  show ?thesis
    unfolding unfold
  proof (rule runs_after [OF frame_policy_takes [OF ready fits begin_(1,2) set]])
    fix s1 assume s1: "policy_takes logs c ?s s1"
    have inv1: "frame_inv logs c s1" using s1 by (simp add: policy_takes_def advances_def)
    show "runs (excused logs c) (\<lambda>result. \<exists>k. frame_takes logs c result k \<and>
        (cc_policy (c_config c) = Some POLICY_HFIOR_LATE_LATCH \<and> logs (c_views_used c) \<noteq> [] \<longrightarrow>
          length (q_records (c_pending c)) + (unat (fo_head_at_initial_latch (fst result)) - unat (c_local_tail c)) \<le> k))
        (after (default_fields s1) (\<lambda>s2. Done (finish_frame ?a ?b s2)))"
    proof (rule runs_after [OF default_fields_keeps [OF ready inv1]])
      fix s2 assume s2: "advances frame_start_head logs c s1 s2 \<and>
        (initial_latch_head s1 \<noteq> 0 \<longrightarrow> initial_latch_head s2 = initial_latch_head s1)"
      let ?k = "taken_records s2" and ?r = "finish_frame ?a ?b s2"
      note f = finish_frame_facts [where s = s2 and a = ?a and b = ?b]
      have inv2: "frame_inv logs c s2" using s2 by (simp add: advances_def)
      then have ci: "client_inv logs c ?k (fs_client s2)" by (simp add: frame_inv_def)
      from moves_beside [OF ready ci f(1)] have fin: "client_inv logs c ?k (snd ?r)"
        by (simp add: moves_def)
      have "log_between logs (fs_client s2) (snd ?r) = []"
        by (rule beside_ahead(2) [OF client_inv_ready(1) [OF ready ci] f(1)])
      moreover have "log_between logs c (snd ?r) =
          log_between logs c (fs_client s2) @ log_between logs (fs_client s2) (snd ?r)"
        using ci moves_beside [OF ready ci f(1)]
        by (intro log_between_append [OF views]) (simp_all add: client_inv_def moves_def)
      ultimately have off: "offered logs c (snd ?r) = offered logs c (fs_client s2)" by (simp add: offered_def)
      have head: "frame_start_head s2 = frame_start_head ?s"
        using s1 s2 by (simp add: policy_takes_def advances_def)
      have vis: "length (logs (c_views_used c)) \<le> length (logs (c_views_used (fs_client ?s)))"
        by (rule prefix_length_le [OF log_views_prefix [OF views order_refl begin_(4)]])
      have k: "length (q_records (c_pending c)) + (length (logs (c_views_used c)) - unat (c_local_tail c)) \<le> ?k"
        by (rule count_le [OF vis]) (use s1 s2 in \<open>simp add: policy_takes_def advances_def\<close>)
      have "c_local_tail (snd ?r) = c_local_tail (fs_client s2)" using f(1) by (simp add: beside_def)
      then have "frame_takes logs c ?r ?k"
        using fin inv2 k f(2-7) head begin_(3) unfolding frame_takes_def split_def Let_def off frame_inv_def by simp
      moreover have "length (q_records (c_pending c)) + (unat (initial_latch_head s2) - unat (c_local_tail c)) \<le> ?k"
        if "cc_policy (c_config c) = Some POLICY_HFIOR_LATE_LATCH" "logs (c_views_used c) \<noteq> []"
      proof -
        have "0 < length (logs (c_views_used c))" using that(2) by simp
        moreover have "length (logs (c_views_used (fs_client ?s))) \<le> unat (initial_latch_head s1)"
          using s1 that(1) by (simp add: policy_takes_def)
        ultimately have "0 < unat (initial_latch_head s1)" using vis by linarith
        then have "initial_latch_head s2 = initial_latch_head s1" using s2 by auto
        then show ?thesis using s1 s2 that(1) by (simp add: policy_takes_def advances_def)
      qed
      ultimately show "runs (excused logs c) (\<lambda>result. \<exists>k. frame_takes logs c result k \<and>
          (cc_policy (c_config c) = Some POLICY_HFIOR_LATE_LATCH \<and> logs (c_views_used c) \<noteq> [] \<longrightarrow>
            length (q_records (c_pending c)) + (unat (fo_head_at_initial_latch (fst result)) - unat (c_local_tail c)) \<le> k))
          (Done ?r)"
        unfolding runs_simps f(6) by blast
    qed
  qed
qed




text \<open>A client beside a ring with one record, its ingress thread let in once at every point, for evaluation.\<close>

definition frame_kernel :: kernel where
  "frame_kernel = quiet_kernel\<lparr>k_clock := (\<lambda>_ n. Some (if n < 1000 then (int n, 0) else (18446744073, 709551615))),
     k_calls := (\<lambda>_. Returned 24), k_polls := (\<lambda>_. Poll_ready [POLLIN]), k_counters := (\<lambda>_. Some 1)\<rparr>"

definition demo_frame_client :: "hfior_policy \<Rightarrow> client" where
  "demo_frame_client policy =
     (let c = demo_client frame_kernel demo_ring1
      in c\<lparr>c_config := (c_config c)\<lparr>cc_policy := Some policy, cc_base_work_ns := 1000,
             cc_integration_work_ns := 500\<rparr>,
           c_ingress_started := True, c_schedule := (\<lambda>_. 1)\<rparr>)"

lemma demo_frame_clock:
  "client_clock (demo_frame_client policy) i = (if i < 1000 then of_nat i * 1000000000 else - 1)"
  by (simp add: client_clock_def demo_frame_client_def demo_client_def frame_kernel_def hfior_now_ns_def Let_def)

lemma demo_clock_passes: "w \<le> 1000000000 \<Longrightarrow> clock_passes 8 w (demo_frame_client policy)"
  unfolding clock_passes_def
proof (intro allI impI)
  fix i :: nat and d :: u64
  assume "w \<le> 1000000000" "d \<le> w"
  then have d: "d \<le> 1000000000" by simp
  have "client_clock (demo_frame_client policy) (Suc i) \<ge> client_clock (demo_frame_client policy) i + d"
  proof (cases "Suc i < 1000")
    case True
    have u: "unat (of_nat j * 1000000000 :: u64) = j * 1000000000" if "j < 1000" for j
    proof -
      have "j * 1000000000 < 2 ^ 64" using that by simp
      then have "unat (of_nat (j * 1000000000) :: u64) = j * 1000000000"
        by (simp only: unsigned_of_nat) (simp add: take_bit_nat_eq_self)
      then show ?thesis by simp
    qed
    have "unat d \<le> 1000000000" using d by (simp add: word_le_nat_alt)
    then have "unat (of_nat i * 1000000000 + d) \<le> i * 1000000000 + 1000000000"
      using u [of i] True unat_word_ariths(1) [of "of_nat i * 1000000000 :: u64" d] by simp
    also have "\<dots> \<le> unat (of_nat (Suc i) * 1000000000 :: u64)" using u [OF True] by simp
    finally have "of_nat i * 1000000000 + d \<le> (of_nat (Suc i) * 1000000000 :: u64)" by (simp only: word_le_nat_alt)
    then show ?thesis using True by (simp only: demo_frame_clock) simp
  next
    case False
    then show ?thesis by (simp add: demo_frame_clock)
  qed
  then show "\<exists>n < 8. client_clock (demo_frame_client policy) (Suc i + n) \<ge> client_clock (demo_frame_client policy) i + d"
    by (intro exI [of _ 0]) simp
qed

lemma demo_frame_ready:
  assumes "policy \<noteq> POLICY_EAGER_THREAD" "w \<le> 1000000000"
  shows "run_ready 8 1 w (\<lambda>_. [demo_record]) (demo_frame_client policy)"
    "1500 \<le> w \<Longrightarrow> work_fits (c_config (demo_frame_client policy)) w"
proof -
  have "log_views (demo_client frame_kernel demo_ring1) (\<lambda>_. [demo_record]) 1"
    using demo_client_views by (simp add: client_views_iff)
  then have "log_views (demo_frame_client policy) (\<lambda>_. [demo_record]) 1"
    by (simp add: demo_frame_client_def Let_def log_views_def)
  then show "run_ready 8 1 w (\<lambda>_. [demo_record]) (demo_frame_client policy)"
    using assms(1) demo_clock_passes [OF assms(2)]
    by (simp add: run_ready_def drain_ready_def demo_frame_client_def demo_client_def queue_ok_def drain_buffer_def Let_def)
  show "work_fits (c_config (demo_frame_client policy)) w" if "1500 \<le> w"
    using that by (simp add: work_fits_def demo_frame_client_def demo_client_def Let_def word_le_nat_alt)
qed



end
