(* ===== verification/Client_Output.thy ===== *)
theory Client_Output
  imports Client_Options
begin

text \<open>
  What the latency client writes: the rows of its four CSV files and the summary. A file is the
  list of its lines, every one of them ended by a newline.
\<close>

section \<open>A frame\<close>

definition frames_header :: string where
  "frames_header = ''frame,target_start_ns,frame_start_ns,start_lateness_ns,legacy_measurement_ns,latch_begin_ns,latch_end_ns,use_time_ns,newest_timestamp_ns,newest_sequence,oldest_timestamp_ns,actual_age_ns,legacy_age_ns,latch_cost_ns,post_latch_to_use_ns,head_at_frame_start,head_at_initial_latch,head_at_final_latch,local_tail_after,records,late_records,checks,expensive_actions,ring_depth_after''"

definition tail_header :: string where
  "tail_header = ''frame,actual_age_ns,classification,start_lateness_ns,latch_cost_ns,post_latch_to_use_ns,head_at_frame_start,head_at_initial_latch,head_at_final_latch,local_tail_after,records''"

definition frame_fields :: "frame_observation \<Rightarrow> u64 list" where
  "frame_fields f =
     [fo_frame_index f, fo_target_start_ns f, fo_frame_start_ns f, fo_start_lateness_ns f,
      fo_legacy_measurement_ns f, fo_latch_begin_ns f, fo_latch_end_ns f, fo_use_time_ns f,
      fo_newest_timestamp_ns f, fo_newest_sequence f, fo_oldest_timestamp_ns f, fo_actual_age_ns f,
      fo_legacy_age_ns f, fo_latch_cost_ns f, fo_post_latch_to_use_ns f, fo_head_at_frame_start f,
      fo_head_at_initial_latch f, fo_head_at_final_latch f, fo_local_tail_after f, fo_records f,
      fo_late_records f, fo_checks f, fo_expensive_actions f, fo_ring_depth_after f]"

definition tail_classification :: "client_config \<Rightarrow> frame_observation \<Rightarrow> string" where
  "tail_classification config f =
     (let half = cc_tail_threshold_ns config div 2
      in if fo_start_lateness_ns f > half then ''consumer-started-late''
         else if fo_latch_cost_ns f > half then ''latch-or-preemption''
         else if fo_post_latch_to_use_ns f > half then ''post-latch-work''
         else if fo_head_at_final_latch f > fo_local_tail_after f then ''arrival-after-latch''
         else ''unknown'')"

definition tail_row :: "client_config \<Rightarrow> frame_observation \<Rightarrow> string" where
  "tail_row config f =
     commas (map unsigned_text [fo_frame_index f, fo_actual_age_ns f] @ [tail_classification config f] @
       map unsigned_text [fo_start_lateness_ns f, fo_latch_cost_ns f, fo_post_latch_to_use_ns f,
         fo_head_at_frame_start f, fo_head_at_initial_latch f, fo_head_at_final_latch f,
         fo_local_tail_after f, fo_records f])"

definition write_frame :: "frame_observation \<Rightarrow> client \<Rightarrow> client" where
  "write_frame f c =
     (let c1 = c\<lparr>c_frames_csv := c_frames_csv c @ [commas (map unsigned_text (frame_fields f))]\<rparr>
      in if fo_actual_age_ns f \<ge> cc_tail_threshold_ns (c_config c) \<and> fo_newest_timestamp_ns f \<noteq> 0
         then c1\<lparr>c_tail_csv := c_tail_csv c1 @ [tail_row (c_config c) f]\<rparr> else c1)"

section \<open>Files\<close>

text \<open>\<open>open_output\<close>: the path, once the file is open.\<close>

definition open_output :: "string \<Rightarrow> string \<Rightarrow> client \<Rightarrow> (string \<times> client) outcome" where
  "open_output directory name c =
     (let path = directory @ ''/'' @ name
      in if length path \<ge> 4096 then Died ''output file path''
         else
           let (answer, c1) = client_asks kernel_call c
           in case answer of
                Returned _ \<Rightarrow> Done (path, c1\<lparr>c_kernel := emit (Opened_output path) (c_kernel c1)\<rparr>)
              | _ \<Rightarrow> Died path)"

text \<open>\<open>fclose\<close>, after these lines were written.\<close>

definition close_output :: "string \<Rightarrow> string list \<Rightarrow> client \<Rightarrow> client" where
  "close_output path contents c = c\<lparr>c_kernel := emit (Wrote_output path contents) (c_kernel c)\<rparr>"

definition output_dir :: "client \<Rightarrow> string" where
  "output_dir c = (case cc_output_dir (c_config c) of Some directory \<Rightarrow> directory | None \<Rightarrow> [])"

fun receipt_reason_name :: "receipt_reason \<Rightarrow> string" where
  "receipt_reason_name RECEIPT_URGENT = ''urgent''"
| "receipt_reason_name RECEIPT_FRAME_RING = ''frame-ring''"
| "receipt_reason_name RECEIPT_FINAL_RING = ''final-ring''"
| "receipt_reason_name RECEIPT_EAGER_THREAD = ''eager-thread''"
| "receipt_reason_name RECEIPT_SHUTDOWN = ''shutdown''"

definition receipt_row :: "receipt_entry \<Rightarrow> string" where
  "receipt_row e =
     (let r = re_record e
      in commas
        [unsigned_text (re_receipt_time_ns e), receipt_reason_name (re_reason e),
         unsigned_text (r_sequence r), unsigned_text (r_timestamp_ns r),
         signed_text (sint (r_dx r)), signed_text (sint (r_dy r)),
         signed_text (sint (r_wheel r)), signed_text (sint (r_hwheel r)),
         decimal (unat (r_buttons r)), decimal (unat (r_flags r))])"

definition dump_receipts :: "client \<Rightarrow> client outcome" where
  "dump_receipts c =
     after (open_output (output_dir c) ''records.csv'' c)
       (\<lambda>(path, c1). Done (close_output path
          (''receipt_time_ns,reason,sequence,timestamp_ns,dx,dy,wheel,hwheel,buttons,flags'' #
           map receipt_row (c_receipts c1)) c1))"

definition dump_frametimes :: "client \<Rightarrow> client outcome" where
  "dump_frametimes c =
     after (open_output (output_dir c) ''frametimes.csv'' c)
       (\<lambda>(path, c1). Done (close_output path
          (''frame,frametime_ns'' #
           map (\<lambda>(i, t). commas [decimal i, unsigned_text t]) (enumerate 0 (c_frame_times c1))) c1))"

section \<open>The summary\<close>

definition fps_from_ns :: "rat \<Rightarrow> rat" where
  "fps_from_ns ns = (if ns > 0 then round_double (1000000000 / ns) else 0)"

text \<open>
  The statistics of a vector of samples. The percentiles and the worst mean leave it sorted, which
  changes none of them, and the mean is taken before.
\<close>

definition samples :: "u64 list \<Rightarrow> hfior_u64_vec" where
  "samples data = \<lparr>v_data = data, v_capacity = length data\<rparr>"

definition percentile_of :: "u64 list \<Rightarrow> rat \<Rightarrow> rat" where
  "percentile_of data p = fst (hfior_percentile_ns (samples data) (round_double p))"

definition worst_of :: "u64 list \<Rightarrow> rat \<Rightarrow> rat" where
  "worst_of data fraction = fst (hfior_worst_fraction_mean_ns (samples data) (round_double fraction))"

lemma sort_eq_empty [simp]: "sort xs = [] \<longleftrightarrow> xs = []"
  by (simp flip: length_0_conv)

lemma sort_sort [simp]: "sort (sort xs) = sort xs"
  by (rule sorted_sort_id) simp

lemma statistics_after_sorting:
  "fst (hfior_percentile_ns (snd (hfior_percentile_ns (samples data) p)) q) = fst (hfior_percentile_ns (samples data) q)"
  "fst (hfior_percentile_ns (snd (hfior_worst_fraction_mean_ns (samples data) p)) q) = fst (hfior_percentile_ns (samples data) q)"
  "fst (hfior_worst_fraction_mean_ns (snd (hfior_percentile_ns (samples data) p)) q) = fst (hfior_worst_fraction_mean_ns (samples data) q)"
  "fst (hfior_worst_fraction_mean_ns (snd (hfior_worst_fraction_mean_ns (samples data) p)) q) =
     fst (hfior_worst_fraction_mean_ns (samples data) q)"
  "hfior_max_ns (snd (hfior_percentile_ns (samples data) p)) = hfior_max_ns (samples data)"
  by (simp_all add: samples_def hfior_percentile_ns_def hfior_worst_fraction_mean_ns_def hfior_max_ns_def Let_def
      max_fold)

definition per_second :: "rat \<Rightarrow> u64 \<Rightarrow> rat" where
  "per_second wall_s n = (if wall_s > 0 then divided (double_of_u64 n) wall_s else 0)"

definition planned_cpu_ns :: "client \<Rightarrow> u64" where
  "planned_cpu_ns c =
     (cc_base_work_ns (c_config c) + cc_integration_work_ns (c_config c)) * cs_frames (c_stats c)"

definition transport_cpu_ns :: "client \<Rightarrow> u64" where
  "transport_cpu_ns c =
     (if cs_consumer_process_cpu_ns (c_stats c) > planned_cpu_ns c
      then cs_consumer_process_cpu_ns (c_stats c) - planned_cpu_ns c else 0)"

definition transport_cpu_percent :: "rat \<Rightarrow> client \<Rightarrow> rat" where
  "transport_cpu_percent wall_s c =
     (if wall_s > 0
      then round_double (divided (double_of_u64 (transport_cpu_ns c)) (round_double (wall_s * 1000000000)) * 100)
      else 0)"

text \<open>A value of the summary: a quoted text (nothing in it is escaped), or a number as it is printed.\<close>

datatype json_value = Json_text string | Json_number string

abbreviation json_count :: "u64 \<Rightarrow> json_value" where "json_count w \<equiv> Json_number (unsigned_text w)"
abbreviation json_fixed :: "nat \<Rightarrow> rat \<Rightarrow> json_value" where "json_fixed n x \<equiv> Json_number (fixed_text n x)"
abbreviation json_u32 :: "u32 \<Rightarrow> json_value" where "json_u32 w \<equiv> Json_number (decimal (unat w))"

definition summary_run_fields :: "string \<Rightarrow> client \<Rightarrow> (string \<times> json_value) list" where
  "summary_run_fields device_name c =
     (let s = c_stats c; config = c_config c; times = c_frame_times c; mean = hfior_mean_ns (samples times)
      in [(''schema'', Json_number ''3''),
          (''evidence_class'', Json_text (if c_features c AND HFIOR_FEAT_SYNTHETIC_SOURCE \<noteq> 0
             then ''synthetic-hfior-transport'' else ''physical-evdev-hfior'')),
          (''policy'', Json_text (policy_name config)),
          (''ack_placement'', Json_text (ack_placement_name (cc_ack_placement config))),
          (''device_name'', Json_text device_name),
          (''producer_pid'', Json_number (signed_text (sint (c_producer_pid c)))),
          (''wall_s'', json_fixed 9 (wall_seconds (cs_started_ns s) (cs_finished_ns s))),
          (''frame_hz_target'', json_u32 (cc_frame_hz config)),
          (''checks_per_frame'', json_u32 (cc_checks_per_frame config)),
          (''final_rechecks'', json_u32 (cc_final_rechecks config)),
          (''base_work_ns_per_frame'', json_count (cc_base_work_ns config)),
          (''integration_work_ns_per_frame'', json_count (cc_integration_work_ns config)),
          (''callback_work_ns_per_record'', json_count (cc_callback_work_ns config)),
          (''spin_ns'', json_count (cc_spin_ns config)),
          (''input_phase'', json_fixed 6 (cc_input_phase config)),
          (''frames'', json_count (cs_frames s)),
          (''overruns'', json_count (cs_overruns s)),
          (''average_fps'', json_fixed 6 (fps_from_ns mean)),
          (''one_percent_low_fps'', json_fixed 6 (fps_from_ns (worst_of times (1 / 100)))),
          (''zero_point_one_percent_low_fps'', json_fixed 6 (fps_from_ns (worst_of times (1 / 1000)))),
          (''frametime_mean_ns'', json_fixed 3 mean),
          (''frametime_p50_ns'', json_fixed 3 (percentile_of times 50)),
          (''frametime_p95_ns'', json_fixed 3 (percentile_of times 95)),
          (''frametime_p99_ns'', json_fixed 3 (percentile_of times 99)),
          (''frametime_p99_9_ns'', json_fixed 3 (percentile_of times (999 / 10))),
          (''frametime_max_ns'', json_count (hfior_max_ns (samples times)))])"

definition summary_latency_fields :: "client \<Rightarrow> (string \<times> json_value) list" where
  "summary_latency_fields c =
     (let ages = c_sample_ages c
      in [(''newest_sample_age_p50_ns'', json_fixed 3 (percentile_of ages 50)),
          (''newest_sample_age_p90_ns'', json_fixed 3 (percentile_of ages 90)),
          (''newest_sample_age_p95_ns'', json_fixed 3 (percentile_of ages 95)),
          (''newest_sample_age_p99_ns'', json_fixed 3 (percentile_of ages 99)),
          (''newest_sample_age_p99_9_ns'', json_fixed 3 (percentile_of ages (999 / 10))),
          (''newest_sample_age_max_ns'', json_count (hfior_max_ns (samples ages))),
          (''legacy_pre_latch_age_p50_ns'', json_fixed 3 (percentile_of (c_legacy_ages c) 50)),
          (''legacy_pre_latch_age_p99_ns'', json_fixed 3 (percentile_of (c_legacy_ages c) 99)),
          (''latch_cost_p50_ns'', json_fixed 3 (percentile_of (c_latch_costs c) 50)),
          (''latch_cost_p99_ns'', json_fixed 3 (percentile_of (c_latch_costs c) 99)),
          (''frame_start_lateness_p50_ns'', json_fixed 3 (percentile_of (c_start_lateness c) 50)),
          (''frame_start_lateness_p99_ns'', json_fixed 3 (percentile_of (c_start_lateness c) 99)),
          (''eager_ingress_age_p50_ns'', json_fixed 3 (percentile_of (c_eager_ingress_ages c) 50)),
          (''eager_ingress_age_p99_ns'', json_fixed 3 (percentile_of (c_eager_ingress_ages c) 99)),
          (''button_age_p50_ns'', json_fixed 3 (percentile_of (c_button_ages c) 50)),
          (''button_age_p99_ns'', json_fixed 3 (percentile_of (c_button_ages c) 99))])"

definition summary_count_fields :: "u64 \<Rightarrow> u64 \<Rightarrow> client \<Rightarrow> (string \<times> json_value) list" where
  "summary_count_fields producer_drops eager_drops c =
     (let s = c_stats c; wall_s = wall_seconds (cs_started_ns s) (cs_finished_ns s)
      in [(''input_consumptions'', json_count (cs_input_consumptions s)),
          (''expensive_actions'', json_count (cs_expensive_actions s)),
          (''expensive_actions_per_s'', json_fixed 6 (per_second wall_s (cs_expensive_actions s))),
          (''late_latch_actions'', json_count (cs_late_latch_actions s)),
          (''late_latch_records'', json_count (cs_late_latch_records s)),
          (''frames_with_late_latch'', json_count (cs_frames_with_late_latch s)),
          (''ring_checks'', json_count (cs_ring_checks s)),
          (''nonempty_ring_checks'', json_count (cs_nonempty_ring_checks s)),
          (''ring_records'', json_count (cs_ring_records s)),
          (''shadow_ring_records'', json_count (cs_shadow_ring_records s)),
          (''eager_messages'', json_count (cs_eager_messages s)),
          (''eager_records'', json_count (cs_eager_records s)),
          (''acknowledgements_sent'', json_count (cs_acknowledgements_sent s)),
          (''urgent_reads'', json_count (cs_urgent_reads s)),
          (''sequence_gaps'', json_count (cs_sequence_gaps s)),
          (''duplicate_or_reordered'', json_count (cs_duplicate_or_reordered s)),
          (''first_sequence'', json_count (cs_first_sequence s)),
          (''last_sequence'', json_count (cs_last_sequence s)),
          (''producer_ring_drops'', json_count producer_drops),
          (''producer_eager_drops'', json_count eager_drops),
          (''planned_work_cpu_ns'', json_count (planned_cpu_ns c)),
          (''estimated_transport_cpu_ns'', json_count (transport_cpu_ns c)),
          (''estimated_transport_cpu_percent'', json_fixed 6 (transport_cpu_percent wall_s c)),
          (''consumer_process_cpu_ns'', json_count (cs_consumer_process_cpu_ns s)),
          (''ingress_thread_cpu_ns'', json_count (cs_ingress_thread_cpu_ns s)),
          (''voluntary_context_switches'', json_count (cs_voluntary_context_switches s)),
          (''involuntary_context_switches'', json_count (cs_involuntary_context_switches s)),
          (''context_switches_per_s'', json_fixed 6 (per_second wall_s
             (cs_voluntary_context_switches s + cs_involuntary_context_switches s))),
          (''generation_changes'', json_count (cs_generation_changes s)),
          (''stall_count'', json_count (cs_stall_count s)),
          (''spin_iterations'', json_count (cs_spin_iterations s))])"

definition quoted :: "string \<Rightarrow> string" where "quoted s = CHR 0x22 # s @ [CHR 0x22]"

fun json_text :: "json_value \<Rightarrow> string" where
  "json_text (Json_text s) = quoted s"
| "json_text (Json_number s) = s"

text \<open>The lines of a JSON object: every one but the last ends in a comma.\<close>

definition json_line :: "string \<times> json_value \<Rightarrow> string" where
  "json_line field = ''  '' @ quoted (fst field) @ '': '' @ json_text (snd field)"

definition json_object :: "(string \<times> json_value) list \<Rightarrow> string list" where
  "json_object entries =
     [''{''] @ map (\<lambda>f. json_line f @ '','') (butlast entries) @ [json_line (last entries)] @ [''}'']"

text \<open>\<open>usage\<close> are the voluntary and involuntary context switches \<open>getrusage\<close> reports.\<close>

definition write_summary :: "int \<times> int \<Rightarrow> client \<Rightarrow> client outcome" where
  "write_summary usage c =
     (let c1 = upd_cstats (\<lambda>s. s\<lparr>cs_voluntary_context_switches := word_of_int (fst usage),
                 cs_involuntary_context_switches := word_of_int (snd usage)\<rparr>) c;
          (drops_view, c2) = look c1;
          (eager_view, c3) = look c2
      in after (open_output (output_dir c3) ''summary.json'' c3)
           (\<lambda>(path, c4).
              let (name_view, c5) = look c4;
                  entries = summary_run_fields (md_device_name (metadata name_view)) c5 @
                    summary_latency_fields c5 @
                    summary_count_fields (pl_dropped_newest (producer drops_view))
                      (pl_eager_send_drops (producer eager_view)) c5
              in Done (close_output path (json_object entries) c5)))"

end
