(* ===== verification/Client_Main.thy ===== *)
theory Client_Main
  imports Client_Frame Client_Output
begin

text \<open>
  \<open>main\<close> of the latency client: its setup, the loop over the frames, the shutdown, and what it
  writes and closes at the end. What the process finds around it is a \<open>surroundings\<close>.
\<close>

section \<open>Setup\<close>

text \<open>
  The environment: \<open>XDG_RUNTIME_DIR\<close>, the user, whether making the fallback directory fails, the
  credentials of the peer of the socket, the context switches \<open>getrusage\<close> reports, and whether a
  stop signal has arrived by the \<open>n\<close>-th test of the frame loop.
\<close>

record surroundings =
  sr_runtime_dir :: "string option"
  sr_uid :: u32
  sr_mkdir :: "errno option"
  sr_peer :: "errno + ucred"
  sr_usage :: "int \<times> int"
  sr_signalled :: "nat \<Rightarrow> bool"

definition HFIOR_MAX_SOCKET_PATH :: nat where "HFIOR_MAX_SOCKET_PATH = 107"

text \<open>The error of one attempt of a call; an interruption is \<open>EINTR\<close>, which none of these callers expects.\<close>

definition call_failed :: "syscall \<Rightarrow> bool" where
  "call_failed answer \<longleftrightarrow> (case answer of Returned n \<Rightarrow> n < 0 | _ \<Rightarrow> True)"

text \<open>A call whose failure ends the process; \<open>effects\<close> is what it did to the outside.\<close>

definition must :: "string \<Rightarrow> effect list \<Rightarrow> client \<Rightarrow> client outcome" where
  "must what effects c =
     (let (answer, c1) = client_asks kernel_call c
      in if call_failed answer then Died what else Done (c1\<lparr>c_kernel := fold emit effects (c_kernel c1)\<rparr>))"

text \<open>
  \<open>mkdir_p\<close>: the directories above every slash but a leading one, then the path itself. (The loop
  starts at the second character: on an empty path it would read past the terminating zero.)
\<close>

definition mkdir_paths :: "string \<Rightarrow> string list" where
  "mkdir_paths path = map (\<lambda>i. take i path) (filter (\<lambda>i. path ! i = CHR ''/'') [1..<length path]) @ [path]"

fun make_directories :: "string list \<Rightarrow> client \<Rightarrow> client outcome" where
  "make_directories [] c = Done c"
| "make_directories (p # ps) c =
     (let (answer, c1) = client_asks kernel_call c
      in if answer = Failed EEXIST then make_directories ps c1
         else if call_failed answer then Died ''mkdir''
         else make_directories ps (c1\<lparr>c_kernel := emit (Made_directory p) (c_kernel c1)\<rparr>))"

definition mkdir_p :: "string \<Rightarrow> client \<Rightarrow> client outcome" where
  "mkdir_p path c =
     (if length path \<ge> 4096 then Died ''output path'' else make_directories (mkdir_paths path) c)"

definition queue_init :: "client \<Rightarrow> client outcome" where
  "queue_init c =
     (let c1 = c\<lparr>c_pending := \<lparr>q_records = [], q_capacity = 0\<rparr>\<rparr> in must ''queue mutex'' [] c1)"

text \<open>\<open>nanosleep\<close>, its result ignored.\<close>

definition nanosleep :: "nat \<Rightarrow> nat \<Rightarrow> client \<Rightarrow> client" where
  "nanosleep sec nsec c =
     (let (_, c1) = client_asks kernel_call c in c1\<lparr>c_kernel := emit (Paused sec nsec) (c_kernel c1)\<rparr>)"

text \<open>The attempts to connect: the descriptor, or \<open>None\<close> with the socket closed.\<close>

fun connect_attempts :: "nat \<Rightarrow> int \<Rightarrow> string \<Rightarrow> client \<Rightarrow> int option \<times> client" where
  "connect_attempts 0 fd path c = (None, c\<lparr>c_kernel := emit (Closed fd) (c_kernel c)\<rparr>)"
| "connect_attempts (Suc attempts) fd path c =
     (let (answer, c1) = client_asks kernel_call c
      in if answer = Returned 0
         then (Some fd, c1\<lparr>c_kernel := emit (Connected fd path) (c_kernel c1)\<rparr>)
         else if answer \<noteq> Failed ENOENT \<and> answer \<noteq> Failed ECONNREFUSED
         then (None, c1\<lparr>c_kernel := emit (Closed fd) (c_kernel c1)\<rparr>)
         else connect_attempts attempts fd path (nanosleep 0 2000000 c1))"

definition connect_socket :: "string \<Rightarrow> client \<Rightarrow> int option \<times> client" where
  "connect_socket path c =
     (let (answer, c1) = client_asks kernel_call c
      in case answer of
           Returned fd \<Rightarrow>
             if fd < 0 then (None, c1)
             else if length path \<ge> 108 then (None, c1\<lparr>c_kernel := emit (Closed fd) (c_kernel c1)\<rparr>)
             else connect_attempts 500 fd path c1
         | _ \<Rightarrow> (None, c1))"

text \<open>The check that the bridge runs as the same user, unless the client is root.\<close>

definition verify_bridge :: "surroundings \<Rightarrow> client \<Rightarrow> client outcome" where
  "verify_bridge around c =
     (case sr_peer around of
        Inl _ \<Rightarrow> Died ''SO_PEERCRED''
      | Inr peer \<Rightarrow>
          if uc_uid peer \<noteq> sr_uid around \<and> sr_uid around \<noteq> 0 then Died ''bridge UID mismatch'' else Done c)"

definition open_logs :: "client \<Rightarrow> client outcome" where
  "open_logs c =
     after (open_output (output_dir c) ''frames.csv'' c)
       (\<lambda>(_, c1). after (open_output (output_dir c1) ''tail-events.csv'' c1)
          (\<lambda>(_, c2). Done (c2\<lparr>c_frames_csv := [frames_header], c_tail_csv := [tail_header]\<rparr>)))"

text \<open>Everything before the clock is read: up to the started ingress thread.\<close>

definition client_setup :: "nat \<Rightarrow> surroundings \<Rightarrow> client \<Rightarrow> client outcome" where
  "client_setup fuel around c0 =
     after (mkdir_p (output_dir c0) c0) (\<lambda>c1.
     after (queue_init c1) (\<lambda>c2.
     after (must ''ring mutex'' [] c2) (\<lambda>c3.
     after (open_logs c3) (\<lambda>c4.
     (let (fd, c5) = connect_socket (cc_socket_path (c_config c4)) c4
      in case fd of
           None \<Rightarrow> Died ''connect HFIOR bridge''
         | Some socket_fd \<Rightarrow>
             after (verify_bridge around (c5\<lparr>c_socket_fd := socket_fd\<rparr>)) (\<lambda>c6.
             let (mapping, c7) = client_asks kernel_call c6
             in after (receive_hello (\<not> call_failed mapping) c7) (\<lambda>c8.
                after (send_mode c8) (\<lambda>c9.
                after (synchronize_start fuel c9) (\<lambda>c10.
                after (pin_current_thread (cc_consumer_cpu (c_config c10)) c10)
                  start_ingress_thread)))))))))"

section \<open>The frame loop\<close>

text \<open>Where the loop is: its locals \<open>target_start_ns\<close> and \<open>stalled\<close>.\<close>

record frame_loop_state =
  fl_client :: client
  fl_target_start_ns :: u64
  fl_stalled :: bool

definition sleep_until :: "u64 \<Rightarrow> client \<Rightarrow> client" where
  "sleep_until deadline_ns c = snd (client_asks (hfior_sleep_until_ns deadline_ns) c)"

definition maybe_stall :: "u64 \<Rightarrow> bool \<Rightarrow> client \<Rightarrow> bool \<times> client" where
  "maybe_stall frame_start_ns stalled c =
     (let config = c_config c
      in if \<not> stalled \<and> cc_stall_ms config \<noteq> 0 \<and>
            frame_start_ns - cs_started_ns (c_stats c) \<ge> ucast (cc_stall_after_ms config) * 1000000
         then (True, upd_cstats (\<lambda>s. s\<lparr>cs_stall_count := cs_stall_count s + 1\<rparr>)
                 (nanosleep (unat (cc_stall_ms config div 1000)) (unat (cc_stall_ms config mod 1000) * 1000000) c))
         else (stalled, c))"

text \<open>The pacing after a frame: the next target, and the sleep or the overrun.\<close>

definition pace :: "u64 \<Rightarrow> u64 \<Rightarrow> client \<Rightarrow> u64 \<times> client" where
  "pace frame_period_ns target_start_ns c =
     (if cc_uncapped (c_config c) then (target_start_ns, c)
      else
        let target_end_ns = target_start_ns + frame_period_ns;
            (before_sleep, c1) = client_now c
        in (target_end_ns,
            if before_sleep < target_end_ns then sleep_until target_end_ns c1
            else upd_cstats (\<lambda>s. s\<lparr>cs_overruns := cs_overruns s + 1\<rparr>) c1))"

definition post_frame :: "nat \<Rightarrow> client \<Rightarrow> client outcome" where
  "post_frame fuel c =
     (if cc_ack_placement (c_config c) = ACK_POST_FRAME
      then after (let_ingress fuel c) maybe_ack_post_frame else maybe_ack_post_frame c)"

text \<open>One frame, from the reading of the clock at its top: \<open>now\<close> is before the end of the run.\<close>

definition frame_pass :: "nat \<Rightarrow> u64 \<Rightarrow> u64 \<Rightarrow> frame_loop_state \<Rightarrow> frame_loop_state outcome" where
  "frame_pass fuel frame_period_ns now l =
     (let c0 = fl_client l; target = fl_target_start_ns l;
          c1 = (if \<not> cc_uncapped (c_config c0) \<and> now < target then sleep_until target c0 else c0);
          (frame_start_ns, c2) = client_now c1;
          (stalled, c3) = maybe_stall frame_start_ns (fl_stalled l) c2
      in after (run_frame_policy fuel (cs_frames (c_stats c3)) target frame_start_ns c3)
           (\<lambda>(observation, c4). after (post_frame fuel c4)
              (\<lambda>c5. let (target1, c6) = pace frame_period_ns target c5;
                        (frame_end_ns, c7) = client_now c6;
                        c8 = write_frame observation
                          (c7\<lparr>c_frame_times := c_frame_times c7 @ [frame_end_ns - frame_start_ns]\<rparr>)
                    in Done \<lparr>fl_client = upd_cstats (\<lambda>s. s\<lparr>cs_frames := cs_frames s + 1\<rparr>) c8,
                             fl_target_start_ns = target1, fl_stalled = stalled\<rparr>)))"

fun frame_loop :: "nat \<Rightarrow> nat \<Rightarrow> (nat \<Rightarrow> bool) \<Rightarrow> u64 \<Rightarrow> u64 \<Rightarrow> nat \<Rightarrow> frame_loop_state \<Rightarrow> client outcome" where
  "frame_loop fuel 0 signalled finish_ns frame_period_ns pass l = Unfinished"
| "frame_loop fuel (Suc passes) signalled finish_ns frame_period_ns pass l =
     (if signalled pass \<or> c_terminal_seen (fl_client l) then Done (fl_client l)
      else
        let (now, c1) = client_now (fl_client l)
        in if now \<ge> finish_ns then Done c1
           else after (frame_pass fuel frame_period_ns now (l\<lparr>fl_client := c1\<rparr>))
                  (frame_loop fuel passes signalled finish_ns frame_period_ns (Suc pass)))"

section \<open>Shutdown\<close>

text \<open>\<open>send_stop\<close>: what the kernel does not take is dropped.\<close>

definition send_stop :: "client \<Rightarrow> client" where
  "send_stop c =
     (let message = encode_message_header \<lparr>mh_type = HFIOR_MSG_STOP, mh_size = of_nat sizeof_message_header\<rparr>;
          (answer, c1) = client_asks kernel_call c
      in case answer of
           Returned n \<Rightarrow> if n < 0 then c1
             else c1\<lparr>c_kernel := emit (Sent (c_socket_fd c1) MSG_NOSIGNAL (take (nat n) message) []) (c_kernel c1)\<rparr>
         | _ \<Rightarrow> c1)"

text \<open>A drain after the frames; the ingress thread is let in where it may still run.\<close>

definition shutdown_drain :: "nat \<Rightarrow> client \<Rightarrow> client outcome" where
  "shutdown_drain fuel c =
     (if cc_policy (c_config c) = Some POLICY_EAGER_THREAD
      then after (drain_control_socket_nonblocking fuel True 0 c)
             (\<lambda>(_, c1). after (drain_ring fuel RECEIPT_SHUTDOWN True True c1) (\<lambda>(_, c2). Done c2))
      else after (drain_ring fuel RECEIPT_SHUTDOWN False True c) (\<lambda>(_, c1). Done c1))"

fun shutdown_loop :: "nat \<Rightarrow> nat \<Rightarrow> u64 \<Rightarrow> client \<Rightarrow> client outcome" where
  "shutdown_loop fuel 0 shutdown_deadline c = Unfinished"
| "shutdown_loop fuel (Suc passes) shutdown_deadline c =
     (if c_terminal_seen c then Done c
      else
        let (now, c1) = client_now c
        in if \<not> now < shutdown_deadline then Done c1
           else after (let_ingress fuel c1) (\<lambda>c2. after (shutdown_drain fuel c2)
                  (\<lambda>c3. shutdown_loop fuel passes shutdown_deadline (nanosleep 0 1000000 c3))))"

text \<open>The ingress thread is told to stop and woken up.\<close>

definition stop_ingress :: "client \<Rightarrow> client" where
  "stop_ingress c0 =
     (let c1 = c0\<lparr>c_stop := True\<rparr>;
          c2 = (if c_urgent_fd c1 \<ge> 0
                then let (answer, c) = client_asks kernel_call c1
                     in if answer = Returned 8 then c\<lparr>c_kernel := emit (Signalled (c_urgent_fd c) 1) (c_kernel c)\<rparr> else c
                else c1)
      in if cc_policy (c_config c2) = Some POLICY_EAGER_THREAD
         then let (_, c) = client_asks kernel_call c2
              in c\<lparr>c_kernel := emit (Shut_down_reading (c_socket_fd c)) (c_kernel c)\<rparr>
         else c2)"

definition client_shutdown :: "nat \<Rightarrow> nat \<Rightarrow> client \<Rightarrow> client outcome" where
  "client_shutdown fuel passes c0 =
     (let (now, c1) = client_now (send_stop c0)
      in after (shutdown_loop fuel passes (now + 100000000) c1)
           (\<lambda>c2. after (join_ingress_thread fuel (stop_ingress c2)) (shutdown_drain fuel)))"

text \<open>
  The measured part of the run. \<open>(uint64_t)(duration_s * 1e9)\<close> is defined for durations below
  \<open>2^64\<close> nanoseconds.
\<close>

definition duration_ns :: "client_config \<Rightarrow> u64" where
  "duration_ns config = u64_of_double (round_double (cc_duration_s config * 1000000000))"

definition measured_run :: "nat \<Rightarrow> nat \<Rightarrow> surroundings \<Rightarrow> client \<Rightarrow> client outcome" where
  "measured_run fuel passes around c0 =
     (let (process_cpu_start, c1) = client_asks (hfior_now_ns CLOCK_PROCESS_CPUTIME_ID) c0;
          (started_ns, c2) = client_now c1;
          c3 = upd_cstats (\<lambda>s. s\<lparr>cs_started_ns := started_ns\<rparr>) c2;
          frame_period_ns = 1000000000 div ucast (cc_frame_hz (c_config c3))
      in after (frame_loop fuel passes (sr_signalled around) (started_ns + duration_ns (c_config c3)) frame_period_ns 0
                  \<lparr>fl_client = c3, fl_target_start_ns = started_ns, fl_stalled = False\<rparr>)
           (\<lambda>c4. after (client_shutdown fuel passes c4)
              (\<lambda>c5. let (finished_ns, c6) = client_now c5;
                        (cpu, c7) = client_asks (hfior_now_ns CLOCK_PROCESS_CPUTIME_ID) c6
                    in Done (upd_cstats (\<lambda>s. s\<lparr>cs_finished_ns := finished_ns,
                         cs_consumer_process_cpu_ns := cpu - process_cpu_start\<rparr>) c7))))"

section \<open>The whole process\<close>

text \<open>The files, and the line on the standard error.\<close>

definition write_outputs :: "surroundings \<Rightarrow> client \<Rightarrow> client outcome" where
  "write_outputs around c0 =
     (let c1 = close_output (output_dir c0 @ ''/frames.csv'') (c_frames_csv c0) c0;
          c2 = close_output (output_dir c1 @ ''/tail-events.csv'') (c_tail_csv c1) c1
      in after (dump_receipts c2) (\<lambda>c3.
         after (dump_frametimes c3) (\<lambda>c4.
         after (write_summary (sr_usage around) c4) (\<lambda>c5.
           Done (if cc_quiet (c_config c5) then c5
                 else
                   let (ring, c6) = look c5; s = c_stats c6
                   in c6\<lparr>c_kernel := emit (Warned (''policy='' @ policy_name (c_config c6) @
                        '' frames='' @ unsigned_text (cs_frames s) @ '' records='' @ unsigned_text (cs_ring_records s) @
                        '' eager='' @ unsigned_text (cs_eager_records s) @
                        '' actions='' @ unsigned_text (cs_expensive_actions s) @
                        '' gaps='' @ unsigned_text (cs_sequence_gaps s) @
                        '' drops='' @ unsigned_text (pl_dropped_newest (producer ring)))) (c_kernel c6)\<rparr>)))))"

text \<open>Unmapping and closing; the memory of the queue and the vectors is freed.\<close>

definition close_all :: "client \<Rightarrow> client" where
  "close_all c =
     c\<lparr>c_kernel := fold emit
         ([Unmapped (c_mapping_size c)] @ map Closed (filter (\<lambda>fd. fd \<ge> 0) [c_memfd c, c_urgent_fd c, c_socket_fd c]))
         (c_kernel c),
       c_pending := \<lparr>q_records = [], q_capacity = 0\<rparr>,
       c_frame_times := [], c_sample_ages := [], c_legacy_ages := [], c_latch_costs := [],
       c_start_lateness := [], c_button_ages := [], c_eager_ingress_ages := [], c_receipts := []\<rparr>"

definition run_client :: "nat \<Rightarrow> nat \<Rightarrow> surroundings \<Rightarrow> client \<Rightarrow> client outcome" where
  "run_client fuel passes around c0 =
     after (client_setup fuel around c0) (\<lambda>c1.
     after (measured_run fuel passes around c1) (\<lambda>c2.
     after (write_outputs around c2) (\<lambda>c3. Done (close_all c3))))"

text \<open>\<open>main\<close>: the exit status of an early end, or the process after its last call. \<open>c0\<close> is the zeroed client.\<close>

definition client_main :: "nat \<Rightarrow> nat \<Rightarrow> surroundings \<Rightarrow> string list \<Rightarrow> client \<Rightarrow> (nat + client) outcome" where
  "client_main fuel passes around args c0 =
     (case hfior_make_runtime_socket_path (sr_runtime_dir around) (sr_uid around) (sr_mkdir around)
             (HFIOR_MAX_SOCKET_PATH + 1) ''hfior.sock'' of
        Inl _ \<Rightarrow> Died ''runtime socket path''
      | Inr default_socket \<Rightarrow>
          (case client_command_line default_socket args of
             Inl status \<Rightarrow> Done (Inl status)
           | Inr config \<Rightarrow>
               after (run_client fuel passes around
                  (c0\<lparr>c_config := config, c_socket_fd := - 1, c_memfd := - 1, c_urgent_fd := - 1\<rparr>))
                 (\<lambda>c. Done (Inr c))))"

end
