(* ===== verification/Client_Run.thy ===== *)
theory Client_Run
  imports Client_Policies Client_Main
begin

text \<open>
  The measured part of a run of the latency client, under an HFIOR policy: the frames consume
  consecutive parts of the log, the rows of \<open>frames.csv\<close> show them, and the shutdown reads what is
  left.
\<close>

section \<open>The invariant of a run\<close>

text \<open>The client a run began with, but with the rows, the frame count and the stop flag of \<open>c\<close>.\<close>

definition rebased :: "client \<Rightarrow> client \<Rightarrow> client" where
  "rebased c c0 = c0\<lparr>c_frames_csv := c_frames_csv c, c_tail_csv := c_tail_csv c,
     c_frame_times := c_frame_times c, c_stop := c_stop c,
     c_stats := (c_stats c0)\<lparr>cs_frames := cs_frames (c_stats c)\<rparr>\<rparr>"

lemma rebased_simps [simp]:
  "log_views (rebased c c0) logs bound = log_views c0 logs bound"
  "run_ready fuel bound w logs (rebased c c0) = run_ready fuel bound w logs c0"
  "excused logs (rebased c c0) = excused logs c0"
  "log_between logs (rebased c c0) c' = log_between logs c0 c'"
  "offered logs (rebased c c0) c' = offered logs c0 c'"
  "accounted rs (rebased c c0) c' = accounted rs c0 c'"
  "c_config (rebased c c0) = c_config c0"
  "overrun (rebased c c0) logs = overrun c0 logs"
  by (simp_all add: rebased_def log_views_def run_ready_def drain_ready_def clock_passes_def client_clock_def
      excused_def [abs_def] overrun_def log_between_def offered_def accounted_def sequence_part_def)

lemma rebased_same: "same_world c c' \<Longrightarrow> rebased c' c0 = rebased c c0"
  by (simp add: rebased_def same_world_def)

definition run_inv :: "(nat \<Rightarrow> hfior_record list) \<Rightarrow> client \<Rightarrow> nat \<Rightarrow> client \<Rightarrow> bool" where
  "run_inv logs c0 k c \<longleftrightarrow> client_inv logs (rebased c c0) k c"

lemma run_inv_start: "run_ready fuel bound w logs c0 \<Longrightarrow> run_inv logs c0 0 c0"
  using client_inv_start [of fuel bound w logs "rebased c0 c0"] by (simp add: run_inv_def rebased_def)

lemma run_inv_facts:
  assumes "run_inv logs c0 k c"
  shows "accounted (log_between logs c0 c) c0 c" "k \<le> length (offered logs c0 c)"
    "q_records (c_pending c) = drop k (offered logs c0 c)" "c_config c = c_config c0" "client_clock c = client_clock c0"
proof -
  have "same_world (rebased c c0) c" using assms by (simp add: run_inv_def client_inv_def ahead_def)
  then show "c_config c = c_config c0" "client_clock c = client_clock c0"
    by (simp_all add: same_world_def rebased_def client_clock_def hfior_now_ns_def fun_eq_iff)
qed (use assms in \<open>simp_all add: run_inv_def client_inv_def\<close>)

lemma run_ready_later:
  assumes "run_ready fuel bound w logs c0" "run_inv logs c0 k c"
  shows "run_ready fuel bound w logs c"
proof -
  have "run_ready fuel bound w logs (rebased c c0)" using assms(1) by simp
  note inv = client_inv_ready [OF this assms(2) [unfolded run_inv_def]]
    clock_passes_later [OF this assms(2) [unfolded run_inv_def]]
  then show ?thesis using assms(1) run_inv_facts(4) [OF assms(2)] by (simp add: run_ready_def)
qed

lemma run_excused:
  assumes "run_inv logs c0 k c" "excused logs c what"
  shows "excused logs c0 what"
proof -
  have "ahead logs (rebased c c0) c" using assms(1) by (simp add: run_inv_def client_inv_def)
  from overrun_ahead [OF _ this] have "overrun c logs \<Longrightarrow> overrun c0 logs" by simp
  then show ?thesis using assms(2) unfolding excused_def by blast
qed

text \<open>Where the cursor of a later client is.\<close>

lemma run_inv_offered:
  assumes "log_views c0 logs bound" "run_inv logs c0 k c" "ahead logs c c'"
  shows "log_between logs c0 c' = log_between logs c0 c @ log_between logs c c'"
    "offered logs c0 c' = offered logs c0 c @ log_between logs c c'"
proof -
  have "ahead logs (rebased c c0) c" using assms(2) by (simp add: run_inv_def client_inv_def)
  from log_between_append [OF _ this assms(3)] assms(1)
  show "log_between logs c0 c' = log_between logs c0 c @ log_between logs c c'" by simp
  then show "offered logs c0 c' = offered logs c0 c @ log_between logs c c'" by (simp add: offered_def)
qed

text \<open>A frame within a run.\<close>

lemma run_inv_compose:
  assumes "log_views c0 logs bound" "run_inv logs c0 j c" "client_inv logs c k c'"
  shows "run_inv logs c0 (j + k) c'" "offered logs c c' = drop j (offered logs c0 c')"
proof -
  let ?b = "rebased c c0"
  have inv: "ahead logs ?b c" "accounted (log_between logs c0 c) ?b c" "j \<le> length (offered logs c0 c)"
    "q_records (c_pending c) = drop j (offered logs c0 c)" "c_config c = c_config ?b"
    using assms(2) run_inv_facts(4) [OF assms(2)] by (simp_all add: run_inv_def client_inv_def)
  have inv': "ahead logs c c'" "accounted (log_between logs c c') c c'" "k \<le> length (offered logs c c')"
    "q_records (c_pending c') = drop k (offered logs c c')" "queue_ok (c_pending c')"
    using assms(3) by (simp_all add: client_inv_def)
  note off = run_inv_offered [OF assms(1,2) inv'(1)]
  show app: "offered logs c c' = drop j (offered logs c0 c')"
    using inv(3) by (simp add: off offered_def [of logs c c'] inv(4))
  have "rebased c' c0 = ?b" using inv'(1) by (intro rebased_same) (simp add: ahead_def)
  moreover have "accounted (log_between logs c0 c') ?b c'"
    unfolding off(1) by (rule accounted_trans [OF inv(2) inv'(2) inv(5)])
  moreover have "length (offered logs c c') = length (offered logs c0 c') - j" by (simp add: app)
  then have "j + k \<le> length (offered logs c0 c')" using inv'(3) inv(3) off(2) by simp
  ultimately show "run_inv logs c0 (j + k) c'"
    using ahead_trans [OF inv(1) inv'(1)] inv'(4,5)
    by (simp add: run_inv_def client_inv_def app add.commute)
qed

text \<open>A step between the frames: from \<open>c\<close> to \<open>c'\<close>.\<close>

definition run_step :: "(nat \<Rightarrow> hfior_record list) \<Rightarrow> client \<Rightarrow> nat \<Rightarrow> client \<Rightarrow> client \<Rightarrow> bool" where
  "run_step logs c0 k c c' \<longleftrightarrow> run_inv logs c0 k c' \<and> ahead logs c c'"

lemma run_step_moves: "moves logs (rebased c c0) k c c' \<Longrightarrow> run_step logs c0 k c c'"
  using rebased_same [of c c' c0] by (simp add: run_step_def run_inv_def moves_def ahead_def)

lemma run_step_trans: "run_step logs c0 k a b \<Longrightarrow> run_step logs c0 k b c \<Longrightarrow> run_step logs c0 k a c"
  using ahead_trans by (auto simp: run_step_def)

lemma run_step_beside:
  assumes "run_ready fuel bound w logs c0" "run_inv logs c0 k c" "beside c c'"
  shows "run_step logs c0 k c c'"
  by (rule run_step_moves [OF moves_beside [OF _ assms(2) [unfolded run_inv_def] assms(3)]]) (use assms(1) in simp)

lemma run_step_then:
  assumes "run_step logs c0 k a b" "runs E (run_step logs c0 k b) out"
  shows "runs E (run_step logs c0 k a) out"
  using assms(2) by (rule runs_mono) (rule run_step_trans [OF assms(1)])

section \<open>The rows\<close>

text \<open>A row of \<open>frames.csv\<close> for a frame that consumed \<open>rs\<close>.\<close>

definition shows_records :: "hfior_record list \<Rightarrow> string \<Rightarrow> bool" where
  "shows_records rs row \<longleftrightarrow> (\<exists>obs. row = commas (map unsigned_text (frame_fields obs)) \<and>
     fo_records obs = of_nat (length rs) \<and>
     fo_newest_timestamp_ns obs = su_newest (summarize_records rs empty_summary) \<and>
     fo_newest_sequence obs = su_newest_sequence (summarize_records rs empty_summary))"

text \<open>The rows of frames that consumed \<open>ks\<close> records of \<open>all\<close>, one after the other.\<close>

definition frame_rows :: "hfior_record list \<Rightarrow> nat list \<Rightarrow> string list \<Rightarrow> bool" where
  "frame_rows all ks rows \<longleftrightarrow> length rows = length ks \<and> sum_list ks \<le> length all \<and>
     (\<forall>i < length ks. shows_records (take (ks ! i) (drop (sum_list (take i ks)) all)) (rows ! i))"

lemma sum_list_take: "sum_list (take (Suc i) ks) \<le> sum_list (ks :: nat list)"
  by (metis append_take_drop_id le_add1 sum_list_append)

lemma take_drop_prefix:
  assumes "j + k \<le> length xs" "prefix xs ys"
  shows "take k (drop j ys) = take k (drop j xs)"
  using assms by (auto simp: prefix_def)

lemma frame_rows_later:
  assumes "frame_rows all ks rows" "prefix all all'"
  shows "frame_rows all' ks rows"
proof -
  have "take (ks ! i) (drop (sum_list (take i ks)) all') = take (ks ! i) (drop (sum_list (take i ks)) all)"
    if "i < length ks" for i
  proof (rule take_drop_prefix [OF _ assms(2)])
    have "sum_list (take i ks) + ks ! i = sum_list (take (Suc i) ks)" using that by (simp add: take_Suc_conv_app_nth)
    also have "\<dots> \<le> length all" using sum_list_take [of i ks] assms(1) by (simp add: frame_rows_def)
    finally show "sum_list (take i ks) + ks ! i \<le> length all" .
  qed
  then show ?thesis using assms prefix_length_le [OF assms(2)] by (simp add: frame_rows_def)
qed

lemma frame_rows_snoc:
  assumes "frame_rows all ks rows" "sum_list ks + k \<le> length all"
    "shows_records (take k (drop (sum_list ks) all)) row"
  shows "frame_rows all (ks @ [k]) (rows @ [row])"
  using assms by (auto simp: frame_rows_def nth_append less_Suc_eq)

text \<open>The invariant of the frame loop: \<open>ks\<close> are the counts of the frames so far.\<close>

definition loop_inv :: "(nat \<Rightarrow> hfior_record list) \<Rightarrow> client \<Rightarrow> nat list \<Rightarrow> client \<Rightarrow> bool" where
  "loop_inv logs c0 ks c \<longleftrightarrow> run_inv logs c0 (sum_list ks) c \<and>
     (\<exists>rows. c_frames_csv c = c_frames_csv c0 @ rows \<and> frame_rows (offered logs c0 c) ks rows) \<and>
     cs_frames (c_stats c) = cs_frames (c_stats c0) + of_nat (length ks) \<and>
     k_clock_reads (c_kernel c0) \<le> k_clock_reads (c_kernel c)"

lemma loop_inv_start: "run_ready fuel bound w logs c0 \<Longrightarrow> loop_inv logs c0 [] c0"
  using run_inv_start by (simp add: loop_inv_def frame_rows_def)

lemma loop_inv_step:
  assumes "log_views c0 logs bound" "loop_inv logs c0 ks c" "run_step logs c0 (sum_list ks) c c'"
  shows "loop_inv logs c0 ks c'"
proof -
  have s: "run_inv logs c0 (sum_list ks) c'" "ahead logs c c'" using assms(3) by (simp_all add: run_step_def)
  then have same: "c_frames_csv c' = c_frames_csv c" "cs_frames (c_stats c') = cs_frames (c_stats c)"
    "k_clock_reads (c_kernel c) \<le> k_clock_reads (c_kernel c')"
    by (simp_all add: ahead_def same_world_def)
  have inv: "run_inv logs c0 (sum_list ks) c" using assms(2) by (simp add: loop_inv_def)
  have "prefix (offered logs c0 c) (offered logs c0 c')"
    by (simp add: run_inv_offered(2) [OF assms(1) inv s(2)])
  then show ?thesis using assms(2) s(1) frame_rows_later same by (fastforce simp: loop_inv_def)
qed

section \<open>One frame\<close>

lemma sleep_until_beside: "beside c (sleep_until d c)"
  by (simp add: sleep_until_def client_asks_def hfior_sleep_until_ns_def kernel_call_def emit_def beside_def
      same_world_def accounted_def Let_def split_def split: syscall.splits)

lemma nanosleep_beside: "beside c (nanosleep s n c)"
  by (simp add: nanosleep_def client_asks_def kernel_call_def emit_def beside_def same_world_def accounted_def
      Let_def split_def)

lemma maybe_stall_beside: "beside c (snd (maybe_stall t b c))"
proof -
  let ?c1 = "nanosleep (unat (cc_stall_ms (c_config c) div 1000)) (unat (cc_stall_ms (c_config c) mod 1000) * 1000000) c"
  have "beside ?c1 (upd_cstats (\<lambda>s. s\<lparr>cs_stall_count := cs_stall_count s + 1\<rparr>) ?c1)"
    by (simp add: beside_def same_world_def accounted_def sequence_part_def)
  from beside_trans [OF nanosleep_beside this] show ?thesis by (simp add: maybe_stall_def Let_def)
qed

lemma pace_beside: "beside c (snd (pace p t c))"
proof -
  have "beside (snd (client_now c)) (upd_cstats (\<lambda>s. s\<lparr>cs_overruns := cs_overruns s + 1\<rparr>) (snd (client_now c)))"
    by (simp add: beside_def same_world_def accounted_def sequence_part_def)
  then show ?thesis
    using beside_trans [OF client_now_beside] sleep_until_beside
    by (simp add: pace_def Let_def split_def)
qed

lemma run_let_ingress:
  assumes "run_ready fuel bound w logs c0" "run_inv logs c0 k c"
  shows "runs (excused logs c0) (run_step logs c0 k c) (let_ingress fuel c)"
proof -
  have "runs (excused logs (rebased c c0)) (moves logs (rebased c c0) k c) (let_ingress fuel c)"
    by (rule let_ingress_moves [OF _ assms(2) [unfolded run_inv_def]]) (use assms(1) in simp)
  then show ?thesis unfolding rebased_simps by (rule runs_mono) (rule run_step_moves)
qed

lemma run_post_frame:
  assumes "run_ready fuel bound w logs c0" "run_inv logs c0 k c"
  shows "runs (excused logs c0) (run_step logs c0 k c) (post_frame fuel c)"
proof -
  have ready: "run_ready fuel bound w logs (rebased c c0)" using assms(1) by simp
  note inv = assms(2) [unfolded run_inv_def]
  have "runs (excused logs (rebased c c0)) (moves logs (rebased c c0) k c) (maybe_ack_post_frame c)"
    by (rule runs_mono [OF maybe_ack_beside(2)]) (rule moves_beside [OF ready inv])
  moreover have "runs (excused logs (rebased c c0)) (moves logs (rebased c c0) k c)
      (after (let_ingress fuel c) maybe_ack_post_frame)"
    by (rule let_ingress_then_beside [OF ready inv maybe_ack_beside(2)])
  ultimately have "runs (excused logs (rebased c c0)) (moves logs (rebased c c0) k c) (post_frame fuel c)"
    by (simp add: post_frame_def)
  then show ?thesis unfolding rebased_simps by (rule runs_mono) (rule run_step_moves)
qed

lemma runs_excuse: "runs E P out \<Longrightarrow> (\<And>what. E what \<Longrightarrow> E' what) \<Longrightarrow> runs E' P out"
  by (cases out) simp_all

text \<open>The client after the row of a frame was written.\<close>

definition with_row :: "frame_observation \<Rightarrow> u64 \<Rightarrow> client \<Rightarrow> client" where
  "with_row obs t c = upd_cstats (\<lambda>s. s\<lparr>cs_frames := cs_frames s + 1\<rparr>)
     (write_frame obs (c\<lparr>c_frame_times := c_frame_times c @ [t]\<rparr>))"

lemma with_row_fields:
  "c_frames_csv (with_row obs t c) = c_frames_csv c @ [commas (map unsigned_text (frame_fields obs))]"
  "cs_frames (c_stats (with_row obs t c)) = cs_frames (c_stats c) + 1" "c_kernel (with_row obs t c) = c_kernel c"
  "offered logs c0 (with_row obs t c) = offered logs c0 c" "log_between logs c0 (with_row obs t c) = log_between logs c0 c"
  by (simp_all add: with_row_def write_frame_def Let_def offered_def log_between_def)

lemma run_inv_with_row:
  assumes "run_inv logs c0 k c"
  shows "run_inv logs c0 k (with_row obs t c)"
proof -
  have "ahead logs (rebased (with_row obs t c) c0) (with_row obs t c)" if "ahead logs (rebased c c0) c"
    using that by (simp add: ahead_def same_world_def rebased_def with_row_def write_frame_def Let_def)
  moreover have "accounted rs c0 (with_row obs t c) = accounted rs c0 c" for rs
    by (simp add: accounted_def sequence_part_def with_row_def write_frame_def Let_def)
  moreover have "c_pending (with_row obs t c) = c_pending c" by (simp add: with_row_def write_frame_def Let_def)
  ultimately show ?thesis using assms by (simp add: run_inv_def client_inv_def with_row_fields)
qed

lemma frame_written:
  assumes views: "log_views c0 logs bound" and inv: "loop_inv logs c0 ks c"
    and takes: "frame_takes logs c (obs, c1) k" and step: "run_step logs c0 (sum_list ks + k) c1 c2"
  shows "loop_inv logs c0 (ks @ [k]) (with_row obs t c2)"
    "k_clock_reads (c_kernel c) \<le> k_clock_reads (c_kernel c2)"
proof -
  have run: "run_inv logs c0 (sum_list ks) c" using inv by (simp add: loop_inv_def)
  have ci: "client_inv logs c k c1" using takes by (simp add: frame_takes_def Let_def)
  note comp = run_inv_compose [OF views run ci]
  have ahead: "ahead logs c c1" "ahead logs c1 c2" using ci step by (simp_all add: client_inv_def run_step_def)
  note off = run_inv_offered(2) [OF views run ahead(1)] run_inv_offered(2) [OF views comp(1) ahead(2)]
  have same: "c_frames_csv c2 = c_frames_csv c" "cs_frames (c_stats c2) = cs_frames (c_stats c)"
    "k_clock_reads (c_kernel c) \<le> k_clock_reads (c_kernel c2)"
    using ahead by (auto simp: ahead_def same_world_def)
  show "k_clock_reads (c_kernel c) \<le> k_clock_reads (c_kernel c2)" by (rule same(3))
  obtain rows where rows: "c_frames_csv c = c_frames_csv c0 @ rows" "frame_rows (offered logs c0 c) ks rows"
    using inv by (auto simp: loop_inv_def)
  have len: "sum_list ks + k \<le> length (offered logs c0 c1)" by (rule run_inv_facts(2) [OF comp(1)])
  let ?row = "commas (map unsigned_text (frame_fields obs))"
  have "length (take k (drop (sum_list ks) (offered logs c0 c1))) = k" using len by simp
  then have "shows_records (take k (drop (sum_list ks) (offered logs c0 c1))) ?row"
    using takes comp(2) unfolding shows_records_def frame_takes_def Let_def split_conv by (intro exI [of _ obs]) simp
  moreover have "frame_rows (offered logs c0 c1) ks rows" by (rule frame_rows_later [OF rows(2)]) (simp add: off)
  ultimately have "frame_rows (offered logs c0 c1) (ks @ [k]) (rows @ [?row])"
    by (intro frame_rows_snoc len)
  then have "frame_rows (offered logs c0 c2) (ks @ [k]) (rows @ [?row])"
    by (rule frame_rows_later) (simp add: off)
  moreover have "run_inv logs c0 (sum_list ks + k) (with_row obs t c2)"
    by (rule run_inv_with_row) (use step in \<open>simp add: run_step_def\<close>)
  ultimately show "loop_inv logs c0 (ks @ [k]) (with_row obs t c2)"
    using inv same rows(1) by (simp add: loop_inv_def with_row_fields)
qed

lemma frame_pass_reads:
  assumes ready: "run_ready fuel bound w logs c0" and fits: "work_fits (c_config c0) w"
    and set: "cc_policy (c_config c0) \<noteq> None" and inv: "loop_inv logs c0 ks (fl_client l)"
  shows "runs (excused logs c0) (\<lambda>l'. \<exists>k. loop_inv logs c0 (ks @ [k]) (fl_client l') \<and>
    k_clock_reads (c_kernel (fl_client l)) \<le> k_clock_reads (c_kernel (fl_client l'))) (frame_pass fuel period now l)"
proof -
  have views: "log_views c0 logs bound" using ready by (simp add: run_ready_def)
  let ?c0 = "fl_client l" and ?target = "fl_target_start_ns l"
  let ?c1 = "if \<not> cc_uncapped (c_config ?c0) \<and> now < ?target then sleep_until ?target ?c0 else ?c0"
  let ?start = "fst (client_now ?c1)" and ?c2 = "snd (client_now ?c1)"
  let ?c3 = "snd (maybe_stall ?start (fl_stalled l) ?c2)"
  let ?Q = "\<lambda>l'. \<exists>k. loop_inv logs c0 (ks @ [k]) (fl_client l') \<and>
    k_clock_reads (c_kernel ?c0) \<le> k_clock_reads (c_kernel (fl_client l'))"
  have "beside ?c0 ?c1" using sleep_until_beside by simp
  then have b: "beside ?c0 ?c3"
    using beside_trans [OF _ beside_trans [OF client_now_beside maybe_stall_beside]] by blast
  have run: "run_inv logs c0 (sum_list ks) ?c0" using inv by (simp add: loop_inv_def)
  have inv3: "loop_inv logs c0 ks ?c3" by (rule loop_inv_step [OF views inv run_step_beside [OF ready run b]])
  then have run3: "run_inv logs c0 (sum_list ks) ?c3" by (simp add: loop_inv_def)
  note conf = run_inv_facts(4) [OF run3]
  have reads3: "k_clock_reads (c_kernel ?c0) \<le> k_clock_reads (c_kernel ?c3)"
    using b by (simp add: beside_def same_world_def)
  have frame: "runs (excused logs c0) (\<lambda>result. \<exists>k. frame_takes logs ?c3 result k)
      (run_frame_policy fuel i ?target ?start ?c3)" for i
    by (rule runs_excuse [OF runs_mono [OF run_frame_policy_takes] run_excused [OF run3]])
      (use run_ready_later [OF ready run3] fits set in \<open>auto simp: conf\<close>)
  have rest: "runs (excused logs c0) ?Q (after (post_frame fuel c4)
      (\<lambda>c5. let (target1, c6) = pace period ?target c5; (frame_end_ns, c7) = client_now c6;
                c8 = write_frame obs (c7\<lparr>c_frame_times := c_frame_times c7 @ [frame_end_ns - ?start]\<rparr>)
            in Done \<lparr>fl_client = upd_cstats (\<lambda>s. s\<lparr>cs_frames := cs_frames s + 1\<rparr>) c8,
                     fl_target_start_ns = target1, fl_stalled = stalled\<rparr>))"
    if takes: "frame_takes logs ?c3 (obs, c4) k" for obs c4 k stalled
  proof -
    have ci: "client_inv logs ?c3 k c4" using takes by (simp add: frame_takes_def Let_def)
    note run4 = run_inv_compose(1) [OF views run3 ci]
    show ?thesis
    proof (rule runs_after [OF run_post_frame [OF ready run4]])
      fix c5 assume s5: "run_step logs c0 (sum_list ks + k) c4 c5"
      let ?c6 = "snd (pace period ?target c5)"
      let ?c7 = "snd (client_now ?c6)"
      have run5: "run_inv logs c0 (sum_list ks + k) c5" using s5 by (simp add: run_step_def)
      have s7: "run_step logs c0 (sum_list ks + k) c4 ?c7"
        by (rule run_step_trans [OF s5 run_step_beside [OF ready run5 beside_trans [OF pace_beside client_now_beside]]])
      note written = frame_written [OF views inv3 takes s7]
      show "runs (excused logs c0) ?Q (let (target1, c6) = pace period ?target c5; (frame_end_ns, c7) = client_now c6;
                c8 = write_frame obs (c7\<lparr>c_frame_times := c_frame_times c7 @ [frame_end_ns - ?start]\<rparr>)
            in Done \<lparr>fl_client = upd_cstats (\<lambda>s. s\<lparr>cs_frames := cs_frames s + 1\<rparr>) c8,
                     fl_target_start_ns = target1, fl_stalled = stalled\<rparr>)"
        using written(1) order_trans [OF reads3 written(2)] with_row_fields(3)
        by (auto simp: Let_def split_def with_row_def intro!: exI [of _ k])
    qed
  qed
  show ?thesis
    unfolding frame_pass_def Let_def split_def
    by (rule runs_after [OF frame]) (use rest in \<open>auto simp: Let_def split_def\<close>)
qed

section \<open>The frame loop\<close>

text \<open>From index \<open>n\<close> on the clock has reached the deadline: one pass for every reading before it suffices.\<close>

lemma frame_loop_reads:
  assumes ready: "run_ready fuel bound w logs c0" and fits: "work_fits (c_config c0) w"
    and set: "cc_policy (c_config c0) \<noteq> None" and late: "\<forall>i \<ge> n. finish \<le> client_clock c0 i"
    and "loop_inv logs c0 ks (fl_client l)" "n - k_clock_reads (c_kernel (fl_client l)) < passes"
  shows "runs (excused logs c0) (\<lambda>c'. \<exists>ks'. loop_inv logs c0 ks' c')
    (frame_loop fuel passes signalled finish period pass l)"
  using assms(5,6)
proof (induction passes arbitrary: l ks pass)
  case (Suc passes)
  have views: "log_views c0 logs bound" using ready by (simp add: run_ready_def)
  let ?c = "fl_client l" and ?c1 = "snd (client_now (fl_client l))"
  have run: "run_inv logs c0 (sum_list ks) ?c" using Suc.prems(1) by (simp add: loop_inv_def)
  have now: "fst (client_now ?c) = client_clock c0 (k_clock_reads (c_kernel ?c))"
    unfolding client_now_clock(1) run_inv_facts(5) [OF run] ..
  have inv1: "loop_inv logs c0 ks ?c1"
    by (rule loop_inv_step [OF views Suc.prems(1) run_step_beside [OF ready run client_now_beside]])
  show ?case
  proof (cases "signalled pass \<or> c_terminal_seen ?c \<or> finish \<le> fst (client_now ?c)")
    case True
    then show ?thesis using Suc.prems(1) inv1 by (auto simp: Let_def split_def)
  next
    case False
    then have "k_clock_reads (c_kernel ?c) < n" using late now by (auto simp: not_le [symmetric])
    then have left: "n - k_clock_reads (c_kernel ?c1) < passes"
      using Suc.prems(2) client_now_clock(3) [of ?c] by simp
    have "runs (excused logs c0) (\<lambda>c'. \<exists>ks'. loop_inv logs c0 ks' c')
        (after (frame_pass fuel period (fst (client_now ?c)) (l\<lparr>fl_client := ?c1\<rparr>))
           (frame_loop fuel passes signalled finish period (Suc pass)))"
    proof (rule runs_after [OF frame_pass_reads [OF ready fits set, of ks]])
      fix l' :: frame_loop_state
      assume l': "\<exists>k. loop_inv logs c0 (ks @ [k]) (fl_client l') \<and>
        k_clock_reads (c_kernel (fl_client (l\<lparr>fl_client := ?c1\<rparr>))) \<le> k_clock_reads (c_kernel (fl_client l'))"
      then have "n - k_clock_reads (c_kernel (fl_client l')) < passes" using left by auto
      then show "runs (excused logs c0) (\<lambda>c'. \<exists>ks'. loop_inv logs c0 ks' c')
          (frame_loop fuel passes signalled finish period (Suc pass) l')"
        using l' Suc.IH by blast
    qed (simp add: inv1)
    then show ?thesis using False by (simp add: Let_def split_def)
  qed
qed simp

section \<open>Shutdown\<close>

lemma drain_and_acknowledge:
  assumes "log_views c logs bound" "drain_ready fuel bound c"
  shows "runs (excused logs c) (\<lambda>(n, c'). unat (c_local_tail c') = length (logs (c_views_used c' - 1)) \<and>
    c_last_acked_tail c' = c_local_tail c') (drain_ring fuel reason False True c)"
  unfolding drain_ring_ack [of _ _ _ True]
  using drain_ring_reads [OF assms, of reason False]
proof (elim disjE exE conjE)
  fix c' assume d: "drain_ring fuel reason False False c =
      Done (unat (c_local_tail c') - unat (c_local_tail c), c')"
    "unat (c_local_tail c') = length (logs (c_views_used c' - 1))"
  then show "runs (excused logs c) (\<lambda>(n, c'). unat (c_local_tail c') = length (logs (c_views_used c' - 1)) \<and>
      c_last_acked_tail c' = c_local_tail c')
    (after (drain_ring fuel reason False False c)
      (\<lambda>(n, c1). after (if True then send_ack_if_needed c1 else Done c1) (\<lambda>c2. Done (n, c2))))"
    by (cases "c_local_tail c' = c_last_acked_tail c'")
      (simp_all add: send_ack_if_needed_def client_asks_def kernel_call_def excused_def emit_def Let_def split_def)
qed (simp add: excused_def)

lemma shutdown_drain_reads:
  assumes ready: "run_ready fuel bound w logs c0" and inv: "run_inv logs c0 k c"
  shows "runs (excused logs c0) (\<lambda>c'. run_step logs c0 k c c' \<and>
    unat (c_local_tail c') = length (logs (c_views_used c' - 1)) \<and> c_last_acked_tail c' = c_local_tail c')
    (shutdown_drain fuel c)"
proof -
  let ?b = "rebased c c0"
  have ready': "run_ready fuel bound w logs ?b" using ready by simp
  note inv' = inv [unfolded run_inv_def]
  have "runs (excused logs ?b) (\<lambda>(n, c'). moves logs ?b k c c' \<and> length (logs (c_views_used c)) \<le> unat (c_local_tail c'))
      (drain_ring fuel RECEIPT_SHUTDOWN False True c)"
    by (rule drain_ring_moves [OF ready' inv'])
  then have m: "runs (excused logs c0) (\<lambda>(n, c'). run_step logs c0 k c c') (drain_ring fuel RECEIPT_SHUTDOWN False True c)"
    unfolding rebased_simps by (rule runs_mono) (use run_step_moves in auto)
  have d: "runs (excused logs c0) (\<lambda>(n, c'). unat (c_local_tail c') = length (logs (c_views_used c' - 1)) \<and>
      c_last_acked_tail c' = c_local_tail c') (drain_ring fuel RECEIPT_SHUTDOWN False True c)"
    by (rule runs_excuse [OF drain_and_acknowledge [OF client_inv_ready [OF ready' inv']] run_excused [OF inv]])
  have "cc_policy (c_config c) \<noteq> Some POLICY_EAGER_THREAD"
    using ready run_inv_facts(4) [OF inv] by (simp add: run_ready_def)
  then show ?thesis
    unfolding shutdown_drain_def by simp (rule runs_after [OF runs_conj [OF m d]], auto)
qed

lemma shutdown_loop_reads:
  assumes ready: "run_ready fuel bound w logs c0" and late: "\<forall>i \<ge> n. deadline \<le> client_clock c0 i"
    and "run_inv logs c0 k c" "n - k_clock_reads (c_kernel c) < passes"
  shows "runs (excused logs c0) (run_step logs c0 k c) (shutdown_loop fuel passes deadline c)"
  using assms(3,4)
proof (induction passes arbitrary: c)
  case (Suc passes)
  have views: "log_views c logs bound" using run_ready_later [OF ready Suc.prems(1)] by (simp add: run_ready_def)
  let ?c1 = "snd (client_now c)"
  have now: "fst (client_now c) = client_clock c0 (k_clock_reads (c_kernel c))"
    unfolding client_now_clock(1) run_inv_facts(5) [OF Suc.prems(1)] ..
  have s1: "run_step logs c0 k c ?c1" by (rule run_step_beside [OF ready Suc.prems(1) client_now_beside])
  have s0: "run_step logs c0 k c c" using Suc.prems(1) ahead_refl [OF views] by (simp add: run_step_def)
  show ?case
  proof (cases "c_terminal_seen c \<or> deadline \<le> fst (client_now c)")
    case True
    then show ?thesis using s0 s1 by (auto simp: Let_def split_def)
  next
    case False
    then have "k_clock_reads (c_kernel c) < n" using late now by (auto simp: not_le [symmetric])
    then have left: "n - k_clock_reads (c_kernel ?c1) < passes"
      using Suc.prems(2) client_now_clock(3) [of c] by simp
    have "runs (excused logs c0) (run_step logs c0 k ?c1) (after (let_ingress fuel ?c1)
      (\<lambda>c2. after (shutdown_drain fuel c2) (\<lambda>c3. shutdown_loop fuel passes deadline (nanosleep 0 1000000 c3))))"
    proof (rule runs_after [OF run_let_ingress [OF ready]])
      show "run_inv logs c0 k ?c1" using s1 by (simp add: run_step_def)
      fix c2 assume s2: "run_step logs c0 k ?c1 c2"
      show "runs (excused logs c0) (run_step logs c0 k ?c1)
        (after (shutdown_drain fuel c2) (\<lambda>c3. shutdown_loop fuel passes deadline (nanosleep 0 1000000 c3)))"
      proof (rule runs_after [OF shutdown_drain_reads [OF ready, of k]])
        show "run_inv logs c0 k c2" using s2 by (simp add: run_step_def)
        fix c3 assume "run_step logs c0 k c2 c3 \<and>
          unat (c_local_tail c3) = length (logs (c_views_used c3 - 1)) \<and> c_last_acked_tail c3 = c_local_tail c3"
        then have s3: "run_step logs c0 k c2 c3" by simp
        then have s4: "run_step logs c0 k c3 (nanosleep 0 1000000 c3)"
          by (intro run_step_beside [OF ready _ nanosleep_beside]) (simp add: run_step_def)
        note s = run_step_trans [OF s2 run_step_trans [OF s3 s4]]
        then have "k_clock_reads (c_kernel ?c1) \<le> k_clock_reads (c_kernel (nanosleep 0 1000000 c3))"
          by (simp add: run_step_def ahead_def same_world_def)
        then have "runs (excused logs c0) (run_step logs c0 k (nanosleep 0 1000000 c3))
            (shutdown_loop fuel passes deadline (nanosleep 0 1000000 c3))"
          using s left by (intro Suc.IH) (auto simp: run_step_def)
        then show "runs (excused logs c0) (run_step logs c0 k ?c1)
            (shutdown_loop fuel passes deadline (nanosleep 0 1000000 c3))" by (rule run_step_then [OF s])
      qed
    qed
    from run_step_then [OF s1 this] show ?thesis using False by (simp add: Let_def split_def not_less)
  qed
qed simp

lemma send_stop_beside: "beside c (send_stop c)"
  by (simp add: send_stop_def client_asks_def kernel_call_def emit_def beside_def same_world_def accounted_def
      Let_def split_def split: syscall.splits)

lemma stop_ingress_fields:
  "stop_ingress c = c\<lparr>c_stop := True, c_kernel := c_kernel (stop_ingress c)\<rparr>"
  "k_clock (c_kernel (stop_ingress c)) = k_clock (c_kernel c)"
  "k_clock_reads (c_kernel (stop_ingress c)) = k_clock_reads (c_kernel c)"
  "k_calls (c_kernel (stop_ingress c)) = k_calls (c_kernel c)"
  by (simp_all add: stop_ingress_def client_asks_def kernel_call_def emit_def Let_def split_def)

lemma stop_ingress_inv:
  assumes "loop_inv logs c0 ks c"
  shows "loop_inv logs c0 ks (stop_ingress c)"
proof -
  obtain k where k: "stop_ingress c = c\<lparr>c_stop := True, c_kernel := k\<rparr>" "k_clock k = k_clock (c_kernel c)"
    "k_clock_reads k = k_clock_reads (c_kernel c)" "k_calls k = k_calls (c_kernel c)"
    using stop_ingress_fields [of c] by blast
  have "run_inv logs c0 (sum_list ks) (c\<lparr>c_stop := True, c_kernel := k\<rparr>)"
    using assms k(2-4)
    by (simp add: loop_inv_def run_inv_def client_inv_def ahead_def same_world_def rebased_def accounted_def
        offered_def log_between_def)
  then show ?thesis using assms k by (simp add: loop_inv_def offered_def log_between_def)
qed

lemma join_ingress_reads:
  assumes ready: "run_ready fuel bound w logs c0" and inv: "run_inv logs c0 k c"
  shows "runs (excused logs c0) (run_step logs c0 k c) (join_ingress_thread fuel c)"
proof -
  let ?b = "rebased c c0"
  let ?c1 = "c\<lparr>c_switches := Suc (c_switches c)\<rparr>"
  have ready': "run_ready fuel bound w logs ?b" using ready by simp
  note inv' = inv [unfolded run_inv_def]
  have views: "log_views c logs bound" by (rule client_inv_ready(1) [OF ready' inv'])
  have hfior: "cc_policy (c_config c) \<noteq> Some POLICY_EAGER_THREAD"
    using ready run_inv_facts(4) [OF inv] by (simp add: run_ready_def)
  have m1: "moves logs ?b k c ?c1"
    by (rule moves_beside [OF ready' inv']) (simp add: beside_def same_world_def accounted_def)
  then have "runs (excused logs ?b) (moves logs ?b k ?c1) (urgent_pass fuel ?c1)"
    by (intro urgent_pass_moves [OF ready']) (simp add: moves_def)
  then have body: "runs (excused logs ?b) (moves logs ?b k c) (ingress_body fuel ?c1)"
    using hfior by (simp add: ingress_body_def) (rule runs_mono, assumption, rule moves_trans [OF m1])
  have "runs (excused logs ?b) (moves logs ?b k c) (join_ingress_thread fuel c)"
  proof (cases "c_ingress_started c")
    case True
    have "runs (excused logs ?b) (moves logs ?b k c)
        (if \<not> c_ingress_done c \<and> c_schedule c (c_switches c) \<noteq> 0 then ingress_body fuel ?c1 else Done c)"
      using body moves_refl [OF inv' views] by simp
    then have "runs (excused logs ?b) (moves logs ?b k c)
        (after (if \<not> c_ingress_done c \<and> c_schedule c (c_switches c) \<noteq> 0 then ingress_body fuel ?c1 else Done c)
          (\<lambda>c1. let (now, c2) = client_asks (hfior_now_ns CLOCK_THREAD_CPUTIME_ID) c1
                in Done (upd_cstats (\<lambda>s. s\<lparr>cs_ingress_thread_cpu_ns := now - c_ingress_cpu_start c2\<rparr>) c2)))"
    proof (rule runs_after)
      fix c1 assume c1: "moves logs ?b k c c1"
      let ?c2 = "snd (client_asks (hfior_now_ns CLOCK_THREAD_CPUTIME_ID) c1)"
      have "beside c1 (upd_cstats (\<lambda>s. s\<lparr>cs_ingress_thread_cpu_ns := t\<rparr>) ?c2)" for t
        by (simp add: client_asks_def hfior_now_ns_def beside_def same_world_def accounted_def sequence_part_def split_def)
      then have "moves logs ?b k c1 (upd_cstats (\<lambda>s. s\<lparr>cs_ingress_thread_cpu_ns := t\<rparr>) ?c2)" for t
        using c1 by (intro moves_beside [OF ready']) (simp_all add: moves_def)
      then show "runs (excused logs ?b) (moves logs ?b k c)
          (let (now, c2) = client_asks (hfior_now_ns CLOCK_THREAD_CPUTIME_ID) c1
           in Done (upd_cstats (\<lambda>s. s\<lparr>cs_ingress_thread_cpu_ns := now - c_ingress_cpu_start c2\<rparr>) c2))"
        using moves_trans [OF c1] by (simp add: Let_def split_def)
    qed
    with True show ?thesis by (simp add: join_ingress_thread_def)
  qed (simp add: join_ingress_thread_def moves_refl [OF inv' views])
  then show ?thesis unfolding rebased_simps by (rule runs_mono) (rule run_step_moves)
qed

section \<open>The whole run\<close>

text \<open>
  A clock that does not go back: once \<open>d\<close> has passed since a reading, it stays passed. \<open>n\<close> counts the
  readings it takes.
\<close>

definition steady_clock :: "client \<Rightarrow> bool" where
  "steady_clock c \<longleftrightarrow> (\<forall>i j. i \<le> j \<longrightarrow> client_clock c i \<le> client_clock c j)"

lemma deadline_reached:
  assumes "clock_passes fuel w c" "steady_clock c" "d \<le> w"
  obtains n where "\<forall>j \<ge> n. client_clock c i + d \<le> client_clock c j" "n - Suc i < fuel"
proof -
  obtain m where m: "m < fuel" "client_clock c i + d \<le> client_clock c (Suc i + m)"
    using assms(1,3) by (auto simp: clock_passes_def)
  show thesis
  proof (rule that [of "Suc i + m"])
    show "\<forall>j \<ge> Suc i + m. client_clock c i + d \<le> client_clock c j"
      using m(2) assms(2) unfolding steady_clock_def by (blast intro: order_trans)
  qed (use m(1) in simp)
qed

lemma client_shutdown_reads:
  assumes ready: "run_ready fuel bound w logs c0" and steady: "steady_clock c0" "100000000 \<le> w" "fuel \<le> passes"
    and inv: "loop_inv logs c0 ks c"
  shows "runs (excused logs c0) (\<lambda>c'. loop_inv logs c0 ks c' \<and>
    unat (c_local_tail c') = length (logs (c_views_used c' - 1)) \<and> c_last_acked_tail c' = c_local_tail c')
    (client_shutdown fuel passes c)"
proof -
  have views: "log_views c0 logs bound" and passes: "clock_passes fuel w c0" using ready by (simp_all add: run_ready_def)
  note loop = loop_inv_step [OF views]
  let ?c1 = "snd (client_now (send_stop c))"
  let ?i = "k_clock_reads (c_kernel (send_stop c))"
  have run: "run_inv logs c0 (sum_list ks) c" using inv by (simp add: loop_inv_def)
  have s1: "run_step logs c0 (sum_list ks) c ?c1"
    by (rule run_step_beside [OF ready run beside_trans [OF send_stop_beside client_now_beside]])
  then have run1: "run_inv logs c0 (sum_list ks) ?c1" by (simp add: run_step_def)
  have now: "fst (client_now (send_stop c)) = client_clock c0 ?i"
    using run_inv_facts(5) [OF run1] by (simp only: client_now_clock)
  obtain n where n: "\<forall>j \<ge> n. client_clock c0 ?i + 100000000 \<le> client_clock c0 j" "n - Suc ?i < fuel"
    using deadline_reached [OF passes steady(1,2)] by blast
  have "n - k_clock_reads (c_kernel ?c1) < passes" using n(2) steady(3) client_now_clock(3) [of "send_stop c"] by simp
  note shut = shutdown_loop_reads [OF ready n(1) run1 this]
  have "runs (excused logs c0) (\<lambda>c'. loop_inv logs c0 ks c' \<and>
      unat (c_local_tail c') = length (logs (c_views_used c' - 1)) \<and> c_last_acked_tail c' = c_local_tail c')
    (after (shutdown_loop fuel passes (client_clock c0 ?i + 100000000) ?c1)
      (\<lambda>c2. after (join_ingress_thread fuel (stop_ingress c2)) (shutdown_drain fuel)))"
  proof (rule runs_after [OF shut])
    fix c2 assume s2: "run_step logs c0 (sum_list ks) ?c1 c2"
    have stop: "loop_inv logs c0 ks (stop_ingress c2)" by (rule stop_ingress_inv [OF loop [OF loop [OF inv s1] s2]])
    then have "run_inv logs c0 (sum_list ks) (stop_ingress c2)" by (simp add: loop_inv_def)
    from join_ingress_reads [OF ready this]
    show "runs (excused logs c0) (\<lambda>c'. loop_inv logs c0 ks c' \<and>
        unat (c_local_tail c') = length (logs (c_views_used c' - 1)) \<and> c_last_acked_tail c' = c_local_tail c')
      (after (join_ingress_thread fuel (stop_ingress c2)) (shutdown_drain fuel))"
    proof (rule runs_after)
      fix c3 assume "run_step logs c0 (sum_list ks) (stop_ingress c2) c3"
      note inv3 = loop [OF stop this]
      then have "run_inv logs c0 (sum_list ks) c3" by (simp add: loop_inv_def)
      from shutdown_drain_reads [OF ready this]
      show "runs (excused logs c0) (\<lambda>c'. loop_inv logs c0 ks c' \<and>
          unat (c_local_tail c') = length (logs (c_views_used c' - 1)) \<and> c_last_acked_tail c' = c_local_tail c')
        (shutdown_drain fuel c3)"
        by (rule runs_mono) (use loop [OF inv3] in blast)
    qed
  qed
  then show ?thesis by (simp add: client_shutdown_def Let_def split_def now)
qed

text \<open>What a run from \<open>c0\<close> to \<open>c\<close> did with the log.\<close>

definition run_reads :: "(nat \<Rightarrow> hfior_record list) \<Rightarrow> client \<Rightarrow> client \<Rightarrow> bool" where
  "run_reads logs c0 c \<longleftrightarrow>
     (\<exists>ks rows. c_frames_csv c = c_frames_csv c0 @ rows \<and> frame_rows (offered logs c0 c) ks rows \<and>
        cs_frames (c_stats c) = cs_frames (c_stats c0) + of_nat (length ks) \<and>
        q_records (c_pending c) = drop (sum_list ks) (offered logs c0 c)) \<and>
     accounted (log_between logs c0 c) c0 c \<and>
     unat (c_local_tail c) = length (logs (c_views_used c - 1)) \<and>
     c_last_acked_tail c = c_local_tail c"

lemma clock_then_stats_beside:
  assumes "\<And>s. sequence_part (f s) = sequence_part s \<and> cs_ring_records (f s) = cs_ring_records s \<and> cs_frames (f s) = cs_frames s"
  shows "beside c (upd_cstats f (snd (client_asks (hfior_now_ns clock) c)))"
  using assms by (simp add: client_asks_def hfior_now_ns_def beside_def same_world_def accounted_def split_def)

text \<open>C15: The measured part of a run under an HFIOR policy, with the ingress thread let in at every mutex, beside a
  producer that keeps publishing and on a clock that does not go back: it ends (unless an acknowledgement
  cannot be sent or a look finds the log more than a capacity ahead), one unit of fuel for every clock
  reading in the longest of the waits. Its frames have then consumed consecutive parts of the log,
  beginning with what was pending; the rows of \<open>frames.csv\<close>, one for each frame, show the size and the
  newest record of each part; what the shutdown read besides is pending. Everything read is accounted
  exactly once, nothing of what the last look saw is unread, and all of it has been acknowledged.\<close>

theorem measured_run_reads_log:
  assumes ready: "run_ready fuel bound w logs c" and fits: "work_fits (c_config c) w"
    and set: "cc_policy (c_config c) \<noteq> None"
    and steady: "steady_clock c" "duration_ns (c_config c) \<le> w" "100000000 \<le> w" "fuel \<le> passes"
  shows "runs (excused logs c) (run_reads logs c) (measured_run fuel passes around c)"
proof -
  have views: "log_views c logs bound" and passes: "clock_passes fuel w c" using ready by (simp_all add: run_ready_def)
  let ?c1 = "snd (client_asks (hfior_now_ns CLOCK_PROCESS_CPUTIME_ID) c)"
  let ?i = "k_clock_reads (c_kernel ?c1)"
  let ?c3 = "upd_cstats (\<lambda>s. s\<lparr>cs_started_ns := fst (client_now ?c1)\<rparr>) (snd (client_now ?c1))"
  have run: "run_inv logs c 0 c" by (rule run_inv_start [OF ready])
  have b1: "beside c ?c1" using clock_then_stats_beside [of "\<lambda>s. s" c CLOCK_PROCESS_CPUTIME_ID] by simp
  have "beside ?c1 ?c3"
    unfolding client_now_def by (rule clock_then_stats_beside) (simp add: sequence_part_def)
  then have b: "beside c ?c3" by (rule beside_trans [OF b1])
  have inv: "loop_inv logs c [] ?c3"
    by (rule loop_inv_step [OF views loop_inv_start [OF ready]]) (simp only: sum_list.Nil run_step_beside [OF ready run b])
  have "client_clock ?c1 = client_clock c" using b1 by (intro client_clock_same) (simp add: beside_def)
  then have started: "fst (client_now ?c1) = client_clock c ?i" by (simp only: client_now_clock)
  have conf: "c_config ?c3 = c_config c" using b by (simp add: beside_def same_world_def)
  obtain n where n: "\<forall>j \<ge> n. client_clock c ?i + duration_ns (c_config c) \<le> client_clock c j" "n - Suc ?i < fuel"
    using deadline_reached [OF passes steady(1,2)] by blast
  let ?l = "\<lparr>fl_client = ?c3, fl_target_start_ns = fst (client_now ?c1), fl_stalled = False\<rparr>"
  have left: "n - k_clock_reads (c_kernel (fl_client ?l)) < passes"
    using n(2) steady(4) client_now_clock(3) [of ?c1] by simp
  have inv_l: "loop_inv logs c [] (fl_client ?l)" using inv by simp
  note loop = frame_loop_reads [OF ready fits set n(1) inv_l left]
  have end_: "run_reads logs c (upd_cstats (\<lambda>s. s\<lparr>cs_finished_ns := t, cs_consumer_process_cpu_ns := u\<rparr>)
      (snd (client_asks (hfior_now_ns CLOCK_PROCESS_CPUTIME_ID) (snd (client_now c5)))))"
    if c5: "loop_inv logs c ks c5" "unat (c_local_tail c5) = length (logs (c_views_used c5 - 1))"
      "c_last_acked_tail c5 = c_local_tail c5" for ks c5 t u
  proof -
    let ?c6 = "upd_cstats (\<lambda>s. s\<lparr>cs_finished_ns := t, cs_consumer_process_cpu_ns := u\<rparr>)
      (snd (client_asks (hfior_now_ns CLOCK_PROCESS_CPUTIME_ID) (snd (client_now c5))))"
    have "beside (snd (client_now c5)) ?c6" by (rule clock_then_stats_beside) (simp add: sequence_part_def)
    note b6 = beside_trans [OF client_now_beside this]
    have "run_inv logs c (sum_list ks) c5" using c5(1) by (simp add: loop_inv_def)
    from loop_inv_step [OF views c5(1) run_step_beside [OF ready this b6]]
    have inv6: "loop_inv logs c ks ?c6" .
    then have run6: "run_inv logs c (sum_list ks) ?c6" by (simp add: loop_inv_def)
    have "c_local_tail ?c6 = c_local_tail c5" "c_views_used ?c6 = c_views_used c5"
      "c_last_acked_tail ?c6 = c_last_acked_tail c5"
      by (simp_all add: client_now_def client_asks_def hfior_now_ns_def split_def)
    then show ?thesis
      using inv6 run_inv_facts(1,3) [OF run6] c5(2,3) unfolding run_reads_def loop_inv_def by metis
  qed
  show ?thesis
    unfolding measured_run_def Let_def split_def started conf [unfolded started]
  proof (rule runs_after [OF loop [unfolded started]])
    fix c4 assume "\<exists>ks. loop_inv logs c ks c4"
    then obtain ks where "loop_inv logs c ks c4" by blast
    from client_shutdown_reads [OF ready steady(1,3,4) this]
    show "runs (excused logs c) (run_reads logs c) (after (client_shutdown fuel passes c4)
      (\<lambda>c5. Done (upd_cstats (\<lambda>s. s\<lparr>cs_finished_ns := fst (client_now c5),
         cs_consumer_process_cpu_ns := fst (client_asks (hfior_now_ns CLOCK_PROCESS_CPUTIME_ID) (snd (client_now c5))) -
           fst (client_asks (hfior_now_ns CLOCK_PROCESS_CPUTIME_ID) c)\<rparr>)
         (snd (client_asks (hfior_now_ns CLOCK_PROCESS_CPUTIME_ID) (snd (client_now c5)))))))"
      by (rule runs_after) (unfold runs_simps, elim conjE, rule end_, assumption+)
  qed
qed

lemma demo_steady: "steady_clock (demo_frame_client policy)"
  unfolding steady_clock_def
proof (intro allI impI)
  fix i j :: nat
  assume "i \<le> j"
  have u: "unat (of_nat k * 1000000000 :: u64) = k * 1000000000" if "k < 1000" for k
  proof -
    have "k * 1000000000 < 2 ^ 64" using that by simp
    then have "unat (of_nat (k * 1000000000) :: u64) = k * 1000000000"
      by (simp only: unsigned_of_nat) (simp add: take_bit_nat_eq_self)
    then show ?thesis by simp
  qed
  show "client_clock (demo_frame_client policy) i \<le> client_clock (demo_frame_client policy) j"
  proof (cases "j < 1000")
    case True
    then show ?thesis using \<open>i \<le> j\<close> u by (simp add: demo_frame_clock word_le_nat_alt)
  qed (simp add: demo_frame_clock)
qed

definition demo_surroundings :: surroundings where
  "demo_surroundings = \<lparr>sr_runtime_dir = None, sr_uid = 0, sr_mkdir = None, sr_peer = Inl EACCES,
     sr_usage = (0, 0), sr_signalled = (\<lambda>_. False)\<rparr>"

lemma measured_run_reads_log_witness:
  "runs (excused (\<lambda>_. [demo_record]) (demo_frame_client POLICY_HFIOR_TWO_STAGE))
     (run_reads (\<lambda>_. [demo_record]) (demo_frame_client POLICY_HFIOR_TWO_STAGE))
     (measured_run 8 8 demo_surroundings (demo_frame_client POLICY_HFIOR_TWO_STAGE))"
proof (rule measured_run_reads_log [where w = 1000000000 and bound = 1])
  show "duration_ns (c_config (demo_frame_client POLICY_HFIOR_TWO_STAGE)) \<le> 1000000000"
    using round_double_int [of 1000000000]
    by (simp add: duration_ns_def u64_of_double_def demo_frame_client_def demo_client_def Let_def)
  show "run_ready 8 1 1000000000 (\<lambda>_. [demo_record]) (demo_frame_client POLICY_HFIOR_TWO_STAGE)"
    by (rule demo_frame_ready(1)) simp_all
  show "work_fits (c_config (demo_frame_client POLICY_HFIOR_TWO_STAGE)) 1000000000"
    by (rule demo_frame_ready(2)) simp_all
  show "cc_policy (c_config (demo_frame_client POLICY_HFIOR_TWO_STAGE)) \<noteq> None"
    by (simp add: demo_frame_client_def Let_def)
qed (simp_all add: demo_steady)

end
