(* ===== verification/Client_Rows.thy ===== *)
theory Client_Rows
  imports Client_Output Client_Accounting
begin

text \<open>
  The files of the latency client read back: splitting a row at its commas and converting the columns
  with \<open>strtoul\<close> and \<open>strtol\<close> gives what was written.
\<close>

section \<open>Columns\<close>

fun split_commas :: "string \<Rightarrow> string list" where
  "split_commas [] = [[]]"
| "split_commas (c # cs) =
     (if c = CHR '','' then [] # split_commas cs
      else (c # hd (split_commas cs)) # tl (split_commas cs))"

lemma split_commas_nonempty [simp]: "split_commas s \<noteq> []"
  by (cases s) simp_all

lemma split_commas_column: "CHR '','' \<notin> set x \<Longrightarrow> split_commas x = [x]"
  by (induction x) auto

lemma split_commas_append: "CHR '','' \<notin> set x \<Longrightarrow> split_commas (x @ CHR '','' # s) = x # split_commas s"
  by (induction x) auto

lemma split_commas_row:
  "xs \<noteq> [] \<Longrightarrow> \<forall>x \<in> set xs. CHR '','' \<notin> set x \<Longrightarrow> split_commas (commas xs) = xs"
  by (induction xs rule: commas.induct) (simp_all add: split_commas_column split_commas_append)

lemma length_split_commas: "length (split_commas s) = Suc (length (filter (\<lambda>c. c = CHR '','') s))"
  by (induction s) simp_all

lemma decimal_no_comma: "CHR '','' \<notin> set (decimal n)"
proof
  assume "CHR '','' \<in> set (decimal n)"
  then have "is_digit (CHR '','')" using decimal_digits [of n] by (auto simp: list_all_iff)
  then show False by (simp add: is_digit_def)
qed

lemma unsigned_no_comma: "CHR '','' \<notin> set (unsigned_text w)"
  by (simp add: unsigned_text_def decimal_no_comma)

lemma signed_no_comma: "CHR '','' \<notin> set (signed_text n)"
  by (simp add: signed_text_def decimal_no_comma)

section \<open>Numbers\<close>

lemma strtoul_unsigned: "fst (strtoul (unsigned_text w)) = w"
proof -
  have "unat w < 2 ^ 64" using unsigned_less [of w] by simp
  from strtoul_decimal [OF this] show ?thesis by (simp add: unsigned_text_def)
qed

lemma strtol_decimal: "n < 2 ^ 63 \<Longrightarrow> strtol (decimal n) = (int n, [], False)"
  unfolding strtol_def Let_def decimal_alone split_conv by simp

lemma strtol_negative: "n < 2 ^ 63 \<Longrightarrow> strtol (CHR ''-'' # decimal n) = (- int n, [], False)"
  by (simp add: strtol_def take_sign_def is_space_def Let_def)

lemma strtol_signed: "- (2 ^ 63) < n \<Longrightarrow> n < 2 ^ 63 \<Longrightarrow> fst (strtol (signed_text n)) = n"
  using strtol_decimal [of "nat n"] strtol_negative [of "nat (- n)"] by (auto simp: signed_text_def nat_less_iff)

section \<open>Frames\<close>

definition read_frame_row :: "string \<Rightarrow> u64 list" where
  "read_frame_row row = map (\<lambda>x. fst (strtoul x)) (split_commas row)"

lemma read_frame_row: "read_frame_row (commas (map unsigned_text (frame_fields f))) = frame_fields f"
proof -
  have "split_commas (commas (map unsigned_text (frame_fields f))) = map unsigned_text (frame_fields f)"
    by (rule split_commas_row) (auto simp: frame_fields_def unsigned_no_comma)
  then show ?thesis by (simp add: read_frame_row_def comp_def strtoul_unsigned)
qed


section \<open>Receipts\<close>

definition parse_receipt_reason :: "string \<Rightarrow> receipt_reason option" where
  "parse_receipt_reason s =
     (if s = ''urgent'' then Some RECEIPT_URGENT
      else if s = ''frame-ring'' then Some RECEIPT_FRAME_RING
      else if s = ''final-ring'' then Some RECEIPT_FINAL_RING
      else if s = ''eager-thread'' then Some RECEIPT_EAGER_THREAD
      else if s = ''shutdown'' then Some RECEIPT_SHUTDOWN
      else None)"

definition read_receipt_row :: "string \<Rightarrow> receipt_entry option" where
  "read_receipt_row row =
     (case split_commas row of
        [time, reason, sequence, timestamp, dx, dy, wheel, hwheel, buttons, flags] \<Rightarrow>
          map_option (\<lambda>reason. \<lparr>re_receipt_time_ns = fst (strtoul time),
            re_record = \<lparr>r_sequence = fst (strtoul sequence), r_timestamp_ns = fst (strtoul timestamp),
              r_dx = word_of_int (fst (strtol dx)), r_dy = word_of_int (fst (strtol dy)),
              r_wheel = word_of_int (fst (strtol wheel)), r_hwheel = word_of_int (fst (strtol hwheel)),
              r_buttons = ucast (fst (strtoul buttons)), r_flags = ucast (fst (strtoul flags))\<rparr>,
            re_reason = reason\<rparr>) (parse_receipt_reason reason)
      | _ \<Rightarrow> None)"

lemma receipt_reason_name_parses: "parse_receipt_reason (receipt_reason_name reason) = Some reason"
  by (cases reason) (simp_all add: parse_receipt_reason_def)

lemma receipt_reason_name_no_comma: "CHR '','' \<notin> set (receipt_reason_name reason)"
  by (cases reason) simp_all

lemma strtol_sint32: "word_of_int (fst (strtol (signed_text (sint w)))) = (w :: u32)"
proof -
  have "- (2 ^ 63) < sint w" "sint w < 2 ^ 63"
    using sint_greater_eq [of w] sint_less [of w] by simp_all
  from strtol_signed [OF this] show ?thesis by simp
qed

lemma strtol_sint16: "word_of_int (fst (strtol (signed_text (sint w)))) = (w :: u16)"
proof -
  have "- (2 ^ 63) < sint w" "sint w < 2 ^ 63"
    using sint_greater_eq [of w] sint_less [of w] by simp_all
  from strtol_signed [OF this] show ?thesis by simp
qed

lemma strtoul_u16: "ucast (fst (strtoul (decimal (unat w)))) = (w :: u16)"
proof -
  have "unat w < 2 ^ 16" using unsigned_less [of w] by simp
  then have "unat w < 2 ^ 64" by simp
  moreover have "ucast (ucast w :: u64) = w" by (rule bit_word_eqI) (simp add: bit_simps)
  ultimately show ?thesis using strtoul_decimal [of "unat w"] by simp
qed

lemma read_receipt_row: "read_receipt_row (receipt_row e) = Some e"
proof -
  let ?r = "re_record e"
  have "split_commas (receipt_row e) =
      [unsigned_text (re_receipt_time_ns e), receipt_reason_name (re_reason e),
       unsigned_text (r_sequence ?r), unsigned_text (r_timestamp_ns ?r),
       signed_text (sint (r_dx ?r)), signed_text (sint (r_dy ?r)),
       signed_text (sint (r_wheel ?r)), signed_text (sint (r_hwheel ?r)),
       decimal (unat (r_buttons ?r)), decimal (unat (r_flags ?r))]"
    unfolding receipt_row_def Let_def
    by (rule split_commas_row)
      (simp_all add: unsigned_no_comma signed_no_comma decimal_no_comma receipt_reason_name_no_comma)
  then show ?thesis
    by (simp add: read_receipt_row_def receipt_reason_name_parses strtoul_unsigned strtol_sint32 strtol_sint16 strtoul_u16)
qed

text \<open>C39: When the receipts have been dumped, \<open>records.csv\<close> was the last file written, and its rows below the
  header read back as the receipts, in order: every field of every record, with its time and reason.\<close>

theorem receipts_read_back:
  assumes "dump_receipts c = Done c'"
  shows "\<exists>header rows. last (k_trace (c_kernel c')) = Wrote_output (output_dir c @ ''/records.csv'') (header # rows) \<and>
    map read_receipt_row rows = map Some (c_receipts c)"
proof -
  obtain c1 where c1: "open_output (output_dir c) ''records.csv'' c = Done (output_dir c @ ''/records.csv'', c1)"
    "c_receipts c1 = c_receipts c"
    using assms
    by (auto simp: dump_receipts_def open_output_def client_asks_def kernel_call_def Let_def split_def
        split: if_splits syscall.splits)
  show ?thesis
    using assms
    by (auto simp: dump_receipts_def c1 close_output_def read_receipt_row comp_def)
qed

lemma receipts_read_back_witness:
  "\<exists>c' rows. dump_receipts (demo_client quiet_kernel demo_ring1) = Done c' \<and>
     last (k_trace (c_kernel c')) = Wrote_output ''out/records.csv'' rows"
proof -
  let ?c = "demo_client quiet_kernel demo_ring1"
  obtain c' where c': "dump_receipts ?c = Done c'"
    by (simp add: dump_receipts_def open_output_def client_asks_def kernel_call_def output_dir_def demo_client_def
        quiet_kernel_def Let_def)
  have "output_dir ?c = ''out''" by (simp add: output_dir_def demo_client_def)
  with receipts_read_back [OF c'] c' show ?thesis by auto
qed

end
