(* ===== verification/Bridge_Setup.thy ===== *)
theory Bridge_Setup
  imports Bridge_Main
begin

text \<open>
  \<open>main\<close> of the bridge around its run: the command line, the descriptors it makes, the listening
  socket, and at the end the statistics, the publication trace and the closing of everything.
\<close>

section \<open>The command line\<close>

definition default_bridge_config :: "string \<Rightarrow> bridge_config" where
  "default_bridge_config default_socket = \<lparr>
     bc_device_path = None, bc_socket_path = default_socket, bc_stats_path = None, bc_raw_log_path = None,
     bc_trace_path = None, bc_capacity = 65536, bc_synthetic_rate_hz = 0, bc_synthetic_button_every = 0,
     bc_reconnect_ms = 250, bc_duration_s = Finite 0, bc_socket_send_buffer = 1048576,
     bc_synthetic_publish_timestamps = False, bc_quiet = False\<rparr>"

text \<open>
  An option that takes a value: \<open>None\<close> for any other word, \<open>Some None\<close> where the process ends with
  status 2. The send buffer size is converted to \<open>int\<close>.
\<close>

definition bridge_value_option :: "string \<Rightarrow> string \<Rightarrow> bridge_config \<Rightarrow> bridge_config option option" where
  "bridge_value_option opt value c =
     (let number = (\<lambda>store. Some (map_option store (parse_u32 value)))
      in if opt = ''--device'' then Some (Some (c\<lparr>bc_device_path := Some value\<rparr>))
         else if opt = ''--synthetic-rate'' then number (\<lambda>n. c\<lparr>bc_synthetic_rate_hz := n\<rparr>)
         else if opt = ''--button-every'' then number (\<lambda>n. c\<lparr>bc_synthetic_button_every := n\<rparr>)
         else if opt = ''--socket'' then Some (Some (c\<lparr>bc_socket_path := value\<rparr>))
         else if opt = ''--capacity'' then number (\<lambda>n. c\<lparr>bc_capacity := n\<rparr>)
         else if opt = ''--duration'' then
           Some (map_option (\<lambda>x. c\<lparr>bc_duration_s := x\<rparr>) (bridge_parse_double value))
         else if opt = ''--reconnect-ms'' then number (\<lambda>n. c\<lparr>bc_reconnect_ms := n\<rparr>)
         else if opt = ''--socket-send-buffer'' then number (\<lambda>n. c\<lparr>bc_socket_send_buffer := sint n\<rparr>)
         else if opt = ''--stats'' then Some (Some (c\<lparr>bc_stats_path := Some value\<rparr>))
         else if opt = ''--raw-log'' then Some (Some (c\<lparr>bc_raw_log_path := Some value\<rparr>))
         else if opt = ''--trace'' then Some (Some (c\<lparr>bc_trace_path := Some value\<rparr>))
         else if opt = ''--synthetic-timestamps'' then
           Some (if value = ''publish'' then Some (c\<lparr>bc_synthetic_publish_timestamps := True\<rparr>)
                 else if value = ''scheduled'' then Some (c\<lparr>bc_synthetic_publish_timestamps := False\<rparr>)
                 else None)
         else None)"

fun bridge_options :: "string list \<Rightarrow> bridge_config \<Rightarrow> nat + bridge_config" where
  "bridge_options [] c = Inr c"
| "bridge_options (opt # rest) c =
     (case (case rest of [] \<Rightarrow> None | value # _ \<Rightarrow> bridge_value_option opt value c) of
        Some None \<Rightarrow> Inl 2
      | Some (Some c1) \<Rightarrow> bridge_options (tl rest) c1
      | None \<Rightarrow>
          if opt = ''--quiet'' then bridge_options rest (c\<lparr>bc_quiet := True\<rparr>)
          else if opt = ''--help'' then Inl 0 else Inl 2)"

definition bridge_command_line :: "string \<Rightarrow> string list \<Rightarrow> nat + bridge_config" where
  "bridge_command_line default_socket args =
     (case bridge_options args (default_bridge_config default_socket) of
        Inl status \<Rightarrow> Inl status
      | Inr c \<Rightarrow> if config_accepted c then Inr c else Inl 2)"

section \<open>Descriptors\<close>

text \<open>
  What the bridge finds around it: \<open>XDG_RUNTIME_DIR\<close>, \<open>SUDO_UID\<close>, the user, the answers for the
  fallback directory, \<open>accept4\<close>, \<open>SO_PEERCRED\<close> and \<open>fcntl\<close>, and the process identifier.
\<close>

record bridge_surroundings =
  br_runtime_dir :: "string option"
  br_sudo_uid :: "string option"
  br_uid :: u32
  br_mkdir :: "errno option"
  br_accepted :: "int option"
  br_credentials :: "errno + ucred"
  br_getfl :: "u32 option"
  br_setfl :: "u32 \<Rightarrow> u32 option"
  br_pid :: u32

definition determine_authorized_uid :: "string option \<Rightarrow> u32 \<Rightarrow> u32" where
  "determine_authorized_uid sudo_uid uid =
     (case sudo_uid of
        None \<Rightarrow> uid
      | Some text \<Rightarrow>
          if text = [] then uid
          else
            let (value, rest, error) = strtoul text
            in if \<not> error \<and> rest = [] \<and> value \<le> 0xFFFFFFFF then ucast value else uid)"

text \<open>One call: the descriptor or the 0 it returned, if it succeeded, with what it did to the outside.\<close>

definition attempt :: "(int \<Rightarrow> effect list) \<Rightarrow> bridge \<Rightarrow> int option \<times> bridge" where
  "attempt effects b =
     (let (answer, b1) = on_kernel kernel_call b
      in case answer of
           Returned n \<Rightarrow>
             if n < 0 then (None, b1) else (Some n, b1\<lparr>b_kernel := fold emit (effects n) (b_kernel b1)\<rparr>)
         | _ \<Rightarrow> (None, b1))"

definition emits :: "effect list \<Rightarrow> bridge \<Rightarrow> bridge" where
  "emits effects b = b\<lparr>b_kernel := fold emit effects (b_kernel b)\<rparr>"

definition create_memfd :: "bridge \<Rightarrow> int option \<times> bridge" where
  "create_memfd = attempt (\<lambda>_. [])"

definition reopen_memfd_read_only :: "bridge \<Rightarrow> int option \<times> bridge" where
  "reopen_memfd_read_only = attempt (\<lambda>_. [])"

text \<open>The listening socket: whether it was set up. What failed is undone.\<close>

definition setup_listening_socket :: "bridge \<Rightarrow> bool \<times> bridge" where
  "setup_listening_socket b =
     (let path = bc_socket_path (b_config b)
      in case attempt (\<lambda>_. []) b of
           (None, b1) \<Rightarrow> (False, b1)
         | (Some fd, b1) \<Rightarrow>
             if length path \<ge> 108 then (False, emits [Closed fd] b1)
             else
               let (_, b2) = attempt (\<lambda>_. [Unlinked path]) b1
               in case attempt (\<lambda>_. [Bound fd path]) b2 of
                    (None, b3) \<Rightarrow> (False, emits [Closed fd] b3)
                  | (Some _, b3) \<Rightarrow>
                      (case (case attempt (\<lambda>_. []) b3 of
                               (None, b4) \<Rightarrow> (None, b4)
                             | (Some _, b4) \<Rightarrow> attempt (\<lambda>_. [Restricted path (b_authorized_uid b4)]) b4) of
                         (None, b5) \<Rightarrow> (False, emits [Unlinked path, Closed fd] b5)
                       | (Some _, b5) \<Rightarrow>
                           (case attempt (\<lambda>_. [Listening fd]) b5 of
                              (None, b6) \<Rightarrow> (False, emits [Unlinked path, Closed fd] b6)
                            | (Some _, b6) \<Rightarrow> (True, b6\<lparr>b_listen_fd := fd\<rparr>))))"

definition setup_synthetic_source :: "bridge \<Rightarrow> bool \<times> bridge" where
  "setup_synthetic_source b =
     (case attempt (\<lambda>_. []) b of
        (None, b1) \<Rightarrow> (False, b1\<lparr>b_synthetic_timer_fd := - 1\<rparr>)
      | (Some fd, b1) \<Rightarrow>
          (True, b1\<lparr>b_synthetic_timer_fd := fd,
            b_input_id := \<lparr>id_bustype = 0, id_vendor = 0, id_product = 0, id_version = 0\<rparr>,
            b_device_name := take (HFIOR_MAX_DEVICE_NAME - 1)
              (''synthetic-'' @ decimal (unat (bc_synthetic_rate_hz (b_config b1))) @ ''Hz''),
            b_source_ready := False\<rparr>))"

section \<open>Before the run\<close>

text \<open>A call whose failure ends the process.\<close>

definition need :: "string \<Rightarrow> int option \<times> bridge \<Rightarrow> (int \<Rightarrow> bridge \<Rightarrow> bridge) \<Rightarrow> bridge outcome" where
  "need what result store =
     (case result of (None, _) \<Rightarrow> Died what | (Some n, b) \<Rightarrow> Done (store n b))"

definition require :: "string \<Rightarrow> bool \<times> bridge \<Rightarrow> bridge outcome" where
  "require what result = (if fst result then Done (snd result) else Died what)"

definition open_source :: "bridge \<Rightarrow> bridge outcome" where
  "open_source b =
     (if bc_device_path (b_config b) \<noteq> None
      then let (result, b1) = open_input_device b in require ''open input device'' (result = Inr (), b1)
      else require ''setup synthetic source'' (setup_synthetic_source b))"

definition open_raw_log :: "bridge \<Rightarrow> bridge outcome" where
  "open_raw_log b =
     (case bc_raw_log_path (b_config b) of
        None \<Rightarrow> Done b
      | Some path \<Rightarrow> need ''open raw log'' (attempt (\<lambda>_. [Opened_output path]) b) (\<lambda>_ b1. b1\<lparr>b_raw_log := Some []\<rparr>))"

definition make_ring :: "bridge_surroundings \<Rightarrow> bridge \<Rightarrow> bridge outcome" where
  "make_ring around b0 =
     (let b = b0\<lparr>b_authorized_uid := determine_authorized_uid (br_sudo_uid around) (br_uid around),
                 b_mapping_size := hfior_mapping_size (bc_capacity (b_config b0))\<rparr>
      in after (need ''memfd_create'' (create_memfd b) (\<lambda>fd b1. b1\<lparr>b_memfd := fd\<rparr>)) (\<lambda>b1.
         after (need ''ftruncate memfd'' (attempt (\<lambda>_. [Resized (b_memfd b1) (b_mapping_size b1)]) b1) (\<lambda>_ b2. b2)) (\<lambda>b2.
         after (need ''mmap ring'' (attempt (\<lambda>_. [Mapped (b_memfd b2) (b_mapping_size b2)]) b2) (\<lambda>_ b3. b3)) (\<lambda>b3.
         after (need ''eventfd'' (attempt (\<lambda>_. []) b3) (\<lambda>fd b4. b4\<lparr>b_urgent_fd := fd\<rparr>)) (\<lambda>b4.
         after (open_source b4) (\<lambda>b5.
           let (result, b6) = initialize_ring b5
           in require ''initialize ring'' (result = Inr (), b6)))))))"

definition bridge_setup :: "bridge_surroundings \<Rightarrow> bridge \<Rightarrow> bridge outcome" where
  "bridge_setup around b0 =
     after (make_ring around b0) (\<lambda>b1.
     after (need ''seal memfd'' (attempt (\<lambda>_. [Sealed (b_memfd b1)]) b1) (\<lambda>_ b2. b2)) (\<lambda>b2.
     after (need ''reopen memfd read-only'' (reopen_memfd_read_only b2) (\<lambda>fd b3. b3\<lparr>b_readonly_memfd := fd\<rparr>)) (\<lambda>b3.
     after (open_raw_log b3) (\<lambda>b4.
     after (require ''listen socket'' (setup_listening_socket b4)) (\<lambda>b5.
     let b6 = (if bc_quiet (b_config b5) then b5
               else warn (''HFIOR bridge ready at '' @ bc_socket_path (b_config b5) @ ''; source='' @
                      (case bc_device_path (b_config b5) of Some path \<Rightarrow> path | None \<Rightarrow> b_device_name b5)) b5)
     in require ''accept/hello'' (accept_client_and_send_hello (br_accepted around) (br_credentials around)
          (br_getfl around) (br_setfl around) (br_pid around) b6))))))"

section \<open>After the run\<close>

text \<open>The lines of the statistics.\<close>

definition stat_line :: "string \<Rightarrow> string \<Rightarrow> string" where "stat_line key value = key @ ''='' @ value"

definition stats_lines :: "bridge \<Rightarrow> string list" where
  "stats_lines b =
     (let s = b_stats b; synthetic = bc_synthetic_rate_hz (b_config b) \<noteq> 0;
          numbers = map (\<lambda>(key, n). stat_line key (unsigned_text n))
      in [stat_line ''evidence_class'' (if synthetic then ''synthetic-transport-validation'' else ''physical-evdev''),
          stat_line ''source'' (if synthetic then ''synthetic''
            else (case bc_device_path (b_config b) of Some path \<Rightarrow> path | None \<Rightarrow> [])),
          stat_line ''device_name'' (b_device_name b),
          stat_line ''authorized_uid'' (decimal (unat (b_authorized_uid b))),
          stat_line ''peer_pid'' (signed_text (b_peer_pid b)),
          stat_line ''mode'' (hfior_mode_name (b_mode b)),
          stat_line ''wall_s'' (fixed_text 9 (wall_seconds (bs_started_ns s) (bs_finished_ns s)))] @
         numbers
           [(''input_events'', bs_input_events s), (''syn_reports'', bs_syn_reports s),
            (''records_attempted'', bs_records_attempted s), (''records_published'', bs_records_published s),
            (''ring_drops'', bs_ring_drops s), (''eager_packets_sent'', bs_eager_packets_sent s),
            (''eager_send_drops'', bs_eager_send_drops s), (''urgent_writes'', bs_urgent_writes s),
            (''button_transitions'', bs_button_transitions s), (''device_disconnects'', bs_device_disconnects s),
            (''device_reconnects'', bs_device_reconnects s), (''control_messages'', bs_control_messages s),
            (''malformed_messages'', bs_malformed_messages s), (''acknowledgements'', bs_acknowledgements s),
            (''invalid_acknowledgements'', bs_invalid_acknowledgements s), (''generation'', b_generation b),
            (''ring_head'', ring_head (b_ring b)), (''ring_tail'', ring_tail (b_ring b)),
            (''ring_depth'', hfior_ring_depth (b_ring b)), (''ring_dropped_counter'', ring_dropped (b_ring b)),
            (''eager_drop_counter'', pl_eager_send_drops (producer (b_ring b)))])"

text \<open>Where the file cannot be opened, a warning, and the standard output instead.\<close>

definition write_stats :: "bridge \<Rightarrow> bridge" where
  "write_stats b =
     (case bc_stats_path (b_config b) of
        None \<Rightarrow> emits [Printed (stats_lines b)] b
      | Some path \<Rightarrow>
          (case attempt (\<lambda>_. [Opened_output path]) b of
             (None, b1) \<Rightarrow> emits [Printed (stats_lines b1)] (warn (''cannot write stats '' @ path) b1)
           | (Some _, b1) \<Rightarrow> emits [Wrote_output path (stats_lines b1)] b1))"

definition publication_row :: "publication_trace_entry \<Rightarrow> string" where
  "publication_row e =
     commas (map unsigned_text [pt_sequence e, pt_source_timestamp_ns e, pt_publish_begin_ns e,
       pt_publish_end_ns e, pt_head_after e] @ [decimal (unat (pt_published e))])"

definition dump_publication_trace :: "bridge \<Rightarrow> bridge" where
  "dump_publication_trace b =
     (case bc_trace_path (b_config b) of
        None \<Rightarrow> b
      | Some path \<Rightarrow>
          (case attempt (\<lambda>_. [Opened_output path]) b of
             (None, b1) \<Rightarrow> warn (''cannot write publication trace '' @ path) b1
           | (Some _, b1) \<Rightarrow> emits [Wrote_output path
               (''sequence,source_timestamp_ns,publish_begin_ns,publish_end_ns,head_after,published'' #
                map publication_row (b_publication_trace b1))] b1))"

definition raw_log_row :: "u64 \<times> u16 \<times> u16 \<times> u32 \<Rightarrow> string" where
  "raw_log_row = (\<lambda>(t, type, code, value).
     commas [unsigned_text t, decimal (unat type), decimal (unat code), signed_text (sint value)])"

definition raw_log_closing :: "bridge \<Rightarrow> effect list" where
  "raw_log_closing b =
     (case (bc_raw_log_path (b_config b), b_raw_log b) of
        (Some path, Some rows) \<Rightarrow> [Wrote_output path (''timestamp_ns,type,code,value'' # map raw_log_row rows)]
      | _ \<Rightarrow> [])"

definition close_bridge :: "bridge \<Rightarrow> bridge" where
  "close_bridge b =
     emits (raw_log_closing b @
       map Closed (filter (\<lambda>fd. fd \<ge> 0)
         [b_client_fd b, b_listen_fd b, b_input_fd b, b_synthetic_timer_fd b, b_urgent_fd b]) @
       [Unmapped (b_mapping_size b)] @
       map Closed (filter (\<lambda>fd. fd \<ge> 0) [b_readonly_memfd b, b_memfd b]) @
       [Unlinked (bc_socket_path (b_config b))]) (b\<lparr>b_publication_trace := []\<rparr>)"

text \<open>What follows the run.\<close>

definition finish_bridge :: "bridge \<Rightarrow> bridge" where
  "finish_bridge b = close_bridge (dump_publication_trace (write_stats b))"

text \<open>
  \<open>main\<close>: the exit status of an early end, or the bridge after its last call. \<open>b0\<close> is the zeroed
  bridge with the kernel it talks to; a run that ends in \<open>fatal\<close> and one whose fuel is used up are not
  told apart.
\<close>

definition bridge_main :: "nat \<Rightarrow> bridge_surroundings \<Rightarrow> string list \<Rightarrow> bridge \<Rightarrow> (nat + bridge) outcome" where
  "bridge_main fuel around args b0 =
     (case hfior_make_runtime_socket_path (br_runtime_dir around) (br_uid around) (br_mkdir around)
             108 ''hfior.sock'' of
        Inl _ \<Rightarrow> Died ''runtime socket path''
      | Inr default_socket \<Rightarrow>
          (case bridge_command_line default_socket args of
             Inl status \<Rightarrow> Done (Inl status)
           | Inr config \<Rightarrow>
               after (bridge_setup around (b0\<lparr>b_config := config, b_memfd := - 1, b_readonly_memfd := - 1,
                   b_urgent_fd := - 1, b_listen_fd := - 1, b_client_fd := - 1, b_input_fd := - 1,
                   b_synthetic_timer_fd := - 1, b_mode := HFIOR_MODE_HFIOR, b_generation := 1\<rparr>))
                 (\<lambda>b1. case bridge_run fuel b1 of
                    None \<Rightarrow> Unfinished
                  | Some b2 \<Rightarrow> Done (Inr (finish_bridge b2)))))"

end
