(* ===== verification/Bridge_Process.thy ===== *)
theory Bridge_Process
  imports Bridge_Setup
begin

text \<open>
  What the bridge process does around its run: an accepted command line always gives an initialized
  ring, the socket listens only once it is restricted to the authorized user, and the statistics it
  reports are those of the log it published.
\<close>

section \<open>Outcomes\<close>

lemma need_done: "need what result store = Done b \<longleftrightarrow> (\<exists>n b1. result = (Some n, b1) \<and> b = store n b1)"
  by (cases result; cases "fst result") (auto simp: need_def)

lemma need_died: "need what result store = Died why \<longleftrightarrow> fst result = None \<and> why = what"
  by (cases result; cases "fst result") (auto simp: need_def)

lemma require_done: "require what result = Done b \<longleftrightarrow> fst result \<and> b = snd result"
  by (auto simp: require_def)

lemma require_died: "require what result = Died why \<longleftrightarrow> \<not> fst result \<and> why = what"
  by (auto simp: require_def)

lemmas outcome_iffs = after_done after_died need_done need_died require_done require_died

section \<open>What the calls leave alone\<close>

lemma fold_emit_trace: "k_trace (fold emit es k) = k_trace k @ es"
  by (induction es arbitrary: k) simp_all

text \<open>Only the kernel differs.\<close>

definition kernel_only :: "bridge \<Rightarrow> bridge \<Rightarrow> bool" where
  "kernel_only b b' \<longleftrightarrow> b' = b\<lparr>b_kernel := b_kernel b'\<rparr>"

lemma kernel_only_fields:
  assumes "kernel_only b b'"
  shows "b_config b' = b_config b" "b_stats b' = b_stats b" "b_ring b' = b_ring b" "b_listen_fd b' = b_listen_fd b"
    "b_authorized_uid b' = b_authorized_uid b" "b_mapping_size b' = b_mapping_size b" "same_core b b'"
    "b_input_fd b' = b_input_fd b" "b_generation b' = b_generation b"
proof -
  obtain k where b': "b' = b\<lparr>b_kernel := k\<rparr>" using assms unfolding kernel_only_def by blast
  show "b_config b' = b_config b" "b_stats b' = b_stats b" "b_ring b' = b_ring b" "b_listen_fd b' = b_listen_fd b"
    "b_authorized_uid b' = b_authorized_uid b" "b_mapping_size b' = b_mapping_size b" "same_core b b'"
    "b_input_fd b' = b_input_fd b" "b_generation b' = b_generation b"
    by (simp_all add: b' same_core_def)
qed

lemma kernel_only_trans: "kernel_only a b \<Longrightarrow> kernel_only b c \<Longrightarrow> kernel_only a c"
  unfolding kernel_only_def by (metis bridge.surjective bridge.update_convs(27))

lemma attempt_cases:
  assumes "attempt effects b = (result, b')"
  shows "kernel_only b b'"
    "k_trace (b_kernel b') = k_trace (b_kernel b) @ (case result of None \<Rightarrow> [] | Some n \<Rightarrow> effects n)"
  using assms
  by (auto simp: attempt_def on_kernel_def kernel_call_def kernel_only_def fold_emit_trace Let_def
      split: syscall.splits if_splits)

lemma emits_facts: "kernel_only b (emits es b)" "k_trace (b_kernel (emits es b)) = k_trace (b_kernel b) @ es"
  by (simp_all add: emits_def kernel_only_def fold_emit_trace)

section \<open>The listening socket\<close>

text \<open>C37: Setting up the listening socket either succeeds, and then the socket was bound, restricted to the
  authorized user and only after that set to listen, or it fails without ever listening, and then
  the descriptor it made is closed and the path it was bound to is removed.\<close>

theorem listening_socket_guarded:
  assumes "setup_listening_socket b = (ok, b')"
  shows "\<exists>effects. k_trace (b_kernel b') = k_trace (b_kernel b) @ effects \<and>
    (if ok then \<exists>fd before. effects = before @ [Bound fd (bc_socket_path (b_config b)),
         Restricted (bc_socket_path (b_config b)) (b_authorized_uid b), Listening fd] \<and>
       set before \<subseteq> {Unlinked (bc_socket_path (b_config b))} \<and> b_listen_fd b' = fd
     else b_listen_fd b' = b_listen_fd b \<and> (\<forall>fd. Listening fd \<notin> set effects) \<and>
       (effects = [] \<or> (\<exists>fd before. effects = before @ [Closed fd] \<and>
         (\<forall>bound. Bound bound (bc_socket_path (b_config b)) \<in> set before \<longrightarrow>
            bound = fd \<and> last before = Unlinked (bc_socket_path (b_config b))))))"
proof -
  let ?path = "bc_socket_path (b_config b)"
  obtain r1 b1 where a1: "attempt (\<lambda>_. []) b = (r1, b1)" by fastforce
  obtain r2 b2 where a2: "attempt (\<lambda>_. [Unlinked ?path]) b1 = (r2, b2)" by fastforce
  define fd where "fd = the r1"
  obtain r3 b3 where a3: "attempt (\<lambda>_. [Bound fd ?path]) b2 = (r3, b3)" by fastforce
  obtain r4 b4 where a4: "attempt (\<lambda>_. []) b3 = (r4, b4)" by fastforce
  have uid: "b_authorized_uid b4 = b_authorized_uid b"
    using kernel_only_fields(5) [OF attempt_cases(1) [OF a1]] kernel_only_fields(5) [OF attempt_cases(1) [OF a2]]
      kernel_only_fields(5) [OF attempt_cases(1) [OF a3]] kernel_only_fields(5) [OF attempt_cases(1) [OF a4]] by simp
  obtain r5 b5 where a5: "attempt (\<lambda>_. [Restricted ?path (b_authorized_uid b)]) b4 = (r5, b5)" by fastforce
  obtain r6 b6 where a6: "attempt (\<lambda>_. [Listening fd]) b5 = (r6, b6)" by fastforce
  note trace = attempt_cases(2) [OF a1] attempt_cases(2) [OF a2] attempt_cases(2) [OF a3] attempt_cases(2) [OF a4]
    attempt_cases(2) [OF a5] attempt_cases(2) [OF a6]
  note same = kernel_only_fields(4,5) [OF attempt_cases(1) [OF a1]] kernel_only_fields(4,5) [OF attempt_cases(1) [OF a2]]
    kernel_only_fields(4,5) [OF attempt_cases(1) [OF a3]] kernel_only_fields(4,5) [OF attempt_cases(1) [OF a4]]
    kernel_only_fields(4,5) [OF attempt_cases(1) [OF a5]] kernel_only_fields(4,5) [OF attempt_cases(1) [OF a6]]
  obtain unlinked where u: "k_trace (b_kernel b2) = k_trace (b_kernel b1) @ unlinked" "set unlinked \<subseteq> {Unlinked ?path}"
    using trace(2) by (cases r2) auto
  note em = emits_facts(2) kernel_only_fields(4) [OF emits_facts(1)]
  note run = assms [unfolded setup_listening_socket_def Let_def a1 a2 split_conv]
  show ?thesis
  proof (cases r1)
    case None
    then show ?thesis using run trace(1) same by auto
  next
    case (Some n)
    then have n: "n = fd" by (simp add: fd_def)
    note run = run [unfolded Some n option.case if_distrib a3 prod.case]
    consider "length ?path \<ge> 108" | "length ?path < 108" "r3 = None" | m where "length ?path < 108" "r3 = Some m"
      by (cases "length ?path \<ge> 108"; cases r3) auto
    then show ?thesis
    proof cases
      case 1
      then show ?thesis
        using run trace(1) Some same by (intro exI [of _ "[Closed fd]"]) (auto simp: em)
    next
      case 2
      then show ?thesis
        using run trace(1,3) Some same u by (intro exI [of _ "unlinked @ [Closed fd]"]) (auto simp: em)
    next
      case 3
      have undone: ?thesis if "ok = False" "b' = emits [Unlinked ?path, Closed fd] c" "b_listen_fd c = b_listen_fd b"
        "k_trace (b_kernel c) = k_trace (b_kernel b) @ unlinked @ Bound fd ?path # more"
        "set more \<subseteq> {Restricted ?path (b_authorized_uid b)}" for c more
      proof -
        let ?pre = "unlinked @ Bound fd ?path # more @ [Unlinked ?path]"
        have "Bound x ?path \<in> set ?pre \<Longrightarrow> x = fd" "Listening x \<notin> set (?pre @ [Closed fd])" for x
          using u(2) that(5) by auto
        moreover have "k_trace (b_kernel b') = k_trace (b_kernel b) @ ?pre @ [Closed fd]"
          "b_listen_fd b' = b_listen_fd b" "last ?pre = Unlinked ?path"
          using that(2-4) em by simp_all
        ultimately show ?thesis
          unfolding that(1) by (simp only: if_False) blast
      qed
      consider "r4 = None" | k4 where "r4 = Some k4" "r5 = None" | k4 k5 where "r4 = Some k4" "r5 = Some k5" "r6 = None"
        | k4 k5 k6 where "r4 = Some k4" "r5 = Some k5" "r6 = Some k6"
        by (cases r4; cases r5; cases r6) auto
      then show ?thesis
      proof cases
        case 1
        then show ?thesis
          using run trace(1,3,4) Some same u 3 by (intro undone [of b4 "[]"]) (auto simp: em a4)
      next
        case 2
        then show ?thesis
          using run trace(1,3-5) Some same u 3 by (intro undone [of b5 "[]"]) (auto simp: em a4 a5)
      next
        case (3 k4 k5)
        then show ?thesis
          using run trace(1,3-6) \<open>r1 = Some n\<close> same u \<open>r3 = Some m\<close> \<open>length ?path < 108\<close>
          by (intro undone [of b6 "[Restricted ?path (b_authorized_uid b)]"]) (auto simp: em a4 a5 a6)
      next
        case (4 k4 k5 k6)
        then show ?thesis
          using run trace(1,3-6) \<open>r1 = Some n\<close> same u \<open>r3 = Some m\<close> \<open>length ?path < 108\<close>
          by (intro exI [of _ "unlinked @ [Bound fd ?path, Restricted ?path (b_authorized_uid b), Listening fd]"])
            (auto simp: em a4 a5 a6)
      qed
    qed
  qed
qed

lemma listening_socket_guarded_witness:
  "\<exists>effects fd before. k_trace (b_kernel (snd (setup_listening_socket (demo_bridge quiet_kernel)))) = effects \<and>
     effects = before @ [Bound fd ''s'', Restricted ''s'' 1000, Listening fd] \<and> set before \<subseteq> {Unlinked ''s''}"
proof -
  have "fst (setup_listening_socket (demo_bridge quiet_kernel))" by code_simp
  then have "setup_listening_socket (demo_bridge quiet_kernel) =
      (True, snd (setup_listening_socket (demo_bridge quiet_kernel)))"
    by (simp add: prod_eq_iff)
  from listening_socket_guarded [OF this] show ?thesis
    by (auto simp: demo_bridge_def quiet_kernel_def)
qed

section \<open>The steps of the setup\<close>

text \<open>
  How a sequence of steps may end: in a state that satisfies \<open>good\<close>, or in one of the failures named.
\<close>

fun ends :: "('a \<Rightarrow> bool) \<Rightarrow> string set \<Rightarrow> 'a outcome \<Rightarrow> bool" where
  "ends good failures (Done x) \<longleftrightarrow> good x"
| "ends good failures (Died what) \<longleftrightarrow> what \<in> failures"
| "ends good failures Unfinished \<longleftrightarrow> False"

lemma ends_after:
  "ends good failures out \<Longrightarrow> (\<And>x. good x \<Longrightarrow> ends good' failures (f x)) \<Longrightarrow> ends good' failures (after out f)"
  by (cases out) simp_all

lemma ends_mono: "ends good failures out \<Longrightarrow> (\<And>x. good x \<Longrightarrow> good' x) \<Longrightarrow> ends good' failures out"
  by (cases out) simp_all

lemma ends_need:
  "what \<in> failures \<Longrightarrow> (\<And>n b1. result = (Some n, b1) \<Longrightarrow> good (store n b1)) \<Longrightarrow>
    ends good failures (need what result store)"
  by (cases result; cases "fst result") (auto simp: need_def)

lemma ends_require:
  "what \<in> failures \<Longrightarrow> (fst result \<Longrightarrow> good (snd result)) \<Longrightarrow> ends good failures (require what result)"
  by (simp add: require_def)

text \<open>What the setup never changes before the ring exists.\<close>

definition prepared :: "bridge \<Rightarrow> bridge \<Rightarrow> bool" where
  "prepared b b' \<longleftrightarrow> b_config b' = b_config b \<and> b_mapping_size b' = b_mapping_size b \<and>
     b_stats b' = b_stats b \<and> b_generation b' = b_generation b"

lemma prepared_attempt: "prepared c b \<Longrightarrow> attempt effects b = (result, b') \<Longrightarrow> prepared c b'"
  using kernel_only_fields(1,2,6,9) [OF attempt_cases(1) [of effects b result b']]
  by (simp add: prepared_def)

lemma prepared_open_input: "prepared c b \<Longrightarrow> prepared c (snd (open_input_device b))"
  by (auto simp: prepared_def open_input_device_def on_kernel_def split_def Let_def warn_def
      split: option.split sum.split)

lemma prepared_source_fields:
  "prepared c b \<Longrightarrow> prepared c (b\<lparr>b_synthetic_timer_fd := fd, b_input_id := device, b_device_name := name,
     b_source_ready := ready\<rparr>)"
  "prepared c b \<Longrightarrow> prepared c (b\<lparr>b_synthetic_timer_fd := fd\<rparr>)"
  by (simp_all add: prepared_def)

lemma prepared_synthetic:
  assumes "prepared c b"
  shows "prepared c (snd (setup_synthetic_source b))"
proof -
  obtain result b1 where a: "attempt (\<lambda>_. []) b = (result, b1)" by fastforce
  then have "prepared c b1" using assms prepared_attempt by blast
  then show ?thesis
    by (cases result) (simp_all only: setup_synthetic_source_def a prod.case option.case snd_conv prepared_source_fields)
qed

lemma ends_attempt:
  assumes "prepared c b" "what \<in> failures" "\<And>n b1. prepared c b1 \<Longrightarrow> prepared c (store n b1)"
  shows "ends (prepared c) failures (need what (attempt effects b) store)"
  using assms by (intro ends_need) (auto intro: prepared_attempt)

lemma ends_open_source:
  assumes "prepared c b" "{''open input device'', ''setup synthetic source''} \<subseteq> failures"
  shows "ends (prepared c) failures (open_source b)"
  unfolding open_source_def Let_def split_def
  using assms prepared_open_input [OF assms(1)] prepared_synthetic [OF assms(1)] by (simp add: ends_require)

text \<open>An accepted configuration gives a mapping of the size the initialization asks for.\<close>

lemma initialize_ring_accepted:
  assumes "config_accepted (b_config b)" "b_mapping_size b = hfior_mapping_size (bc_capacity (b_config b))"
  shows "fst (initialize_ring b) = Inr ()"
    "ring_capacity (b_ring (snd (initialize_ring b))) = unat (bc_capacity (b_config b))"
proof -
  let ?now = "fst (bridge_now b)" and ?c = "b_config (snd (bridge_now b))"
  have same: "b_config (snd (bridge_now b)) = b_config b" "b_mapping_size (snd (bridge_now b)) = b_mapping_size b"
    by (simp_all add: bridge_now_def on_kernel_def split_def Let_def)
  show "fst (initialize_ring b) = Inr ()"
    using assms by (auto simp: initialize_ring_def split_def Let_def same config_accepted_def
        hfior_initialize_mapping_def)
  then show "ring_capacity (b_ring (snd (initialize_ring b))) = unat (bc_capacity (b_config b))"
    by (auto simp: initialize_ring_def split_def Let_def same dest: initialize_mapping_ok(3) split: sum.splits)
qed

definition before_ring_failures :: "string set" where
  "before_ring_failures = {''memfd_create'', ''ftruncate memfd'', ''mmap ring'', ''eventfd'',
     ''open input device'', ''setup synthetic source''}"

definition ring_ready :: "bridge \<Rightarrow> bridge \<Rightarrow> bool" where
  "ring_ready b b' \<longleftrightarrow> b_config b' = b_config b \<and> bridge_inv [] b' \<and> attempts b' = 0"

lemma make_ring_rule:
  assumes "before_ring_failures \<subseteq> failures"
    "\<And>c. prepared (b\<lparr>b_authorized_uid := determine_authorized_uid (br_sudo_uid around) (br_uid around),
        b_mapping_size := hfior_mapping_size (bc_capacity (b_config b))\<rparr>) c \<Longrightarrow>
      ends good failures (let (result, b6) = initialize_ring c in require ''initialize ring'' (result = Inr (), b6))"
  shows "ends good failures (make_ring around b)"
proof -
  have names: "''memfd_create'' \<in> failures" "''ftruncate memfd'' \<in> failures" "''mmap ring'' \<in> failures"
    "''eventfd'' \<in> failures" "{''open input device'', ''setup synthetic source''} \<subseteq> failures"
    using assms(1) by (auto simp: before_ring_failures_def)
  let ?b = "b\<lparr>b_authorized_uid := determine_authorized_uid (br_sudo_uid around) (br_uid around),
                 b_mapping_size := hfior_mapping_size (bc_capacity (b_config b))\<rparr>"
  show ?thesis
    unfolding make_ring_def Let_def create_memfd_def
    by (intro ends_after [OF ends_attempt [of ?b]] ends_after [OF ends_open_source [of ?b]] names
          assms(2) [unfolded Let_def]; simp add: prepared_def)
qed

lemma make_ring_ends:
  assumes "b_stats b = zero_stats"
  shows "ends (ring_ready b) (before_ring_failures \<union> {''initialize ring''}) (make_ring around b)"
    and "config_accepted (b_config b) \<Longrightarrow>
      ends (\<lambda>b'. ring_ready b b' \<and> ring_capacity (b_ring b') = unat (bc_capacity (b_config b)))
        before_ring_failures (make_ring around b)"
proof -
  let ?b = "b\<lparr>b_authorized_uid := determine_authorized_uid (br_sudo_uid around) (br_uid around),
                 b_mapping_size := hfior_mapping_size (bc_capacity (b_config b))\<rparr>"
  have ready: "ring_ready b (snd (initialize_ring c))" if c: "prepared ?b c" "fst (initialize_ring c) = Inr ()" for c
  proof -
    have "initialize_ring c = (Inr (), snd (initialize_ring c))" using c(2) by (simp add: prod_eq_iff)
    moreover have "b_config (snd (initialize_ring c)) = b_config c"
      by (simp add: initialize_ring_def split_def Let_def bridge_now_def on_kernel_def split: sum.split)
    ultimately show ?thesis
      using c(1) assms initialize_ring_inv [of c "snd (initialize_ring c)"] by (simp add: ring_ready_def prepared_def)
  qed
  show "ends (ring_ready b) (before_ring_failures \<union> {''initialize ring''}) (make_ring around b)"
    by (rule make_ring_rule) (simp_all add: split_def Let_def require_def ready subset_insertI)
  show "ends (\<lambda>b'. ring_ready b b' \<and> ring_capacity (b_ring b') = unat (bc_capacity (b_config b)))
        before_ring_failures (make_ring around b)" if ok: "config_accepted (b_config b)"
  proof (rule make_ring_rule)
    fix c assume c: "prepared ?b c"
    then have fits: "config_accepted (b_config c)" "b_mapping_size c = hfior_mapping_size (bc_capacity (b_config c))"
      using ok by (simp_all add: prepared_def)
    show "ends (\<lambda>b'. ring_ready b b' \<and> ring_capacity (b_ring b') = unat (bc_capacity (b_config b)))
        before_ring_failures (let (result, b6) = initialize_ring c in require ''initialize ring'' (result = Inr (), b6))"
      using initialize_ring_accepted [OF fits] ready [OF c] c
      by (simp add: split_def require_def prepared_def)
  qed simp
qed

text \<open>C36: An accepted configuration never fails at the initialization of the ring: the size the mapping is
  given is the one the initialization asks for. The setup of the ring then ends in one of the
  failures of the system calls before it, or in an empty log of the capacity asked for, with
  counters that agree with the zeroed statistics.\<close>

theorem accepted_ring_is_empty_log:
  assumes "config_accepted (b_config b)" "b_stats b = zero_stats"
  shows "case make_ring around b of
      Done b' \<Rightarrow> ring_hist (b_ring b') [] \<and> ring_contents (b_ring b') = [] \<and>
        ring_capacity (b_ring b') = unat (bc_capacity (b_config b)) \<and>
        counters_agree (b_stats b') (b_ring b') \<and> b_config b' = b_config b
    | Died what \<Rightarrow> what \<in> {''memfd_create'', ''ftruncate memfd'', ''mmap ring'', ''eventfd'',
        ''open input device'', ''setup synthetic source''}
    | Unfinished \<Rightarrow> False"
proof -
  have "ring_contents h = []" if "ring_hist h []" for h
    using that by (simp add: ring_hist_def ring_contents_def copy_slots_def hfior_ring_depth_def unat_eq_zero)
  then show ?thesis
    using make_ring_ends(2) [OF assms(2,1), of around]
    by (cases "make_ring around b") (auto simp: ring_ready_def bridge_inv_def before_ring_failures_def)
qed

definition demo_bridge_surroundings :: bridge_surroundings where
  "demo_bridge_surroundings = \<lparr>br_runtime_dir = Some ''/run'', br_sudo_uid = None, br_uid = 1000,
     br_mkdir = None, br_accepted = Some 9, br_credentials = Inr \<lparr>uc_pid = 77, uc_uid = 1000, uc_gid = 1000\<rparr>,
     br_getfl = Some 2, br_setfl = Some, br_pid = 42\<rparr>"

section \<open>The report\<close>

lemma same_core_kernel_only: "kernel_only b b' \<Longrightarrow> same_core b b'"
  using kernel_only_fields by blast

text \<open>The rest of the setup leaves the ring as it is.\<close>

lemma attempt_core: "attempt effects c = (result, c') \<Longrightarrow> same_core b c \<Longrightarrow> same_core b c'"
  using same_core_trans same_core_kernel_only [OF attempt_cases(1)] by blast

lemma emits_core: "same_core b c \<Longrightarrow> same_core b (emits es c)"
  using same_core_trans same_core_kernel_only [OF emits_facts(1)] by blast

lemma listen_fd_core: "same_core b c \<Longrightarrow> same_core b (c\<lparr>b_listen_fd := fd\<rparr>)"
  by (simp add: same_core_def)

lemma listening_core: "same_core b (snd (setup_listening_socket b))"
proof -
  have refl: "same_core b b" by (simp add: same_core_def)
  show ?thesis
    unfolding setup_listening_socket_def Let_def
    by (auto split: prod.split option.split if_splits intro!: emits_core listen_fd_core
        elim!: attempt_core intro: refl)
qed

lemma setup_inv:
  assumes "b_stats b = zero_stats" "bridge_setup around b = Done b'"
  shows "bridge_inv [] b'" "attempts b' = 0"
proof -
  obtain b1 where made: "make_ring around b = Done b1" and core: "same_core b1 b'"
  proof -
    obtain b1 n2 b2 n3 b3 b4 b5 where steps: "make_ring around b = Done b1"
      "attempt (\<lambda>_. [Sealed (b_memfd b1)]) b1 = (Some n2, b2)" "reopen_memfd_read_only b2 = (Some n3, b3)"
      "open_raw_log (b3\<lparr>b_readonly_memfd := n3\<rparr>) = Done b4" "snd (setup_listening_socket b4) = b5"
      and last: "b' = snd (accept_client_and_send_hello (br_accepted around) (br_credentials around)
        (br_getfl around) (br_setfl around) (br_pid around)
        (if bc_quiet (b_config b5) then b5
         else warn (''HFIOR bridge ready at '' @ bc_socket_path (b_config b5) @ ''; source='' @
           (case bc_device_path (b_config b5) of Some path \<Rightarrow> path | None \<Rightarrow> b_device_name b5)) b5))"
      using assms(2) unfolding bridge_setup_def outcome_iffs Let_def by blast
    have 1: "same_core b1 b2" "same_core b2 b3"
      using attempt_core [OF steps(2)] attempt_core [OF steps(3) [unfolded reopen_memfd_read_only_def]]
      by (simp_all add: same_core_def)
    then have 3: "same_core b1 (b3\<lparr>b_readonly_memfd := n3\<rparr>)" by (simp add: same_core_def)
    have 4: "same_core c b4" if "open_raw_log c = Done b4" for c
      using that attempt_core [of "\<lambda>_. [Opened_output (the (bc_raw_log_path (b_config c)))]" c _ _ c]
      by (auto simp: open_raw_log_def need_done same_core_def split: option.splits)
    have "same_core b1 (warn line b5)" "same_core b1 b5" for line
      using same_core_trans [OF same_core_trans [OF 3 4 [OF steps(4)]] listening_core] steps(5)
      by (auto simp: same_core_def warn_def)
    then have "same_core b1 b'" unfolding last by (auto intro: same_core_trans [OF _ accept_core])
    with steps(1) show thesis by (rule that)
  qed
  have "ring_ready b b1" using make_ring_ends(1) [OF assms(1), of around] made by simp
  then show "bridge_inv [] b'" "attempts b' = 0"
    using core by (simp_all add: ring_ready_def same_core_def bridge_inv_def attempts_def)
qed

lemma stats_lines_kernel: "kernel_only b b' \<Longrightarrow> stats_lines b' = stats_lines b"
proof -
  have "stats_lines (b\<lparr>b_kernel := k\<rparr>) = stats_lines b" for k by (simp add: stats_lines_def Let_def del: decimal.simps)
  then show "kernel_only b b' \<Longrightarrow> stats_lines b' = stats_lines b" unfolding kernel_only_def by metis
qed

text \<open>The trace only grows.\<close>

definition grown :: "bridge \<Rightarrow> bridge \<Rightarrow> bool" where
  "grown b b' \<longleftrightarrow> b_ring b' = b_ring b \<and> b_stats b' = b_stats b \<and>
     set (k_trace (b_kernel b)) \<subseteq> set (k_trace (b_kernel b'))"

lemma grown_attempt: "attempt effects b = (result, b') \<Longrightarrow> grown b b'"
  using attempt_cases [of effects b result b'] kernel_only_fields [of b b'] by (auto simp: grown_def)

lemma grown_emits: "grown b (emits es b)"
  using emits_facts [where b = b and es = es] kernel_only_fields [of b "emits es b"] by (auto simp: grown_def)

lemma grown_warn: "grown b (warn text b)"
  by (auto simp: grown_def warn_def)

lemma grown_trans: "grown a b \<Longrightarrow> grown b c \<Longrightarrow> grown a c"
  by (auto simp: grown_def)

definition reported :: "string list \<Rightarrow> bridge \<Rightarrow> bool" where
  "reported rows b \<longleftrightarrow> Printed rows \<in> set (k_trace (b_kernel b)) \<or>
     (\<exists>path. Wrote_output path rows \<in> set (k_trace (b_kernel b)))"

lemma reported_grown: "reported rows b \<Longrightarrow> grown b b' \<Longrightarrow> reported rows b'"
  by (auto simp: reported_def grown_def)

lemma reported_emits: "reported rows (emits [Printed rows] b)" "reported rows (emits [Wrote_output path rows] b)"
  using emits_facts(2) by (auto simp: reported_def)

lemma write_stats_reports: "grown b (write_stats b) \<and> reported (stats_lines b) (write_stats b)"
proof (cases "bc_stats_path (b_config b)")
  case None
  then show ?thesis by (simp add: write_stats_def reported_emits grown_emits)
next
  case (Some path)
  obtain result b1 where a: "attempt (\<lambda>_. [Opened_output path]) b = (result, b1)" by fastforce
  have "stats_lines b1 = stats_lines b" by (rule stats_lines_kernel [OF attempt_cases(1) [OF a]])
  then show ?thesis
    using grown_trans [OF grown_attempt [OF a]] grown_trans [OF grown_warn grown_emits] grown_emits
    by (cases result) (simp_all add: write_stats_def Some a reported_emits)
qed

lemma grown_finish: "grown (write_stats b) (finish_bridge b)"
proof -
  have dump: "grown c (dump_publication_trace c)" for c
  proof (cases "bc_trace_path (b_config c)")
    case (Some path)
    obtain result c1 where a: "attempt (\<lambda>_. [Opened_output path]) c = (result, c1)" by fastforce
    show ?thesis
      using grown_trans [OF grown_attempt [OF a]] grown_warn grown_emits
      by (cases result) (simp_all add: dump_publication_trace_def Some a)
  qed (simp add: dump_publication_trace_def grown_def)
  have close: "grown c (close_bridge c)" for c
    unfolding close_bridge_def
    by (rule grown_trans [OF _ grown_emits]) (simp add: grown_def)
  show ?thesis unfolding finish_bridge_def by (rule grown_trans [OF dump close])
qed

lemma main_steps:
  assumes "bridge_main fuel around args b0 = Done (Inr b)" "b_stats b0 = zero_stats"
  obtains b1 b2 where "bridge_inv [] b1" "attempts b1 = 0" "bridge_run fuel b1 = Some b2" "b = finish_bridge b2"
proof -
  obtain config b1 b2 where made: "bridge_setup around (b0\<lparr>b_config := config, b_memfd := - 1,
        b_readonly_memfd := - 1, b_urgent_fd := - 1, b_listen_fd := - 1, b_client_fd := - 1, b_input_fd := - 1,
        b_synthetic_timer_fd := - 1, b_mode := HFIOR_MODE_HFIOR, b_generation := 1\<rparr>) = Done b1"
      
    and run: "bridge_run fuel b1 = Some b2" "b = finish_bridge b2"
    using assms by (auto simp: bridge_main_def after_done split: sum.splits option.splits)
  have "b_stats (b0\<lparr>b_config := config, b_memfd := - 1,
        b_readonly_memfd := - 1, b_urgent_fd := - 1, b_listen_fd := - 1, b_client_fd := - 1, b_input_fd := - 1,
        b_synthetic_timer_fd := - 1, b_mode := HFIOR_MODE_HFIOR, b_generation := 1\<rparr>) = zero_stats"
    using assms(2) by simp
  from setup_inv [OF this made] show thesis using run by (rule that)
qed

text \<open>C3: What the process prints is the truth of its ring: when \<open>main\<close> of a zeroed bridge comes to its
  end, it has printed or written statistics in which \<open>records_published\<close> and \<open>ring_head\<close> are both
  the number of records in the log it published, and \<open>ring_drops\<close> and \<open>ring_dropped_counter\<close> are
  both the number of sequence numbers up to \<open>records_attempted\<close> that are missing from that log.\<close>

theorem bridge_reports_run:
  assumes "bridge_main fuel around args b0 = Done (Inr b)" "b_stats b0 = zero_stats" "fuel \<le> 2 ^ 27"
  shows "\<exists>published attempted rows.
    ring_hist (b_ring b) published \<and> sorted_wrt (<) (map r_sequence published) \<and>
    (Printed rows \<in> set (k_trace (b_kernel b)) \<or> (\<exists>path. Wrote_output path rows \<in> set (k_trace (b_kernel b)))) \<and>
    (let missing = card ({1..attempted} - (unat \<circ> r_sequence) ` set published)
     in {stat_line ''records_attempted'' (decimal attempted),
         stat_line ''records_published'' (decimal (length published)),
         stat_line ''ring_head'' (decimal (length published)),
         stat_line ''ring_drops'' (decimal missing),
         stat_line ''ring_dropped_counter'' (decimal missing)} \<subseteq> set rows)"
proof -
  obtain b1 b2 where run: "bridge_inv [] b1" "attempts b1 = 0" "bridge_run fuel b1 = Some b2"
    and b: "b = finish_bridge b2"
    using main_steps [OF assms(1,2)] .
  obtain published where p: "ring_hist (b_ring b2) published" "sorted_wrt (<) (map r_sequence published)"
    "length published = unat (bs_records_published (b_stats b2))"
    "card ({1..unat (bs_records_attempted (b_stats b2))} - (unat \<circ> r_sequence) ` set published) =
      unat (bs_ring_drops (b_stats b2))"
    "ring_head (b_ring b2) = bs_records_published (b_stats b2)"
    "ring_dropped (b_ring b2) = bs_ring_drops (b_stats b2)"
    using run_accounts [OF run assms(3)] by blast
  have "grown b2 b" and told: "reported (stats_lines b2) b"
    using write_stats_reports [of b2] grown_finish [of b2] grown_trans reported_grown b by blast+
  then have ring: "b_ring b = b_ring b2" by (simp add: grown_def)
  have "{stat_line ''records_attempted'' (decimal (unat (bs_records_attempted (b_stats b2)))),
         stat_line ''records_published'' (decimal (length published)),
         stat_line ''ring_head'' (decimal (length published)),
         stat_line ''ring_drops'' (decimal (unat (bs_ring_drops (b_stats b2)))),
         stat_line ''ring_dropped_counter'' (decimal (unat (bs_ring_drops (b_stats b2))))} \<subseteq> set (stats_lines b2)"
    by (simp add: stats_lines_def Let_def unsigned_text_def p(3,5,6) del: decimal.simps)
  then show ?thesis
    using p(1,2,4) told
    by (intro exI [of _ published] exI [of _ "unat (bs_records_attempted (b_stats b2))"] exI [of _ "stats_lines b2"])
      (simp add: ring reported_def)
qed

section \<open>A process for evaluation\<close>

definition demo_config :: bridge_config where
  "demo_config = (default_bridge_config ''/run/hfior.sock'')
     \<lparr>bc_capacity := 64, bc_synthetic_rate_hz := 1000, bc_quiet := True\<rparr>"

lemma demo_command_line:
  "bridge_command_line ''/run/hfior.sock'' [''--capacity'', ''64'', ''--synthetic-rate'', ''1000'', ''--quiet''] =
     Inr demo_config"
proof -
  have "decimal 64 = ''64''" "decimal 1000 = ''1000''" by code_simp+
  then have "parse_u32 ''64'' = Some 64" "parse_u32 ''1000'' = Some 1000"
    using parse_u32_decimal [of 64] parse_u32_decimal [of 1000] by simp_all
  moreover have "config_accepted demo_config" by code_simp
  ultimately show ?thesis
    by (simp add: bridge_command_line_def bridge_value_option_def demo_config_def default_bridge_config_def)
qed

lemma accepted_ring_is_empty_log_witness:
  "\<exists>b'. make_ring demo_bridge_surroundings ((demo_bridge quiet_kernel)\<lparr>b_config := demo_config\<rparr>) = Done b' \<and>
     ring_hist (b_ring b') [] \<and> ring_capacity (b_ring b') = 64"
proof -
  let ?b = "(demo_bridge quiet_kernel)\<lparr>b_config := demo_config\<rparr>"
  have "config_accepted (b_config ?b)" "case make_ring demo_bridge_surroundings ?b of Done _ \<Rightarrow> True | _ \<Rightarrow> False"
    by code_simp+
  moreover have "b_stats ?b = zero_stats" by (simp add: demo_bridge_def)
  moreover have "bc_capacity (b_config ?b) = 64" by (simp add: demo_config_def)
  ultimately show ?thesis
    using accepted_ring_is_empty_log [of ?b demo_bridge_surroundings]
    by (cases "make_ring demo_bridge_surroundings ?b") simp_all
qed

lemma polls_kept:
  "k_polls (b_kernel (write_urgent b)) = k_polls (b_kernel b)"
  "k_polls (b_kernel (send_eager_record r b)) = k_polls (b_kernel b)"
  "k_polls (b_kernel (snd (bridge_now b))) = k_polls (b_kernel b)"
  "k_polls (b_kernel (publish_record r b)) = k_polls (b_kernel b)"
proof -
  show u: "k_polls (b_kernel (write_urgent b)) = k_polls (b_kernel b)" for b
    by (simp add: write_urgent_def kernel_ask_defs split_def Let_def warn_def split: syscall.split)
  have f: "k_polls (snd (hfior_send_fds fd bytes fds flags k)) = k_polls k" for fd bytes fds flags k
    by (auto simp: hfior_send_fds_def kernel_ask_defs split_def Let_def split: syscall.split)
  show e: "k_polls (b_kernel (send_eager_record r b)) = k_polls (b_kernel b)" for r b
    by (simp add: send_eager_record_def u f on_kernel_def split_def Let_def warn_def split: sum.split)
  show n: "k_polls (b_kernel (snd (bridge_now b))) = k_polls (b_kernel b)" for b
    by (simp add: bridge_now_def on_kernel_def hfior_now_ns_def split_def Let_def)
  have a: "k_polls (b_kernel (snd (snd (attempt_publication r b)))) = k_polls (b_kernel b)"
    by (simp add: attempt_publication_def trace_publication_def n split_def Let_def)
  have "k_polls (b_kernel (account_record_flags r b)) = k_polls (b_kernel b)" for r b
    by (simp add: account_record_flags_def)
  then show "k_polls (b_kernel (publish_record r b)) = k_polls (b_kernel b)"
    by (simp add: publish_record_def u e a split_def Let_def)
qed

definition stopped_kernel :: kernel where
  "stopped_kernel = quiet_kernel\<lparr>k_calls := (\<lambda>n. Returned (if n = 13 then 40 else 8)),
     k_polls := (\<lambda>_. Poll_failed EIO)\<rparr>"

text \<open>The bridge of a process that was told to stop before its loop.\<close>

definition demo_zeroed :: bridge where
  "demo_zeroed = (demo_bridge stopped_kernel)\<lparr>b_stop_requested := True, b_config := demo_config, b_memfd := - 1, b_readonly_memfd := - 1,
     b_urgent_fd := - 1, b_listen_fd := - 1, b_client_fd := - 1, b_input_fd := - 1, b_synthetic_timer_fd := - 1,
     b_mode := HFIOR_MODE_HFIOR, b_generation := 1\<rparr>"

fun done_with :: "'a outcome \<Rightarrow> 'a option" where
  "done_with (Done x) = Some x"
| "done_with (Died what) = None"
| "done_with Unfinished = None"

definition demo_started :: bridge where
  "demo_started = the (done_with (bridge_setup demo_bridge_surroundings demo_zeroed))"

lemma demo_process_run: "bridge_run 3 demo_started \<noteq> None"
proof -
  have stop: "b_stop_requested demo_started" by code_simp
  then have 1: "wait_for_start_barrier 3 False demo_started = Some (True, demo_started)"
    "bridge_loop 3 demo_started 0 = Some (Break demo_started)"
    by (simp_all add: eval_nat_numeral)
  have polls: "k_polls (b_kernel demo_started) n = Poll_failed EIO" for n
    by code_simp
  have "wait_for_terminal_ack 3 deadline b \<noteq> None" if "k_polls (b_kernel b) = k_polls (b_kernel demo_started)"
    for deadline b
    using that polls polls_kept(3) [of b]
    by (simp add: eval_nat_numeral split_def Let_def poll_bridge_def on_kernel_def kernel_ask_defs)
  then have ended: "wait_for_terminal_ack 3 deadline b = None \<longleftrightarrow> False"
    if "k_polls (b_kernel b) = k_polls (b_kernel demo_started)" for deadline b
    using that by blast
  show ?thesis
    by (simp add: bridge_run_def 1 shutdown_bridge_def Let_def split_def polls_kept ended split: option.split)
qed

definition demo_ended :: bridge where
  "demo_ended = finish_bridge (the (bridge_run 3 demo_started))"

lemma demo_process:
  "bridge_main 3 demo_bridge_surroundings [''--capacity'', ''64'', ''--synthetic-rate'', ''1000'', ''--quiet'']
     ((demo_bridge stopped_kernel)\<lparr>b_stop_requested := True\<rparr>) = Done (Inr demo_ended)"
proof -
  have "hfior_make_runtime_socket_path (br_runtime_dir demo_bridge_surroundings) (br_uid demo_bridge_surroundings)
      (br_mkdir demo_bridge_surroundings) 108 ''hfior.sock'' = Inr ''/run/hfior.sock''"
    by code_simp
  moreover have "done_with (bridge_setup demo_bridge_surroundings demo_zeroed) \<noteq> None"
  proof -
    have "\<not> Option.is_none (done_with (bridge_setup demo_bridge_surroundings demo_zeroed))" by code_simp
    then show ?thesis by (cases "done_with (bridge_setup demo_bridge_surroundings demo_zeroed)") simp_all
  qed
  then have "bridge_setup demo_bridge_surroundings demo_zeroed = Done demo_started"
    by (cases "bridge_setup demo_bridge_surroundings demo_zeroed") (simp_all add: demo_started_def)
  moreover obtain b where "bridge_run 3 demo_started = Some b" using demo_process_run by blast
  ultimately show ?thesis
    by (simp add: bridge_main_def demo_command_line demo_zeroed_def demo_ended_def)
qed

lemma bridge_reports_run_witness:
  "\<exists>published rows. ring_hist (b_ring demo_ended) published \<and>
    (Printed rows \<in> set (k_trace (b_kernel demo_ended)) \<or>
      (\<exists>path. Wrote_output path rows \<in> set (k_trace (b_kernel demo_ended)))) \<and>
    stat_line ''records_published'' (decimal (length published)) \<in> set rows"
proof -
  have "b_stats ((demo_bridge stopped_kernel)\<lparr>b_stop_requested := True\<rparr>) = zero_stats" "(3::nat) \<le> 2 ^ 27" by (simp_all add: demo_bridge_def)
  from bridge_reports_run [OF demo_process this] show ?thesis
    by (auto simp: Let_def simp del: decimal.simps)
qed

end
