(* ===== verification/Examples.thy ===== *)
theory Examples
  imports Policy Numbers
begin

text \<open>
  The programs of \<open>examples/\<close>: each makes a ring of eight records in its own memory, publishes to it and
  reads it the way one kind of consumer does. A failed \<open>assert\<close> is \<open>None\<close>; the result is the lines
  printed. \<open>memory\<close> is what \<open>aligned_alloc\<close> returned, with whatever is in it.
\<close>

section \<open>The programs\<close>

definition example_ring :: "hfior_ring_header option \<Rightarrow> u64 \<Rightarrow> u64 \<Rightarrow> hfior_ring_header option" where
  "example_ring memory features now =
     (if memory = None then None
      else
        case hfior_initialize_mapping memory (hfior_mapping_size 8) 8 features (Some ''example'') 0 0 0 0 1 now of
          Inl _ \<Rightarrow> None
        | Inr ring \<Rightarrow> Some ring)"

definition assert_published :: "hfior_record \<Rightarrow> hfior_ring_header \<Rightarrow> hfior_ring_header option" where
  "assert_published r ring =
     (let (published, ring1) = hfior_ring_publish ring r in if published then Some ring1 else None)"

definition motion :: "u64 \<Rightarrow> u64 \<Rightarrow> int \<Rightarrow> int \<Rightarrow> hfior_record" where
  "motion sequence timestamp_ns dx dy = zero_record\<lparr>r_sequence := sequence, r_timestamp_ns := timestamp_ns,
     r_dx := word_of_int dx, r_dy := word_of_int dy, r_flags := HFIOR_RECORD_MOTION\<rparr>"

definition minimal_main :: "hfior_ring_header option \<Rightarrow> u64 \<Rightarrow> string list option" where
  "minimal_main memory now =
     Option.bind (example_ring memory HFIOR_FEAT_MONOTONIC_CLOCK now) (\<lambda>ring.
     Option.bind (assert_published (motion 1 100 3 (- 1)) ring) (\<lambda>ring1.
       case hfior_ring_read_snapshot (Some ring1) (Some 0) False 1 of
         Inr ([output], _) \<Rightarrow>
           Some [''sequence='' @ unsigned_text (r_sequence output) @ '' timestamp='' @
             unsigned_text (r_timestamp_ns output) @ '' dx='' @ signed_text (sint (r_dx output)) @
             '' dy='' @ signed_text (sint (r_dy output))]
       | _ \<Rightarrow> None))"

text \<open>The loop over the history: the lines, with the sum so far.\<close>

fun integrate :: "int \<Rightarrow> hfior_record list \<Rightarrow> string list" where
  "integrate integrated_x [] = []"
| "integrate integrated_x (r # rs) =
     (let x = integrated_x + sint (r_dx r)
      in (''t='' @ unsigned_text (r_timestamp_ns r) @ '' dx='' @ signed_text (sint (r_dx r)) @
          '' integrated='' @ signed_text x) # integrate x rs)"

definition full_history_main :: "hfior_ring_header option \<Rightarrow> u64 \<Rightarrow> string list option" where
  "full_history_main memory now =
     Option.bind (example_ring memory 0 now) (\<lambda>ring.
     Option.bind (assert_published (motion 1 100 3 0) ring) (\<lambda>ring1.
     Option.bind (assert_published (motion 2 200 (- 3) 0) ring1) (\<lambda>ring2.
       case hfior_ring_read_snapshot (Some ring2) (Some 0) False 8 of
         Inr (history, _) \<Rightarrow> if length history = 2 then Some (integrate 0 history) else None
       | Inl _ \<Rightarrow> None)))"

definition late_latch_main :: "hfior_ring_header option \<Rightarrow> u64 \<Rightarrow> string list option" where
  "late_latch_main memory now =
     Option.bind (example_ring memory 0 now) (\<lambda>ring.
       case hfior_cursor_init False (Some ring) (- 1) 1 False of
         Inl _ \<Rightarrow> None
       | Inr cursor \<Rightarrow>
           Option.bind (assert_published (motion 1 100 2 0) ring) (\<lambda>ring1.
             case hfior_cursor_drain False cursor ring1 False 8 of
               (Inr [first], cursor1) \<Rightarrow>
                 Option.bind (assert_published (motion 2 200 (- 1) 0) ring1) (\<lambda>ring2.
                   case hfior_cursor_stable_latch False cursor1 (\<lambda>_. ring2) False 8 2 of
                     (Inr [late], _) \<Rightarrow>
                       Some [''camera_x='' @ signed_text (sint (r_dx first) + sint (r_dx late)) @
                         '' late_records='' @ signed_text 1]
                   | _ \<Rightarrow> None)
             | _ \<Rightarrow> None))"

section \<open>What they print\<close>

text \<open>What the memory held before, and the clock, do not matter.\<close>

lemma example_ring_any: "example_ring (Some memory) features now = example_ring (Some demo_ring) features now"
  by (simp add: example_ring_def hfior_initialize_mapping_def)

lemma minimal_prints: "minimal_main (Some memory) now = Some [''sequence=1 timestamp=100 dx=3 dy=-1'']"
  unfolding minimal_main_def example_ring_any [of memory] by code_simp

lemma full_history_prints:
  "full_history_main (Some memory) now = Some [''t=100 dx=3 integrated=3'', ''t=200 dx=-3 integrated=0'']"
  unfolding full_history_main_def example_ring_any [of memory] by code_simp

lemma late_latch_prints: "late_latch_main (Some memory) now = Some [''camera_x=1 late_records=1'']"
  unfolding late_latch_main_def example_ring_any [of memory] by code_simp

end
