(* ===== verification/Evdev_Probe.thy ===== *)
theory Evdev_Probe
  imports Bridge_Main
begin

text \<open>
  \<open>tools/evdev/evdev-rate-probe.c\<close>: a program that reads an input device for some seconds and prints how
  many events and frames it delivered and how far apart the frames were.
\<close>

section \<open>State\<close>

record probe =
  ep_kernel :: kernel
  ep_raw :: "string list option"
  ep_events :: u64
  ep_frames :: u64
  ep_rels :: u64
  ep_buttons :: u64
  ep_dups :: u64
  ep_prev :: u64
  ep_intervals :: hfior_u64_vec

definition ask :: "(kernel \<Rightarrow> 'a \<times> kernel) \<Rightarrow> probe \<Rightarrow> 'a \<times> probe" where
  "ask call p = (let (answer, k) = call (ep_kernel p) in (answer, p\<lparr>ep_kernel := k\<rparr>))"

text \<open>\<open>mono\<close>: a clock that cannot be read ends the process.\<close>

definition mono_ns :: "probe \<Rightarrow> (u64 \<times> probe) outcome" where
  "mono_ns p =
     (let (t, p1) = ask (hfior_now_ns CLOCK_MONOTONIC) p
      in if k_clock (ep_kernel p) CLOCK_MONOTONIC (k_clock_reads (ep_kernel p)) = None then Died ''clock''
         else Done (t, p1))"

definition evns :: "input_event \<Rightarrow> u64" where
  "evns e = word_of_int (ev_sec e) * 1000000000 + word_of_int (ev_usec e) * 1000"

text \<open>\<open>push\<close>; whether \<open>realloc\<close> succeeds is the answer of a call.\<close>

definition push :: "u64 \<Rightarrow> probe \<Rightarrow> probe outcome" where
  "push x p =
     (let vec = ep_intervals p; data = v_data vec
      in if length data = v_capacity vec
         then let c = (if v_capacity vec \<noteq> 0 then v_capacity vec * 2 else 8192);
                  (answer, p1) = ask kernel_call p
              in case answer of
                   Returned _ \<Rightarrow> Done (p1\<lparr>ep_intervals := \<lparr>v_data = data @ [x], v_capacity = c\<rparr>\<rparr>)
                 | _ \<Rightarrow> Died ''realloc''
         else Done (p\<lparr>ep_intervals := vec\<lparr>v_data := data @ [x]\<rparr>\<rparr>))"

section \<open>Counting\<close>

definition is_syn_report :: "input_event \<Rightarrow> bool" where
  "is_syn_report e \<longleftrightarrow> ev_type e = EV_SYN \<and> ev_code e = SYN_REPORT"

text \<open>A report: the interval since the one before, or a repeated time.\<close>

definition frame_seen :: "u64 \<Rightarrow> probe \<Rightarrow> probe outcome" where
  "frame_seen t p =
     (let p1 = p\<lparr>ep_frames := ep_frames p + 1\<rparr>
      in after (if ep_prev p1 \<noteq> 0
                then if t = ep_prev p1 then Done (p1\<lparr>ep_dups := ep_dups p1 + 1\<rparr>)
                     else if t > ep_prev p1 then push (t - ep_prev p1) p1
                     else Done p1
                else Done p1)
           (\<lambda>p2. Done (p2\<lparr>ep_prev := t\<rparr>)))"

definition raw_row :: "u64 \<Rightarrow> input_event \<Rightarrow> string" where
  "raw_row r e = commas [unsigned_text r, signed_text (ev_sec e), signed_text (ev_usec e),
     decimal (unat (ev_type e)), decimal (unat (ev_code e)), signed_text (sint (ev_value e))]"

definition count_event :: "u64 \<Rightarrow> input_event \<Rightarrow> probe \<Rightarrow> probe" where
  "count_event r e p =
     (let p1 = p\<lparr>ep_events := ep_events p + 1\<rparr>;
          p2 = (if ev_type e = EV_REL then p1\<lparr>ep_rels := ep_rels p1 + 1\<rparr> else p1);
          p3 = (if ev_type e = EV_KEY then p2\<lparr>ep_buttons := ep_buttons p2 + 1\<rparr> else p2)
      in p3\<lparr>ep_raw := map_option (\<lambda>rows. rows @ [raw_row r e]) (ep_raw p3)\<rparr>)"

definition probe_event :: "input_event \<Rightarrow> probe \<Rightarrow> probe outcome" where
  "probe_event e p =
     after (mono_ns p) (\<lambda>(r, p1).
       let p2 = count_event r e p1
       in if is_syn_report e then frame_seen (evns e) p2 else Done p2)"

fun probe_events :: "input_event list \<Rightarrow> probe \<Rightarrow> probe outcome" where
  "probe_events [] p = Done p"
| "probe_events (e # es) p = after (probe_event e p) (probe_events es)"

definition probe_buffer :: nat where "probe_buffer = 256"

text \<open>The loop, until \<open>end_ns\<close>.\<close>

fun probe_loop :: "nat \<Rightarrow> u64 \<Rightarrow> probe \<Rightarrow> probe outcome" where
  "probe_loop 0 end_ns p = Unfinished"
| "probe_loop (Suc fuel) end_ns p =
     after (mono_ns p) (\<lambda>(now, p1).
       if \<not> now < end_ns then Done p1
       else
         let (answer, p2) = ask kernel_poll p1;
             p3 = p2\<lparr>ep_kernel := emit (Polled 100) (ep_kernel p2)\<rparr>
         in case answer of
              Poll_interrupted _ \<Rightarrow> probe_loop fuel end_ns p3
            | Poll_failed _ \<Rightarrow> Died ''poll''
            | Poll_timeout \<Rightarrow> probe_loop fuel end_ns p3
            | Poll_ready revents \<Rightarrow>
                if revents_at 0 revents AND POLLIN = 0 then probe_loop fuel end_ns p3
                else
                  let (result, p4) = ask kernel_read p3
                  in case result of
                       Read_events es \<Rightarrow>
                         after (probe_events (take probe_buffer es) p4) (probe_loop fuel end_ns)
                     | Read_ragged \<Rightarrow> Died ''short record''
                     | Read_eof \<Rightarrow> probe_loop fuel end_ns p4
                     | Read_interrupted \<Rightarrow> probe_loop fuel end_ns p4
                     | Read_failed e \<Rightarrow> if e = EAGAIN then probe_loop fuel end_ns p4 else Died ''read'')"

section \<open>The report\<close>

text \<open>\<open>llround\<close> of a nonnegative number, and the percentile of nanoseconds in microseconds.\<close>

definition llround :: "rat \<Rightarrow> nat" where "llround x = nat \<lfloor>x + 1 / 2\<rfloor>"

definition pct_index :: "nat \<Rightarrow> rat \<Rightarrow> nat" where
  "pct_index n p = llround (round_double (p * double_of_nat (n - 1)))"

definition pct :: "u64 list \<Rightarrow> rat \<Rightarrow> double_value" where
  "pct data p =
     (if data = [] then Not_a_number
      else Finite (divided (double_of_u64 (sort data ! pct_index (length data) p)) 1000))"

definition double_text :: "double_value \<Rightarrow> string" where
  "double_text v = (case v of Finite x \<Rightarrow> fixed_text 3 x | Infinite \<Rightarrow> ''inf'' | Not_a_number \<Rightarrow> ''nan'')"

text \<open>A number of events over the time; the quotient of zeros is printed as on x86-64.\<close>

definition rate_text :: "u64 \<Rightarrow> rat \<Rightarrow> string" where
  "rate_text n elapsed =
     (if elapsed = 0 then (if n = 0 then ''-nan'' else ''inf'')
      else fixed_text 3 (divided (double_of_u64 n) elapsed))"

definition probe_report :: "string \<Rightarrow> rat \<Rightarrow> probe \<Rightarrow> string list" where
  "probe_report device elapsed p =
     (let data = v_data (ep_intervals p)
      in [''device,seconds,events,events_per_s,frames,frames_per_s,rel_events,button_events,duplicate_timestamp_frames,p50_frame_interval_us,p99_frame_interval_us,min_frame_interval_us,max_frame_interval_us'',
          commas [device, fixed_text 6 elapsed, unsigned_text (ep_events p), rate_text (ep_events p) elapsed,
            unsigned_text (ep_frames p), rate_text (ep_frames p) elapsed, unsigned_text (ep_rels p),
            unsigned_text (ep_buttons p), unsigned_text (ep_dups p),
            double_text (pct data (1 / 2)), double_text (pct data (round_double (99 / 100))),
            double_text (pct data 0), double_text (pct data 1)]])"

section \<open>The program\<close>

text \<open>
  The time to run, \<open>(uint64_t)(sec * 1e9)\<close>: C leaves it undefined for what is below 0 or not below \<open>2^64\<close>
  (here it is what an x86-64 processor gives for infinities and NaN, and modulo \<open>2^64\<close> for the rest).
\<close>

definition probe_seconds :: "string option \<Rightarrow> double_value" where
  "probe_seconds argument =
     (case argument of
        None \<Rightarrow> Finite 10
      | Some text \<Rightarrow>
          (case strtod text of
             (negative, Finite x, _) \<Rightarrow> Finite (if negative then - x else x)
           | (_, other, _) \<Rightarrow> other))"

definition probe_duration :: "double_value \<Rightarrow> u64" where
  "probe_duration sec =
     (case sec of
        Finite x \<Rightarrow> let y = round_double (x * 1000000000)
                    in word_of_int (if y < 0 then - \<lfloor>- y\<rfloor> else \<lfloor>y\<rfloor>)
      | _ \<Rightarrow> 0x8000000000000000)"

text \<open>A call whose failure ends the process: the descriptor it returned.\<close>

definition probe_open :: "string \<Rightarrow> effect list \<Rightarrow> probe \<Rightarrow> (int \<times> probe) outcome" where
  "probe_open what effects p =
     (let (answer, p1) = ask kernel_call p
      in case answer of
           Returned n \<Rightarrow>
             if n < 0 then Died what else Done (n, p1\<lparr>ep_kernel := fold emit effects (ep_kernel p1)\<rparr>)
         | _ \<Rightarrow> Died what)"

definition fresh_probe :: "kernel \<Rightarrow> probe" where
  "fresh_probe k = \<lparr>ep_kernel = k, ep_raw = None, ep_events = 0, ep_frames = 0, ep_rels = 0, ep_buttons = 0,
     ep_dups = 0, ep_prev = 0, ep_intervals = \<lparr>v_data = [], v_capacity = 0\<rparr>\<rparr>"

definition open_raw :: "string option \<Rightarrow> probe \<Rightarrow> probe outcome" where
  "open_raw path p =
     (case path of
        None \<Rightarrow> Done p
      | Some name \<Rightarrow> after (probe_open ''fopen'' [Opened_output name] p) (\<lambda>(_, p1).
          Done (p1\<lparr>ep_raw := Some [''receive_mono_ns,event_sec,event_usec,type,code,value'']\<rparr>)))"

definition probe_close :: "string option \<Rightarrow> int \<Rightarrow> string list \<Rightarrow> probe \<Rightarrow> probe" where
  "probe_close path fd report p =
     p\<lparr>ep_kernel := fold emit
         ([Printed report] @
          (case (path, ep_raw p) of (Some name, Some rows) \<Rightarrow> [Wrote_output name rows] | _ \<Rightarrow> []) @
          [Closed fd]) (ep_kernel p),
       ep_intervals := \<lparr>v_data = [], v_capacity = 0\<rparr>\<rparr>"

text \<open>\<open>main\<close>; \<open>args\<close> are the arguments after the program's name. \<open>Inl\<close> is the exit status of a misuse.\<close>

definition probe_main :: "nat \<Rightarrow> string list \<Rightarrow> kernel \<Rightarrow> (nat + probe) outcome" where
  "probe_main fuel args k =
     (if length args < 1 \<or> length args > 3 then Done (Inl 2)
      else
        let device = args ! 0;
            sec = probe_seconds (if length args > 1 then Some (args ! 1) else None);
            path = (if length args = 3 then Some (args ! 2) else None)
        in after (open_raw path (fresh_probe k)) (\<lambda>p1.
           after (probe_open ''open'' [] p1) (\<lambda>(fd, p2).
           after (mono_ns p2) (\<lambda>(start, p3).
           after (probe_loop fuel (start + probe_duration sec) p3) (\<lambda>p4.
           after (mono_ns p4) (\<lambda>(finish, p5).
             let elapsed = divided (double_of_u64 (finish - start)) 1000000000
             in Done (Inr (probe_close path fd (probe_report device elapsed p5) p5))))))))"

section \<open>What it counts\<close>

text \<open>The events of a read, and of the reads from the \<open>i\<close>-th up to the \<open>j\<close>-th.\<close>

definition read_batch :: "device_read \<Rightarrow> input_event list" where
  "read_batch answer = (case answer of Read_events es \<Rightarrow> take probe_buffer es | _ \<Rightarrow> [])"

definition events_between :: "kernel \<Rightarrow> nat \<Rightarrow> nat \<Rightarrow> input_event list" where
  "events_between k i j = concat (map (\<lambda>n. read_batch (k_reads k n)) [i..<j])"

lemma events_between_append: "i \<le> j \<Longrightarrow> j \<le> l \<Longrightarrow> events_between k i j @ events_between k j l = events_between k i l"
  unfolding events_between_def by (metis concat_append le_Suc_ex map_append upt_add_eq_append)

lemma events_between_one [simp]: "events_between k i i = []" "events_between k i (Suc i) = read_batch (k_reads k i)"
  by (simp_all add: events_between_def)

text \<open>The times of the reports, the gaps between neighbouring ones that increase, and the repetitions.\<close>

definition report_times :: "input_event list \<Rightarrow> u64 list" where
  "report_times es = map evns (filter is_syn_report es)"

definition gaps :: "u64 \<Rightarrow> u64 list \<Rightarrow> u64 list" where
  "gaps prev ts = map (\<lambda>(a, b). b - a) (filter (\<lambda>(a, b). a \<noteq> 0 \<and> a < b) (zip (prev # ts) ts))"

definition repeats :: "u64 \<Rightarrow> u64 list \<Rightarrow> nat" where
  "repeats prev ts = length (filter (\<lambda>(a, b). a \<noteq> 0 \<and> a = b) (zip (prev # ts) ts))"

lemma zip_neighbours: "zip (prev # ts @ us) (ts @ us) = zip (prev # ts) ts @ zip (last (prev # ts) # us) us"
  by (induction ts arbitrary: prev) auto

lemma gaps_append: "gaps prev (ts @ us) = gaps prev ts @ gaps (last (prev # ts)) us"
  by (simp only: gaps_def zip_neighbours filter_append map_append)

lemma repeats_append: "repeats prev (ts @ us) = repeats prev ts + repeats (last (prev # ts)) us"
  by (simp only: repeats_def zip_neighbours filter_append length_append)

definition tallied :: "input_event list \<Rightarrow> probe \<Rightarrow> probe \<Rightarrow> bool" where
  "tallied es p q \<longleftrightarrow>
     ep_events q = ep_events p + of_nat (length es) \<and>
     ep_rels q = ep_rels p + of_nat (length (filter (\<lambda>e. ev_type e = EV_REL) es)) \<and>
     ep_buttons q = ep_buttons p + of_nat (length (filter (\<lambda>e. ev_type e = EV_KEY) es)) \<and>
     ep_frames q = ep_frames p + of_nat (length (report_times es)) \<and>
     ep_dups q = ep_dups p + of_nat (repeats (ep_prev p) (report_times es)) \<and>
     v_data (ep_intervals q) = v_data (ep_intervals p) @ gaps (ep_prev p) (report_times es) \<and>
     ep_prev q = last (ep_prev p # report_times es) \<and>
     k_reads (ep_kernel q) = k_reads (ep_kernel p)"

lemma tallied_append: "tallied es p q \<Longrightarrow> tallied es' q r \<Longrightarrow> tallied (es @ es') p r"
  by (simp add: tallied_def report_times_def gaps_append repeats_append last_append)

lemma tallied_none:
  "tallied [] p q \<longleftrightarrow> ep_events q = ep_events p \<and> ep_rels q = ep_rels p \<and> ep_buttons q = ep_buttons p \<and>
     ep_frames q = ep_frames p \<and> ep_dups q = ep_dups p \<and> v_data (ep_intervals q) = v_data (ep_intervals p) \<and>
     ep_prev q = ep_prev p \<and> k_reads (ep_kernel q) = k_reads (ep_kernel p)"
  by (simp add: tallied_def report_times_def gaps_def repeats_def)

lemma mono_ns_done:
  assumes "mono_ns p = Done (t, q)"
  shows "q = p\<lparr>ep_kernel := (ep_kernel p)\<lparr>k_clock_reads := Suc (k_clock_reads (ep_kernel p))\<rparr>\<rparr>"
  using assms by (auto simp: mono_ns_def ask_def hfior_now_ns_def Let_def split: if_splits)

text \<open>What \<open>push\<close> may change besides the intervals.\<close>

lemma push_done:
  assumes "push x p = Done q"
  obtains calls capacity where "q = p\<lparr>ep_kernel := (ep_kernel p)\<lparr>k_calls_made := calls\<rparr>,
     ep_intervals := \<lparr>v_data = v_data (ep_intervals p) @ [x], v_capacity = capacity\<rparr>\<rparr>"
proof (cases "length (v_data (ep_intervals p)) = v_capacity (ep_intervals p)")
  case True
  then show thesis
    using assms that [where calls = "Suc (k_calls_made (ep_kernel p))" and
        capacity = "if v_capacity (ep_intervals p) \<noteq> 0 then v_capacity (ep_intervals p) * 2 else 8192"]
    by (auto simp: push_def ask_def kernel_call_def Let_def split: syscall.splits)
next
  case False
  have "ep_intervals p\<lparr>v_data := d\<rparr> = \<lparr>v_data = d, v_capacity = v_capacity (ep_intervals p)\<rparr>" for d by simp
  with False show thesis
    using assms that [where calls = "k_calls_made (ep_kernel p)" and
        capacity = "v_capacity (ep_intervals p)"]
    by (auto simp: push_def Let_def)
qed

lemma frame_seen_tallied:
  assumes "frame_seen t p = Done q"
  shows "ep_frames q = ep_frames p + 1" "ep_events q = ep_events p" "ep_rels q = ep_rels p" "ep_buttons q = ep_buttons p"
    "ep_dups q = ep_dups p + of_nat (repeats (ep_prev p) [t])" "ep_prev q = t"
    "v_data (ep_intervals q) = v_data (ep_intervals p) @ gaps (ep_prev p) [t]"
    "k_reads (ep_kernel q) = k_reads (ep_kernel p)" "k_reads_made (ep_kernel q) = k_reads_made (ep_kernel p)"
  using assms
  by (auto simp: frame_seen_def repeats_def gaps_def Let_def split: if_splits elim!: push_done
      dest!: after_done [THEN iffD1])

lemma probe_event_tallied:
  assumes "probe_event e p = Done q"
  shows "tallied [e] p q" "k_reads_made (ep_kernel q) = k_reads_made (ep_kernel p)"
proof -
  obtain r p1 where m: "mono_ns p = Done (r, p1)"
    and rest: "(if is_syn_report e then frame_seen (evns e) (count_event r e p1) else Done (count_event r e p1)) = Done q"
    using assms by (auto simp: probe_event_def after_done Let_def)
  note p1 = mono_ns_done [OF m]
  have ne: "EV_KEY \<noteq> EV_REL" by (simp add: EV_KEY_def EV_REL_def)
  have "tallied [e] p q \<and> k_reads_made (ep_kernel q) = k_reads_made (ep_kernel p)"
  proof (cases "is_syn_report e")
    case True
    then have seen: "frame_seen (evns e) (count_event r e p1) = Done q" using rest by simp
    show ?thesis
      using frame_seen_tallied [OF seen] True ne
      by (simp add: tallied_def report_times_def count_event_def p1 Let_def)
  next
    case False
    then have "q = count_event r e p1" using rest by simp
    with False ne show ?thesis
      by (simp add: tallied_def report_times_def count_event_def p1 Let_def gaps_def repeats_def)
  qed
  then show "tallied [e] p q" "k_reads_made (ep_kernel q) = k_reads_made (ep_kernel p)" by auto
qed

lemma probe_events_tallied:
  assumes "probe_events es p = Done q"
  shows "tallied es p q \<and> k_reads_made (ep_kernel q) = k_reads_made (ep_kernel p)"
  using assms
proof (induction es arbitrary: p)
  case Nil
  then show ?case by (simp add: tallied_none)
next
  case (Cons e es)
  then obtain p1 where "probe_event e p = Done p1" "probe_events es p1 = Done q" by (auto simp: after_done)
  then show ?case using probe_event_tallied Cons.IH tallied_append [of "[e]" p p1 es q] by simp
qed

definition read_tally :: "probe \<Rightarrow> probe \<Rightarrow> bool" where
  "read_tally p q \<longleftrightarrow> k_reads_made (ep_kernel p) \<le> k_reads_made (ep_kernel q) \<and>
     tallied (events_between (ep_kernel p) (k_reads_made (ep_kernel p)) (k_reads_made (ep_kernel q))) p q"

lemma read_tally_trans:
  assumes "read_tally p q" "read_tally q r"
  shows "read_tally p r"
proof -
  let ?i = "k_reads_made (ep_kernel p)" and ?j = "k_reads_made (ep_kernel q)" and ?l = "k_reads_made (ep_kernel r)"
  have same: "events_between (ep_kernel q) = events_between (ep_kernel p)"
    using assms(1) by (simp add: read_tally_def tallied_def events_between_def fun_eq_iff)
  have le: "?i \<le> ?j" "?j \<le> ?l" using assms by (simp_all add: read_tally_def)
  have "tallied (events_between (ep_kernel p) ?i ?j @ events_between (ep_kernel p) ?j ?l) p r"
    using assms tallied_append unfolding read_tally_def same by blast
  then show ?thesis using le by (simp add: read_tally_def events_between_append)
qed

lemma read_tally_refl: "tallied [] p q \<Longrightarrow> k_reads_made (ep_kernel q) = k_reads_made (ep_kernel p) \<Longrightarrow> read_tally p q"
  by (simp add: read_tally_def)

lemma read_tally_read:
  assumes "ask kernel_read p = (answer, q)"
  shows "read_batch answer = [] \<Longrightarrow> read_tally p q"
    and "answer = Read_events es \<Longrightarrow> probe_events (take probe_buffer es) q = Done r \<Longrightarrow> read_tally p r"
proof -
  have q: "answer = k_reads (ep_kernel p) (k_reads_made (ep_kernel p))" "tallied [] p q"
    "k_reads_made (ep_kernel q) = Suc (k_reads_made (ep_kernel p))"
    using assms by (auto simp: ask_def kernel_read_def tallied_none)
  then show "read_batch answer = [] \<Longrightarrow> read_tally p q" by (simp add: read_tally_def)
  assume "answer = Read_events es" "probe_events (take probe_buffer es) q = Done r"
  then show "read_tally p r"
    using q probe_events_tallied [of "take probe_buffer es" q r] tallied_append [of "[]" p q "take probe_buffer es" r]
    by (simp add: read_tally_def read_batch_def)
qed

lemma probe_loop_tally:
  assumes "probe_loop fuel end_ns p = Done q"
  shows "read_tally p q"
  using assms
proof (induction fuel arbitrary: p)
  case 0
  then show ?case by simp
next
  case (Suc fuel)
  obtain now p1 where m: "mono_ns p = Done (now, p1)" using Suc.prems by (auto simp: after_done)
  have p1: "read_tally p p1" using mono_ns_done [OF m] by (auto intro: read_tally_refl simp: tallied_none)
  show ?case
  proof (cases "now < end_ns")
    case False
    then show ?thesis using Suc.prems m p1 by simp
  next
    case True
    obtain answer p2 where polled: "ask kernel_poll p1 = (answer, p2)" by fastforce
    define p3 where "p3 = p2\<lparr>ep_kernel := emit (Polled 100) (ep_kernel p2)\<rparr>"
    have "read_tally p1 p3"
      using polled by (auto simp: p3_def ask_def kernel_poll_def emit_def tallied_none intro!: read_tally_refl)
    then have p3: "read_tally p p3" using p1 read_tally_trans by blast
    obtain result p4 where got: "ask kernel_read p3 = (result, p4)" by fastforce
    note run = Suc.prems [unfolded probe_loop.simps m after.simps split_conv Let_def polled p3_def [symmetric] got]
    have again: "read_tally p q" if "read_tally p c" "probe_loop fuel end_ns c = Done q" for c
      using that Suc.IH read_tally_trans by blast
    have read: "read_tally p p4" if "read_batch result = []" using read_tally_read(1) [OF got that] p3 read_tally_trans by blast
    have events: "read_tally p c" if "result = Read_events es" "probe_events (take probe_buffer es) p4 = Done c" for es c
      using read_tally_read(2) [OF got that] p3 read_tally_trans by blast
    show ?thesis
      using run True read events again p3
      by (auto simp: after_done read_batch_def split: poll_answer.splits if_splits device_read.splits)
  qed
qed

section \<open>Gaps and percentiles\<close>

lemma gaps_Cons: "gaps prev (t # ts) = (if prev \<noteq> 0 \<and> prev < t then [t - prev] else []) @ gaps t ts"
  and repeats_Cons: "repeats prev (t # ts) = (if prev \<noteq> 0 \<and> prev = t then 1 else 0) + repeats t ts"
  by (simp_all add: gaps_def repeats_def)

lemma gaps_telescope:
  assumes "sorted (prev # ts)" "prev \<noteq> 0"
  shows "sum_list (map unat (gaps prev ts)) + unat prev = unat (last (prev # ts))"
    "length (gaps prev ts) + repeats prev ts = length ts"
proof -
  have "sum_list (map unat (gaps prev ts)) + unat prev = unat (last (prev # ts)) \<and>
      length (gaps prev ts) + repeats prev ts = length ts"
    using assms
  proof (induction ts arbitrary: prev)
    case Nil
    then show ?case by (simp add: gaps_def repeats_def)
  next
    case (Cons t ts)
    then have t: "prev \<le> t" "sorted (t # ts)" by simp_all
    then have "t \<noteq> 0" using Cons.prems(2) by (auto simp: word_le_nat_alt unat_eq_zero)
    note ih = Cons.IH [OF t(2) this]
    have "unat (t - prev) = unat t - unat prev" "unat prev \<le> unat t"
      using t(1) by (simp_all add: unat_sub_le word_le_nat_alt)
    then show ?case using ih t(1) Cons.prems(2) by (auto simp: gaps_Cons repeats_Cons)
  qed
  then show "sum_list (map unat (gaps prev ts)) + unat prev = unat (last (prev # ts))"
    "length (gaps prev ts) + repeats prev ts = length ts" by auto
qed

lemma steady_reports:
  assumes "sorted ts" "ts \<noteq> []" "hd ts \<noteq> 0"
  shows "sum_list (map unat (gaps 0 ts)) = unat (last ts) - unat (hd ts)" "length (gaps 0 ts) + repeats 0 ts = length ts - 1"
proof -
  obtain t us where ts: "ts = t # us" using assms(2) by (cases ts) auto
  have "gaps 0 ts = gaps t us" "repeats 0 ts = repeats t us" by (simp_all add: ts gaps_Cons repeats_Cons)
  then show "sum_list (map unat (gaps 0 ts)) = unat (last ts) - unat (hd ts)" "length (gaps 0 ts) + repeats 0 ts = length ts - 1"
    using gaps_telescope [of t us] assms by (simp_all add: ts)
qed

text \<open>The index of a percentile is inside the vector; the least and the greatest gap are exact.\<close>

lemma llround_of_nat: "0 \<le> x \<Longrightarrow> x \<le> of_nat n \<Longrightarrow> llround x \<le> n"
proof -
  assume "0 \<le> x" "x \<le> of_nat n"
  then have "x + 1 / 2 < of_int (int n + 1)" by simp
  then have "\<lfloor>x + 1 / 2\<rfloor> < int n + 1" by (simp only: floor_less_iff)
  then show ?thesis by (simp add: llround_def)
qed

lemma pct_index_inside:
  assumes "0 \<le> p" "p \<le> 1" "0 < n" "n < 2 ^ 53"
  shows "pct_index n p < n" "pct_index n 0 = 0" "pct_index n 1 = n - 1"
proof -
  have d: "double_of_nat (n - 1) = of_nat (n - 1)" using assms by (intro double_of_nat_int) simp
  have "0 \<le> p * of_nat (n - 1)" "p * of_nat (n - 1) \<le> of_nat (n - 1)"
    using assms(1,2) by (auto intro: mult_left_le_one_le)
  then have "round_double (p * of_nat (n - 1)) \<le> of_nat (n - 1) \<and> 0 \<le> round_double (p * of_nat (n - 1))"
    using assms by (intro round_double_le) auto
  then have "pct_index n p \<le> n - 1" unfolding pct_index_def d by (intro llround_of_nat) auto
  then show "pct_index n p < n" using assms(3) by simp
  have whole: "llround (of_nat m) = m" for m
  proof -
    have "\<lfloor>(of_nat m :: rat) + 1 / 2\<rfloor> = int m" by (simp add: floor_eq_iff)
    then show ?thesis by (simp add: llround_def)
  qed
  have "round_double (of_nat (n - 1)) = of_nat (n - 1)" using assms by (intro round_double_int) simp
  then show "pct_index n 1 = n - 1" "pct_index n 0 = 0"
    using whole [of 0] whole [of "n - 1"] unfolding pct_index_def d by simp_all
qed

section \<open>The whole program\<close>

lemma fold_emit: "fold emit es k = k\<lparr>k_trace := k_trace k @ es\<rparr>"
  by (induction es arbitrary: k) (simp_all add: emit_def)

text \<open>C40: A probe that comes to its end has printed a report of exactly the events its reads delivered: their
  number, the movements, the buttons and the reports among them, the reports that repeat the time of
  the one before, and as intervals the positive differences of neighbouring report times. Where those
  times never go back, every report but the first is either a repetition or an interval, and the
  intervals add up to the time from the first to the last report.\<close>

theorem probe_reports_reads:
  assumes "probe_main fuel args k = Done (Inr p)"
  shows "\<exists>elapsed q. Printed (probe_report (args ! 0) elapsed q) \<in> set (k_trace (ep_kernel p)) \<and>
    (let events = events_between k (k_reads_made k) (k_reads_made (ep_kernel p)); times = report_times events
     in ep_events q = of_nat (length events) \<and>
        ep_rels q = of_nat (length (filter (\<lambda>e. ev_type e = EV_REL) events)) \<and>
        ep_buttons q = of_nat (length (filter (\<lambda>e. ev_type e = EV_KEY) events)) \<and>
        ep_frames q = of_nat (length times) \<and> ep_dups q = of_nat (repeats 0 times) \<and>
        v_data (ep_intervals q) = gaps 0 times \<and>
        (sorted times \<and> times \<noteq> [] \<and> hd times \<noteq> 0 \<longrightarrow>
           sum_list (map unat (gaps 0 times)) = unat (last times) - unat (hd times) \<and>
           length (gaps 0 times) + repeats 0 times = length times - 1))"
proof -
  have args: "\<not> (length args < 1 \<or> length args > 3)" using assms by (auto simp: probe_main_def)
  let ?path = "if length args = 3 then Some (args ! 2) else None"
  obtain p1 fd p2 start p3 p4 finish p5 where
    steps: "open_raw ?path (fresh_probe k) = Done p1" "probe_open ''open'' [] p1 = Done (fd, p2)" "mono_ns p2 = Done (start, p3)"
      "probe_loop fuel (start + probe_duration (probe_seconds (if length args > 1 then Some (args ! 1) else None))) p3 = Done p4"
      "mono_ns p4 = Done (finish, p5)"
    and p: "p = probe_close ?path fd
      (probe_report (args ! 0) (divided (double_of_u64 (finish - start)) 1000000000) p5) p5"
    using assms [unfolded probe_main_def if_not_P [OF args] Let_def after_done split_paired_Ex split_conv] by auto
  have opened: "tallied [] c d \<and> k_reads_made (ep_kernel d) = k_reads_made (ep_kernel c)"
    if "probe_open what [] c = Done (n, d) \<or> probe_open what [Opened_output name] c = Done (n, d)" for what name c n d
    using that by (auto simp: probe_open_def ask_def kernel_call_def emit_def tallied_none Let_def
        split: syscall.splits if_splits)
  have "read_tally (fresh_probe k) p1"
  proof (cases ?path)
    case None
    then show ?thesis using steps(1) by (auto simp: open_raw_def tallied_none intro!: read_tally_refl)
  next
    case (Some name)
    then obtain n c where "probe_open ''fopen'' [Opened_output name] (fresh_probe k) = Done (n, c)"
      "p1 = c\<lparr>ep_raw := Some [''receive_mono_ns,event_sec,event_usec,type,code,value'']\<rparr>"
      using steps(1) by (auto simp: open_raw_def after_done)
    then show ?thesis using opened [of "''fopen''" "fresh_probe k" n c name]
      by (auto simp: tallied_none intro!: read_tally_refl)
  qed
  moreover have "read_tally p1 p2" using opened steps(2) by (intro read_tally_refl) blast+
  moreover have "read_tally p2 p3" "read_tally p4 p5"
    using mono_ns_done [OF steps(3)] mono_ns_done [OF steps(5)] by (auto intro: read_tally_refl simp: tallied_none)
  ultimately have "read_tally (fresh_probe k) p5"
    using probe_loop_tally [OF steps(4)] read_tally_trans by blast
  moreover have "k_reads_made (ep_kernel p) = k_reads_made (ep_kernel p5)"
    "Printed (probe_report (args ! 0) (divided (double_of_u64 (finish - start)) 1000000000) p5) \<in> set (k_trace (ep_kernel p))"
    unfolding p probe_close_def fold_emit by simp_all
  ultimately show ?thesis
    using steady_reports
    by (intro exI [of _ "divided (double_of_u64 (finish - start)) 1000000000"] exI [of _ p5])
      (simp add: read_tally_def tallied_def fresh_probe_def Let_def)
qed

section \<open>A run for evaluation\<close>

text \<open>A device that delivers a movement and two reports; after that the time is up.\<close>

definition probe_kernel :: kernel where
  "probe_kernel = quiet_kernel\<lparr>k_polls := (\<lambda>_. Poll_ready [POLLIN]),
     k_clock := (\<lambda>_ n. Some (if n < 5 then 1 else 100, 0)),
     k_reads := (\<lambda>_. Read_events
       [\<lparr>ev_sec = 1, ev_usec = 0, ev_type = EV_REL, ev_code = 0, ev_value = 3\<rparr>,
        \<lparr>ev_sec = 1, ev_usec = 0, ev_type = EV_SYN, ev_code = SYN_REPORT, ev_value = 0\<rparr>,
        \<lparr>ev_sec = 1, ev_usec = 8000, ev_type = EV_SYN, ev_code = SYN_REPORT, ev_value = 0\<rparr>])\<rparr>"

definition probe_opened :: probe where
  "probe_opened = fresh_probe (probe_kernel\<lparr>k_calls_made := 1, k_clock_reads := 1\<rparr>)"

lemma probe_ten_seconds: "probe_duration (probe_seconds None) = 10000000000"
  using round_double_int [of 10000000000] by (simp add: probe_duration_def probe_seconds_def)

lemmas probe_run_defs = fresh_probe_def probe_kernel_def quiet_kernel_def mono_ns_def ask_def hfior_now_ns_def
  kernel_poll_def kernel_read_def kernel_call_def emit_def revents_at_def POLLIN_def probe_buffer_def probe_event_def
  count_event_def is_syn_report_def EV_REL_def EV_SYN_def EV_KEY_def SYN_REPORT_def frame_seen_def evns_def push_def
  Let_def

lemma probe_run: "\<exists>p. probe_main (Suc (Suc 0)) [''/dev/input/event3''] probe_kernel = Done (Inr p) \<and>
    k_reads_made (ep_kernel p) = 1"
proof -
  let ?p = "fresh_probe (probe_kernel\<lparr>k_calls_made := Suc 0, k_clock_reads := Suc 0\<rparr>)"
  obtain q where q: "probe_loop (Suc (Suc 0)) 11000000000 ?p = Done q" "k_reads_made (ep_kernel q) = 1"
    and clock: "k_clock (ep_kernel q) = k_clock probe_kernel"
    by (simp add: probe_run_defs del: decimal.simps)
  have opened: "probe_open ''open'' [] (fresh_probe probe_kernel) = Done (0, fresh_probe (probe_kernel\<lparr>k_calls_made := Suc 0\<rparr>))"
    and started: "mono_ns (fresh_probe (probe_kernel\<lparr>k_calls_made := Suc 0\<rparr>)) = Done (1000000000, ?p)"
    by (simp_all add: probe_open_def probe_run_defs)
  obtain t c where ended: "mono_ns q = Done (t, c)" "k_reads_made (ep_kernel c) = 1"
    using clock q(2) by (simp add: mono_ns_def ask_def hfior_now_ns_def probe_kernel_def Let_def)
  show ?thesis
    by (simp add: probe_main_def open_raw_def opened started probe_ten_seconds q(1) ended Let_def probe_close_def emit_def
        del: probe_loop.simps)
qed

lemma probe_reports_reads_witness:
  "\<exists>p elapsed q. probe_main (Suc (Suc 0)) [''/dev/input/event3''] probe_kernel = Done (Inr p) \<and>
     Printed (probe_report ''/dev/input/event3'' elapsed q) \<in> set (k_trace (ep_kernel p)) \<and>
     ep_events q = 3 \<and> ep_frames q = 2 \<and> v_data (ep_intervals q) = [8000000]"
proof -
  obtain p where p: "probe_main (Suc (Suc 0)) [''/dev/input/event3''] probe_kernel = Done (Inr p)"
    "k_reads_made (ep_kernel p) = 1" using probe_run by blast
  have "events_between probe_kernel (k_reads_made probe_kernel) 1 =
      [\<lparr>ev_sec = 1, ev_usec = 0, ev_type = EV_REL, ev_code = 0, ev_value = 3\<rparr>,
       \<lparr>ev_sec = 1, ev_usec = 0, ev_type = EV_SYN, ev_code = SYN_REPORT, ev_value = 0\<rparr>,
       \<lparr>ev_sec = 1, ev_usec = 8000, ev_type = EV_SYN, ev_code = SYN_REPORT, ev_value = 0\<rparr>]"
    by (simp add: probe_kernel_def quiet_kernel_def read_batch_def probe_buffer_def events_between_def)
  then show ?thesis
    using probe_reports_reads [OF p(1)] p
    by (auto simp: Let_def report_times_def is_syn_report_def EV_SYN_def EV_REL_def SYN_REPORT_def evns_def
        gaps_Cons gaps_def)
qed

end
