(* ===== verification/Session.thy ===== *)
theory Session
  imports Frames Client_Session
begin

text \<open>
  The bridge and the client together: a step relation over both processes and the messages
  between them, and the invariant that ties the bridge's log, the shared tail, the
  acknowledgements under way, the client's cursor and what the client has received. The drain
  of a step sees one ring; a drain whose view changes under it is the subject of
  \<open>Client_Accounting\<close>, single shared accesses that of \<open>Interleaving\<close>.
\<close>

section \<open>What the bridge's own operations leave alone\<close>

definition same_side :: "bridge \<Rightarrow> bridge \<Rightarrow> bool" where
  "same_side b b' \<longleftrightarrow> consumer (b_ring b') = consumer (b_ring b) \<and> b_generation b' = b_generation b \<and>
     metadata (b_ring b') = metadata (b_ring b) \<and>
     bs_invalid_acknowledgements (b_stats b') = bs_invalid_acknowledgements (b_stats b) \<and>
     bs_acknowledgements (b_stats b') = bs_acknowledgements (b_stats b)"

lemma same_side_refl [simp]: "same_side b b"
  by (simp add: same_side_def)

lemma same_side_trans: "same_side a b \<Longrightarrow> same_side b c \<Longrightarrow> same_side a c"
  by (simp add: same_side_def)

lemma on_kernel_side [simp]: "same_side b (snd (on_kernel ask b))"
  by (simp add: same_side_def on_kernel_def split_def Let_def)

lemma bridge_now_side [simp]: "same_side b (snd (bridge_now b))"
  by (simp add: bridge_now_def)

lemma write_urgent_side: "same_side b (write_urgent b)"
  by (simp add: write_urgent_def same_side_def on_kernel_def split_def Let_def warn_def split: syscall.split)

lemma send_eager_record_side: "same_side b (send_eager_record r b)"
proof -
  let ?m = "encode_eager_record \<lparr>er_header = \<lparr>mh_type = HFIOR_MSG_EAGER_RECORD,
    mh_size = of_nat sizeof_eager_record_message\<rparr>, er_generation = b_generation b, er_record = r\<rparr>"
  let ?b1 = "snd (on_kernel (hfior_send_fds (b_client_fd b) ?m [] MSG_DONTWAIT) b)"
  have "same_side b ?b1" by simp
  moreover have "same_side ?b1 (write_urgent (upd_producer (\<lambda>p. p\<lparr>pl_eager_send_drops := pl_eager_send_drops p + 1\<rparr>)
      (upd_stats (\<lambda>s. s\<lparr>bs_eager_send_drops := bs_eager_send_drops s + 1\<rparr>) ?b1)))"
    by (rule same_side_trans [OF _ write_urgent_side]) (simp add: same_side_def)
  ultimately show ?thesis
    unfolding send_eager_record_def Let_def split_def
    by (auto simp: same_side_def warn_def split: sum.split)
qed

lemma attempt_publication_side: "same_side b (snd (snd (attempt_publication r b)))"
  by (simp add: attempt_publication_def same_side_def bridge_now_def on_kernel_def trace_publication_def
      hfior_ring_publish_def split_def Let_def)

lemma account_record_flags_side: "same_side b (account_record_flags r b)"
  by (simp add: account_record_flags_def same_side_def)

lemma publish_record_side: "same_side b (publish_record r b)"
proof -
  let ?b1 = "snd (snd (attempt_publication r b))" and ?r = "fst (snd (attempt_publication r b))"
  let ?b2 = "upd_stats (\<lambda>s. s\<lparr>bs_records_published := bs_records_published s + 1\<rparr>) ?b1"
  let ?b3 = "send_eager_record ?r (account_record_flags ?r ?b2)"
  let ?d = "upd_stats (\<lambda>s. s\<lparr>bs_ring_drops := bs_ring_drops s + 1\<rparr>) ?b1"
  have 1: "same_side b ?b1" by (rule attempt_publication_side)
  have "same_side ?b1 ?b2" "same_side ?b1 ?d" by (simp_all add: same_side_def)
  then have 2: "same_side b ?b3" "same_side b ?d"
    using 1 account_record_flags_side send_eager_record_side same_side_trans by meson+
  then have "same_side b (write_urgent ?b3)" "same_side b (write_urgent ?d)"
    using write_urgent_side same_side_trans by meson+
  with 2 show ?thesis by (auto simp: publish_record_def Let_def split_def)
qed

lemmas publish_record_frame = publish_record_side [unfolded same_side_def]
lemmas bridge_now_frame_side = bridge_now_side [unfolded same_side_def]

lemma complete_frame_side: "same_side b (complete_frame t b)"
  by (simp add: complete_frame_def split_def Let_def same_side_def publish_record_frame bridge_now_frame_side)

lemmas complete_frame_frame = complete_frame_side [unfolded same_side_def]

lemma process_input_event_side: "same_side b (process_input_event e b)"
  by (simp add: process_input_event_def Let_def same_side_def complete_frame_frame raw_log_event_def
      split: option.split)

section \<open>The session\<close>

text \<open>
  \<open>se_wire\<close> are the messages the client has sent and the bridge has not yet received; \<open>se_log\<close> and
  \<open>se_taken\<close> record what was published and what the client's drains delivered.
\<close>

record session =
  se_bridge :: bridge
  se_client :: client
  se_wire :: "u8 list list"
  se_log :: "hfior_record list"
  se_taken :: "hfior_record list"

text \<open>The client looking at the bridge's ring as it is now.\<close>

definition sees :: "bridge \<Rightarrow> client \<Rightarrow> client" where
  "sees b c = c\<lparr>c_views := (\<lambda>_. b_ring b)\<rparr>"

text \<open>The log after the bridge's operation, read off the ring.\<close>

definition log_after :: "hfior_record list \<Rightarrow> bridge \<Rightarrow> hfior_record list" where
  "log_after rlog b' =
     rlog @ copy_slots (b_ring b') (of_nat (length rlog)) (unat (ring_head (b_ring b')) - length rlog)"

text \<open>
  The steps: the bridge handles an input event or publishes a record; the client drains the ring, takes
  the pending records, or acknowledges; the bridge receives the oldest message under way. \<open>fuel\<close> is
  enough for a full ring. The guard on the attempts (\<open>2^62\<close> publications take more than ten million
  years) keeps the counters from wrapping.
\<close>

inductive session_step :: "session \<Rightarrow> session \<Rightarrow> bool" where
  input: "attempts (se_bridge s) + 2 < 2 ^ 62 \<Longrightarrow> b' = process_input_event e (se_bridge s) \<Longrightarrow>
    session_step s (s\<lparr>se_bridge := b', se_log := log_after (se_log s) b'\<rparr>)"
| publication: "attempts (se_bridge s) + 2 < 2 ^ 62 \<Longrightarrow> b' = publish_record r (se_bridge s) \<Longrightarrow>
    session_step s (s\<lparr>se_bridge := b', se_log := log_after (se_log s) b'\<rparr>)"
| drain: "ring_capacity (b_ring (se_bridge s)) < unat drain_buffer * fuel \<Longrightarrow>
    drain_ring fuel reason False False (sees (se_bridge s) (se_client s)) = Done (n, c') \<Longrightarrow>
    session_step s (s\<lparr>se_client := c',
      se_taken := se_taken s @ drop (length (q_records (c_pending (se_client s)))) (q_records (c_pending c'))\<rparr>)"
| frame: "take_pending (se_client s) sm = (n, sm', c') \<Longrightarrow> session_step s (s\<lparr>se_client := c'\<rparr>)"
| acknowledge: "send_ack_if_needed (se_client s) = Done c' \<Longrightarrow>
    k_trace (c_kernel c') = k_trace (c_kernel (se_client s)) @
      map (\<lambda>m. Sent (c_socket_fd c') MSG_NOSIGNAL m []) ms \<Longrightarrow>
    session_step s (s\<lparr>se_client := c', se_wire := se_wire s @ ms\<rparr>)"
| receive: "se_wire s = m # rest \<Longrightarrow>
    k_recvs (b_kernel (se_bridge s)) (k_recvs_made (b_kernel (se_bridge s))) =
      Received \<lparr>rv_bytes = m, rv_truncated = False, rv_cmsgs = []\<rparr> \<Longrightarrow>
    session_step s (s\<lparr>se_bridge := snd (handle_control_message (se_bridge s)), se_wire := rest\<rparr>)"

inductive session_reachable :: "session \<Rightarrow> session \<Rightarrow> bool" for s0 where
  start: "session_reachable s0 s0"
| step: "session_reachable s0 s \<Longrightarrow> session_step s t \<Longrightarrow> session_reachable s0 t"

text \<open>After the handshake: both sides agree on the generation, nothing is under way, and the client's
  cursor is somewhere between the shared tail and the head.\<close>

definition session_initial :: "session \<Rightarrow> bool" where
  "session_initial s \<longleftrightarrow>
     bridge_inv (se_log s) (se_bridge s) \<and> attempts (se_bridge s) + 1 < 2 ^ 62 \<and>
     c_generation (se_client s) = b_generation (se_bridge s) \<and> se_wire s = [] \<and> se_taken s = [] \<and>
     ring_tail (b_ring (se_bridge s)) \<le> c_last_acked_tail (se_client s) \<and>
     c_local_tail (se_client s) = c_last_acked_tail (se_client s) \<and>
     unat (c_local_tail (se_client s)) \<le> length (se_log s) \<and>
     q_records (c_pending (se_client s)) = [] \<and> queue_ok (c_pending (se_client s))"

section \<open>The invariant of the session\<close>

definition ack_bytes :: "u64 \<Rightarrow> u64 \<Rightarrow> u8 list" where
  "ack_bytes generation tail = encode_ack
     \<lparr>ack_header = \<lparr>mh_type = HFIOR_MSG_ACK, mh_size = of_nat sizeof_ack_message\<rparr>,
      ack_generation = generation, ack_consumed_tail = tail\<rparr>"

text \<open>The shared tail, the tails of the acknowledgements under way, the last one sent and the cursor are
  in ascending order.\<close>

definition tails_ordered :: "session \<Rightarrow> u64 list \<Rightarrow> bool" where
  "tails_ordered s tails \<longleftrightarrow>
     se_wire s = map (ack_bytes (b_generation (se_bridge s))) tails \<and>
     sorted (ring_tail (b_ring (se_bridge s)) # tails @
       [c_last_acked_tail (se_client s), c_local_tail (se_client s)])"

definition session_inv :: "session \<Rightarrow> session \<Rightarrow> bool" where
  "session_inv s0 s \<longleftrightarrow>
     bridge_inv (se_log s) (se_bridge s) \<and> attempts (se_bridge s) + 1 < 2 ^ 62 \<and>
     c_generation (se_client s) = b_generation (se_bridge s) \<and>
     (\<exists>tails. tails_ordered s tails) \<and>
     unat (c_local_tail (se_client s)) \<le> length (se_log s) \<and>
     unat (c_local_tail (se_client s0)) \<le> unat (c_local_tail (se_client s)) \<and>
     se_taken s = drop (unat (c_local_tail (se_client s0))) (take (unat (c_local_tail (se_client s))) (se_log s)) \<and>
     length (q_records (c_pending (se_client s))) \<le> length (se_taken s) \<and> queue_ok (c_pending (se_client s)) \<and>
     bs_invalid_acknowledgements (b_stats (se_bridge s)) = bs_invalid_acknowledgements (b_stats (se_bridge s0))"

lemma session_inv_initial: "session_initial s \<Longrightarrow> session_inv s s"
  by (auto simp: session_initial_def session_inv_def tails_ordered_def)

lemma session_log_short:
  assumes "session_inv s0 s"
  shows "length (se_log s) < 2 ^ 62"
proof -
  have "length (se_log s) \<le> attempts (se_bridge s)"
    using bridge_inv_length [of "se_log s" "se_bridge s"] assms by (simp add: session_inv_def)
  then show ?thesis using assms by (simp add: session_inv_def)
qed

text \<open>The log after an operation that publishes at most one record.\<close>

lemma log_after_keeps:
  assumes "keeps 1 b b'" "bridge_inv rlog b" "attempts b + 2 < 2 ^ 62"
  shows "bridge_inv (log_after rlog b') b'" "prefix rlog (log_after rlog b')" "attempts b' + 1 < 2 ^ 62"
proof -
  have "attempts b + 1 + 1 < 2 ^ 64" using assms(3) by simp
  from keepsD [OF assms(1,2) this] obtain rs
    where rs: "bridge_inv (rlog @ rs) b'" "length rs \<le> 1" "attempts b' \<le> attempts b + 1"
    using assms(1) by (auto simp: keeps_def)
  have hist: "ring_hist (b_ring b') (rlog @ rs)" using rs(1) by (simp add: bridge_inv_def)
  then have head: "unat (ring_head (b_ring b')) = length rlog + length rs" by (simp add: ring_hist_def)
  have "length rlog < 2 ^ 64" using head unat_less_pow [of "ring_head (b_ring b')"] by simp
  then have u: "unat (of_nat (length rlog) :: u64) = length rlog" by (simp add: unat_of_nat take_bit_nat_eq_self_iff)
  have "copy_slots (b_ring b') (of_nat (length rlog)) (length rs) = rs"
    using ring_hist_copy [OF hist, of "of_nat (length rlog)" "length rs"] u rs(2)
      ring_capacity_pos [OF ring_hist_wf [OF hist]] by simp
  then have "log_after rlog b' = rlog @ rs" by (simp add: log_after_def head)
  then show "bridge_inv (log_after rlog b') b'" "prefix rlog (log_after rlog b')" "attempts b' + 1 < 2 ^ 62"
    using rs assms(3) by simp_all
qed

lemma session_inv_bridge:
  assumes inv: "session_inv s0 s" and side: "same_side (se_bridge s) b'"
    and log: "bridge_inv rlog b'" "prefix (se_log s) rlog" "attempts b' + 1 < 2 ^ 62"
  shows "session_inv s0 (s\<lparr>se_bridge := b', se_log := rlog\<rparr>)"
proof -
  obtain more where more: "rlog = se_log s @ more" using log(2) by (auto simp: prefix_def)
  obtain tails where "tails_ordered s tails" using inv by (auto simp: session_inv_def)
  then have "tails_ordered (s\<lparr>se_bridge := b', se_log := rlog\<rparr>) tails"
    using side by (simp add: tails_ordered_def same_side_def)
  then show ?thesis
    using inv side log(1,3) more unfolding session_inv_def same_side_def by auto
qed

lemma session_views:
  assumes "session_inv s0 s"
  shows "client_views (sees (se_bridge s) (se_client s)) (\<lambda>_. se_log s) (length (se_log s))"
    "length (se_log s) - unat (c_local_tail (se_client s)) \<le> ring_capacity (b_ring (se_bridge s))"
proof -
  let ?h = "b_ring (se_bridge s)" and ?t = "c_local_tail (se_client s)"
  have hist: "ring_hist ?h (se_log s)" using assms by (simp add: session_inv_def bridge_inv_def)
  have "ring_tail ?h \<le> ?t" using assms by (auto simp: session_inv_def tails_ordered_def)
  then have "unat (ring_tail ?h) \<le> unat ?t" by (simp add: word_le_nat_alt)
  moreover have "length (se_log s) - unat (ring_tail ?h) \<le> ring_capacity ?h"
    using ring_hist_depth [OF hist] ring_wf_within [OF ring_hist_wf [OF hist]] by simp
  ultimately show w: "length (se_log s) - unat ?t \<le> ring_capacity ?h" by linarith
  then have "length (se_log s) \<le> unat ?t + ring_capacity ?h" by linarith
  then show "client_views (sees (se_bridge s) (se_client s)) (\<lambda>_. se_log s) (length (se_log s))"
    using hist assms by (simp add: client_views_def sees_def session_inv_def)
qed

text \<open>From every such state a drain, given fuel for a full ring, ends with everything delivered.\<close>

lemma session_drain:
  assumes inv: "session_inv s0 s" and fuel: "ring_capacity (b_ring (se_bridge s)) < unat drain_buffer * fuel"
  shows "\<exists>c'. drain_ring fuel reason False False (sees (se_bridge s) (se_client s)) =
      Done (length (se_log s) - unat (c_local_tail (se_client s)), c') \<and>
    q_records (c_pending c') = q_records (c_pending (se_client s)) @
      drop (unat (c_local_tail (se_client s))) (se_log s) \<and>
    unat (c_local_tail c') = length (se_log s) \<and>
    c_last_acked_tail c' = c_last_acked_tail (se_client s) \<and> queue_ok (c_pending c') \<and>
    c_generation c' = c_generation (se_client s) \<and> c_socket_fd c' = c_socket_fd (se_client s)"
proof -
  let ?c = "sees (se_bridge s) (se_client s)" and ?t = "c_local_tail (se_client s)"
  have c: "c_local_tail ?c = ?t" "c_pending ?c = c_pending (se_client s)"
    "c_last_acked_tail ?c = c_last_acked_tail (se_client s)" "c_generation ?c = c_generation (se_client s)"
    "c_socket_fd ?c = c_socket_fd (se_client s)"
    by (simp_all add: sees_def)
  note views = session_views [OF inv]
  have len: "length (q_records (c_pending ?c)) + (length (se_log s) - unat (c_local_tail ?c)) \<le> 2 ^ 63"
    using inv session_log_short [OF inv] unfolding c by (auto simp: session_inv_def)
  have q: "queue_ok (c_pending ?c)" using inv by (simp add: c session_inv_def)
  have "length (se_log s) - unat (c_local_tail ?c) < unat drain_buffer * fuel"
    using views(2) fuel by (simp add: c)
  from drain_ring_exact [OF views(1) this len q, of reason False] obtain new c' where r:
    "drain_ring fuel reason False False ?c = Done (length new, c')"
    "new = take (length new) (drop (unat ?t) (se_log s))" "unat (c_local_tail c') = unat ?t + length new"
    "q_records (c_pending c') = q_records (c_pending (se_client s)) @ new"
    "length (se_log s) \<le> unat (c_local_tail c')" "c_last_acked_tail c' = c_last_acked_tail (se_client s)"
    "queue_ok (c_pending c')" "c_generation c' = c_generation (se_client s)"
    "c_socket_fd c' = c_socket_fd (se_client s)"
    unfolding c by auto
  have "length new \<le> length (se_log s) - unat ?t" using arg_cong [OF r(2), of length] by simp
  moreover have "length (se_log s) - unat ?t \<le> length new" using r(3,5) by simp
  ultimately have n: "length new = length (se_log s) - unat ?t" by simp
  then have "new = drop (unat ?t) (se_log s)" using r(2) by simp
  moreover have "unat ?t \<le> length (se_log s)" using inv by (simp add: session_inv_def)
  ultimately show ?thesis using r n by auto
qed


section \<open>Every step keeps the invariant\<close>

lemma drop_take_drop:
  assumes "a \<le> b" "b \<le> length xs"
  shows "drop a (take b xs) @ drop b xs = drop a xs"
proof -
  have "drop a xs = drop a (take b xs @ drop b xs)" by simp
  also have "\<dots> = drop a (take b xs) @ drop b xs"
    using assms unfolding drop_append by simp
  finally show ?thesis by (rule sym)
qed

lemma session_inv_drain:
  assumes inv: "session_inv s0 s" and fuel: "ring_capacity (b_ring (se_bridge s)) < unat drain_buffer * fuel"
    and run: "drain_ring fuel reason False False (sees (se_bridge s) (se_client s)) = Done (n, c')"
  shows "session_inv s0 (s\<lparr>se_client := c',
      se_taken := se_taken s @ drop (length (q_records (c_pending (se_client s)))) (q_records (c_pending c'))\<rparr>)"
proof -
  let ?t = "c_local_tail (se_client s)" and ?first = "unat (c_local_tail (se_client s0))"
  have d: "q_records (c_pending c') = q_records (c_pending (se_client s)) @ drop (unat ?t) (se_log s)"
    "unat (c_local_tail c') = length (se_log s)" "c_last_acked_tail c' = c_last_acked_tail (se_client s)"
    "queue_ok (c_pending c')" "c_generation c' = c_generation (se_client s)"
    using session_drain [OF inv fuel, of reason] run by auto
  have t: "unat ?t \<le> length (se_log s)" "?first \<le> unat ?t" using inv by (simp_all add: session_inv_def)
  have le: "?t \<le> c_local_tail c'" using t d(2) by (simp add: word_le_nat_alt)
  obtain tails where tails: "tails_ordered s tails" using inv by (auto simp: session_inv_def)
  let ?s = "s\<lparr>se_client := c',
      se_taken := se_taken s @ drop (length (q_records (c_pending (se_client s)))) (q_records (c_pending c'))\<rparr>"
  have "tails_ordered ?s tails"
    using tails le d(3) by (auto simp: tails_ordered_def sorted_append intro: order.trans)
  moreover have taken: "se_taken ?s = drop ?first (se_log s)"
    using inv t d(1) by (simp add: session_inv_def drop_take_drop)
  ultimately show ?thesis
    using inv d t unfolding session_inv_def by auto
qed


lemma send_ack_done:
  assumes "send_ack_if_needed c = Done c'"
  shows "(c' = c \<and> c_local_tail c = c_last_acked_tail c) \<or>
    (k_trace (c_kernel c') = k_trace (c_kernel c) @
       [Sent (c_socket_fd c') MSG_NOSIGNAL (ack_bytes (c_generation c) (c_local_tail c)) []] \<and>
     c_local_tail c' = c_local_tail c \<and> c_last_acked_tail c' = c_local_tail c \<and>
     c_generation c' = c_generation c \<and> c_pending c' = c_pending c)"
  using assms
  by (auto simp: send_ack_if_needed_def client_asks_def kernel_call_def ack_bytes_def Let_def split_def
      split: if_splits)

lemma session_inv_acknowledge:
  assumes inv: "session_inv s0 s" and ack: "send_ack_if_needed (se_client s) = Done c'"
    and sent: "k_trace (c_kernel c') = k_trace (c_kernel (se_client s)) @
      map (\<lambda>m. Sent (c_socket_fd c') MSG_NOSIGNAL m []) ms"
  shows "session_inv s0 (s\<lparr>se_client := c', se_wire := se_wire s @ ms\<rparr>)"
proof -
  obtain tails where tails: "tails_ordered s tails" using inv by (auto simp: session_inv_def)
  consider "c' = se_client s" "ms = []"
    | "ms = [ack_bytes (c_generation (se_client s)) (c_local_tail (se_client s))]"
      "c_local_tail c' = c_local_tail (se_client s)" "c_last_acked_tail c' = c_local_tail (se_client s)"
      "c_generation c' = c_generation (se_client s)" "c_pending c' = c_pending (se_client s)"
    using send_ack_done [OF ack] sent by auto
  then show ?thesis
  proof cases
    case 1
    then have "s\<lparr>se_client := c', se_wire := se_wire s @ ms\<rparr> = s" by simp
    with inv show ?thesis by simp
  next
    case 2
    have "tails_ordered (s\<lparr>se_client := c', se_wire := se_wire s @ ms\<rparr>) (tails @ [c_local_tail (se_client s)])"
      using tails 2 inv by (auto simp: tails_ordered_def sorted_append session_inv_def)
    then show ?thesis using inv 2 unfolding session_inv_def by auto
  qed
qed

lemma handle_ack_frame:
  "b_generation (handle_ack ack b) = b_generation b"
  by (simp add: handle_ack_def Let_def split_def write_urgent_side [unfolded same_side_def])

text \<open>The bridge receives an acknowledgement the client sent.\<close>

definition counted :: "bridge \<Rightarrow> bridge" where
  "counted b = upd_stats (\<lambda>s. s\<lparr>bs_control_messages := bs_control_messages s + 1\<rparr>) (snd (on_kernel kernel_recv b))"

lemma receive_ack:
  assumes "k_recvs (b_kernel b) (k_recvs_made (b_kernel b)) =
      Received \<lparr>rv_bytes = ack_bytes g t, rv_truncated = False, rv_cmsgs = []\<rparr>"
  shows "handle_control_message b = (Inr (), handle_ack
    \<lparr>ack_header = \<lparr>mh_type = HFIOR_MSG_ACK, mh_size = of_nat sizeof_ack_message\<rparr>,
     ack_generation = g, ack_consumed_tail = t\<rparr> (counted b))"
proof -
  have len: "length (ack_bytes g t) = 24" by (simp add: ack_bytes_def)
  then have ne: "ack_bytes g t \<noteq> []" by (metis list.size(3) zero_neq_numeral)
  have hdr: "decode_message_header (ack_bytes g t) = \<lparr>mh_type = HFIOR_MSG_ACK, mh_size = of_nat sizeof_ack_message\<rparr>"
    by (simp add: ack_bytes_def decode_header_message)
  have dec: "decode_ack (ack_bytes g t) = \<lparr>ack_header = \<lparr>mh_type = HFIOR_MSG_ACK, mh_size = of_nat sizeof_ack_message\<rparr>,
     ack_generation = g, ack_consumed_tail = t\<rparr>"
    by (simp add: ack_bytes_def)
  have ask: "fst (on_kernel kernel_recv b) = Received \<lparr>rv_bytes = ack_bytes g t, rv_truncated = False, rv_cmsgs = []\<rparr>"
    using assms by (simp add: on_kernel_def kernel_recv_def)
  have msg: "handle_message (ack_bytes g t) c = handle_ack (decode_ack (ack_bytes g t)) c" for c
    by (simp add: handle_message_def Let_def hdr len sizeof_defs message_type_defs)
  show ?thesis
    unfolding handle_control_message_def Let_def split_def ask
    by (simp add: len ne hdr sizeof_defs msg dec counted_def control_buffer_def)
qed

lemma counted_core: "same_core b (counted b)" "same_side b (counted b)"
  "attempts (counted b) = attempts b" "b_ring (counted b) = b_ring b"
  by (simp_all add: counted_def same_side_def same_core_def counters_agree_def on_kernel_def split_def Let_def
      attempts_def)

lemma handle_ack_accepted:
  assumes inv: "bridge_inv rlog b" and room: "attempts b + 1 < 2 ^ 64"
    and ack: "ack_generation ack = b_generation b" "ring_tail (b_ring b) \<le> ack_consumed_tail ack"
      "unat (ack_consumed_tail ack) \<le> length rlog"
  shows "bridge_inv rlog (handle_ack ack b)" "ring_tail (b_ring (handle_ack ack b)) = ack_consumed_tail ack"
    "ring_contents (b_ring (handle_ack ack b)) = drop (unat (ack_consumed_tail ack)) rlog"
    "bs_invalid_acknowledgements (b_stats (handle_ack ack b)) = bs_invalid_acknowledgements (b_stats b)"
    "bs_acknowledgements (b_stats (handle_ack ack b)) = bs_acknowledgements (b_stats b) + 1"
proof -
  have ok: "ack_valid rlog b ack" using ack by (simp add: ack_valid_def)
  show "bridge_inv rlog (handle_ack ack b)" "ring_tail (b_ring (handle_ack ack b)) = ack_consumed_tail ack"
    "bs_invalid_acknowledgements (b_stats (handle_ack ack b)) = bs_invalid_acknowledgements (b_stats b)"
    "bs_acknowledgements (b_stats (handle_ack ack b)) = bs_acknowledgements (b_stats b) + 1"
    using handle_ack_exact [OF inv room, of ack] ok by simp_all
  then show "ring_contents (b_ring (handle_ack ack b)) = drop (unat (ack_consumed_tail ack)) rlog"
    using ring_hist_contents [of "b_ring (handle_ack ack b)" rlog] by (simp add: bridge_inv_def)
qed

lemma session_inv_receive:
  assumes inv: "session_inv s0 s" and wire: "se_wire s = m # rest"
    and arrives: "k_recvs (b_kernel (se_bridge s)) (k_recvs_made (b_kernel (se_bridge s))) =
      Received \<lparr>rv_bytes = m, rv_truncated = False, rv_cmsgs = []\<rparr>"
  shows "session_inv s0 (s\<lparr>se_bridge := snd (handle_control_message (se_bridge s)), se_wire := rest\<rparr>)"
proof -
  let ?b = "se_bridge s" and ?c = "counted (se_bridge s)"
  obtain tails where "tails_ordered s tails" using inv by (auto simp: session_inv_def)
  then obtain t ts where t: "m = ack_bytes (b_generation ?b) t" "rest = map (ack_bytes (b_generation ?b)) ts"
    "sorted (ring_tail (b_ring ?b) # t # ts @ [c_last_acked_tail (se_client s), c_local_tail (se_client s)])"
    using wire by (auto simp: tails_ordered_def Cons_eq_map_conv)
  let ?ack = "\<lparr>ack_header = \<lparr>mh_type = HFIOR_MSG_ACK, mh_size = of_nat sizeof_ack_message\<rparr>,
     ack_generation = b_generation ?b, ack_consumed_tail = t\<rparr>"
  have b': "snd (handle_control_message ?b) = handle_ack ?ack ?c"
    using receive_ack [of ?b "b_generation ?b" t] arrives t(1) by simp
  have core: "bridge_inv (se_log s) ?c" "attempts ?c + 1 < 2 ^ 64" "b_generation ?c = b_generation ?b"
    using inv counted_core [of ?b] by (simp_all add: session_inv_def same_core_def bridge_inv_def same_side_def)
  have "t \<le> c_local_tail (se_client s)" using t(3) by simp
  then have "unat t \<le> length (se_log s)"
    using inv by (auto simp: session_inv_def word_le_nat_alt)
  moreover have "ring_tail (b_ring ?c) \<le> t" using t(3) by (simp add: counted_core)
  ultimately have ok: "bridge_inv (se_log s) (handle_ack ?ack ?c)" "ring_tail (b_ring (handle_ack ?ack ?c)) = t"
    "bs_invalid_acknowledgements (b_stats (handle_ack ?ack ?c)) = bs_invalid_acknowledgements (b_stats ?c)"
    using handle_ack_accepted [OF core(1,2), of ?ack] core(3) by simp_all
  have "keeps 0 ?c (handle_ack ?ack ?c)" by (rule handle_ack_keeps)
  then have att: "attempts (handle_ack ?ack ?c) \<le> attempts ?b"
    using counted_core(3) [of ?b] by (simp add: keeps_def)
  have "tails_ordered (s\<lparr>se_bridge := handle_ack ?ack ?c, se_wire := rest\<rparr>) ts"
    using t ok(2) core(3) by (simp add: tails_ordered_def handle_ack_frame)
  then show ?thesis
    using inv ok att core(3) counted_core(2) [of ?b] unfolding b' session_inv_def
    by (auto simp: handle_ack_frame same_side_def)
qed

lemma session_inv_frame:
  assumes "session_inv s0 s" "take_pending (se_client s) sm = (n, sm', c')"
  shows "session_inv s0 (s\<lparr>se_client := c'\<rparr>)"
  using assms by (auto simp: session_inv_def take_pending_def queue_take_all_def tails_ordered_def queue_ok_def)

lemma session_inv_step:
  assumes "session_step s t" "session_inv s0 s"
  shows "session_inv s0 t"
  using assms
proof (induction rule: session_step.induct)
  case (input s b' e)
  have "bridge_inv (se_log s) (se_bridge s)" using input.prems by (simp add: session_inv_def)
  note log = log_after_keeps [OF process_input_event_keeps this input.hyps(1), of e]
  show ?case
    unfolding input.hyps(2) by (rule session_inv_bridge [OF input.prems process_input_event_side log])
next
  case (publication s b' r)
  have "bridge_inv (se_log s) (se_bridge s)" using publication.prems by (simp add: session_inv_def)
  note log = log_after_keeps [OF publish_record_keeps this publication.hyps(1), of r]
  show ?case
    unfolding publication.hyps(2) by (rule session_inv_bridge [OF publication.prems publish_record_side log])
qed (auto intro: session_inv_drain session_inv_frame session_inv_acknowledge session_inv_receive)

lemma session_reachable_inv:
  assumes "session_reachable s0 s" "session_initial s0"
  shows "session_inv s0 s"
  using assms by (induction rule: session_reachable.induct) (auto intro: session_inv_initial session_inv_step)

end
