(* ===== verification/Session_Properties.thy ===== *)
theory Session_Properties
  imports Session Bridge_Main
begin

text \<open>
  What holds of the bridge and the client together: the delivery of the log, the reclaiming of
  the ring, the loss of acknowledgements across a reconnection, the agreement of the client's
  gaps with the bridge's drops, and the delivery of an eager record.
\<close>

lemma send_fds_recvs [simp]: "k_recvs (snd (hfior_send_fds fd m fds fl k)) = k_recvs k"
  by (simp add: hfior_send_fds_def kernel_call_def split_def Let_def split: syscall.split)

lemma write_urgent_recvs [simp]: "k_recvs (b_kernel (write_urgent b)) = k_recvs (b_kernel b)"
  by (simp add: write_urgent_def on_kernel_def kernel_call_def split_def Let_def warn_def split: syscall.split)

lemma publish_record_recvs: "k_recvs (b_kernel (publish_record r b)) = k_recvs (b_kernel b)"
proof -
  have "k_recvs (b_kernel (snd (snd (attempt_publication r b)))) = k_recvs (b_kernel b)"
    by (simp add: attempt_publication_def bridge_now_def on_kernel_def hfior_now_ns_def trace_publication_def
        split_def Let_def)
  moreover have "k_recvs (b_kernel (send_eager_record r' c)) = k_recvs (b_kernel c)" for r' c
    by (simp add: send_eager_record_def on_kernel_def split_def Let_def warn_def split: sum.split)
  ultimately show ?thesis
    by (simp add: publish_record_def split_def Let_def account_record_flags_def)
qed

section \<open>A session for evaluation\<close>

definition demo_session :: session where
  "demo_session = \<lparr>
     se_bridge = demo_bridge (quiet_kernel\<lparr>k_recvs := (\<lambda>_. Received
       \<lparr>rv_bytes = ack_bytes 1 1, rv_truncated = False, rv_cmsgs = []\<rparr>)\<rparr>),
     se_client = demo_client (quiet_kernel\<lparr>k_calls := (\<lambda>_. Returned 24)\<rparr>) demo_ring, se_wire = [], se_log = [], se_taken = []\<rparr>"

lemma demo_session_initial: "session_initial demo_session"
  by (simp add: session_initial_def demo_session_def demo_bridge_inv demo_bridge_ring)
    (simp add: demo_client_def demo_bridge_def queue_ok_def demo_ring_facts)

definition demo_session1 :: session where
  "demo_session1 = demo_session\<lparr>se_bridge := publish_record demo_record (se_bridge demo_session),
     se_log := log_after [] (publish_record demo_record (se_bridge demo_session))\<rparr>"

lemma demo_session1_reachable: "session_reachable demo_session demo_session1"
proof -
  have "attempts (se_bridge demo_session) + 2 < 2 ^ 62" "se_log demo_session = []"
    by (simp_all add: demo_session_def demo_bridge_inv)
  from session_step.publication [OF this(1) refl, of demo_record] this(2)
  have "session_step demo_session demo_session1" by (simp add: demo_session1_def)
  then show ?thesis using session_reachable.step [OF session_reachable.start] by blast
qed

section \<open>Properties\<close>

text \<open>C1: However input, publications, drains, frames, acknowledgements and their receipt interleave,
  what the client's drains have delivered is exactly the published log from where its cursor started
  up to where it is now; the newest records of the log are in the shared ring; the shared tail never
  passes the cursor, so nothing unread is ever overwritten; and the bridge accepts every
  acknowledgement.\<close>

theorem session_delivers_log:
  assumes "session_reachable s0 s" "session_initial s0"
  shows "se_taken s = drop (unat (c_local_tail (se_client s0)))
      (take (unat (c_local_tail (se_client s))) (se_log s)) \<and>
    ring_hist (b_ring (se_bridge s)) (se_log s) \<and>
    sorted_wrt (<) (map r_sequence (se_log s)) \<and>
    ring_tail (b_ring (se_bridge s)) \<le> c_local_tail (se_client s) \<and>
    unat (c_local_tail (se_client s)) \<le> length (se_log s) \<and>
    bs_invalid_acknowledgements (b_stats (se_bridge s)) =
      bs_invalid_acknowledgements (b_stats (se_bridge s0))"
  using session_reachable_inv [OF assms]
  by (auto simp: session_inv_def bridge_inv_def log_ordered_def tails_ordered_def)

lemma session_delivers_log_witness:
  "ring_hist (b_ring (se_bridge demo_session1)) (se_log demo_session1) \<and>
   bs_invalid_acknowledgements (b_stats (se_bridge demo_session1)) = 0"
  using session_delivers_log [OF demo_session1_reachable demo_session_initial]
  by (simp add: demo_session_def demo_bridge_def zero_stats_def)

text \<open>C10: In every state of a session a drain of the ring, given fuel for a full ring, succeeds (it never
  ends the client with a cursor error), delivers every record it had not read, in order, and leaves the
  cursor at the head.\<close>

theorem session_drain_succeeds:
  assumes "session_reachable s0 s" "session_initial s0"
    "ring_capacity (b_ring (se_bridge s)) < unat drain_buffer * fuel"
  shows "\<exists>c'. drain_ring fuel reason False False (sees (se_bridge s) (se_client s)) =
      Done (length (se_log s) - unat (c_local_tail (se_client s)), c') \<and>
    q_records (c_pending c') = q_records (c_pending (se_client s)) @
      drop (unat (c_local_tail (se_client s))) (se_log s) \<and>
    c_local_tail c' = ring_head (b_ring (se_bridge s))"
proof -
  note inv = session_reachable_inv [OF assms(1,2)]
  have "unat (ring_head (b_ring (se_bridge s))) = length (se_log s)"
    using inv by (simp add: session_inv_def bridge_inv_def ring_hist_def)
  then show ?thesis
    using session_drain [OF inv assms(3), of reason] by (metis unsigned_word_eqI)
qed

lemma demo_session1_capacity: "ring_capacity (b_ring (se_bridge demo_session1)) = 2"
  using publish_record_side [of "se_bridge demo_session" demo_record]
  by (simp add: demo_session1_def same_side_def ring_capacity_def)
    (simp add: demo_session_def demo_bridge_ring demo_ring_facts(4) [unfolded ring_capacity_def])

lemma session_drain_succeeds_witness:
  "\<exists>n c'. drain_ring 1 RECEIPT_FRAME_RING False False (sees (se_bridge demo_session1) (se_client demo_session1)) =
     Done (n, c')"
  using session_drain_succeeds [OF demo_session1_reachable demo_session_initial, of 1 RECEIPT_FRAME_RING]
  by (auto simp: demo_session1_capacity drain_buffer_def)

text \<open>C11: The ring is reclaimed: when no message is under way, a drain, the acknowledgement after it and
  its receipt by the bridge leave nothing unread in the shared ring, so the whole capacity is free
  again.\<close>

theorem session_reclaims_ring:
  assumes "session_reachable s0 s" "session_initial s0" "se_wire s = []"
    "ring_capacity (b_ring (se_bridge s)) < unat drain_buffer * fuel"
    "drain_ring fuel reason False False (sees (se_bridge s) (se_client s)) = Done (n, c1)"
    "send_ack_if_needed c1 = Done c2" "c_local_tail c1 \<noteq> c_last_acked_tail c1"
    "k_trace (c_kernel c2) = k_trace (c_kernel c1) @ [Sent (c_socket_fd c2) MSG_NOSIGNAL m []]"
    "k_recvs (b_kernel (se_bridge s)) (k_recvs_made (b_kernel (se_bridge s))) =
      Received \<lparr>rv_bytes = m, rv_truncated = False, rv_cmsgs = []\<rparr>"
  shows "ring_contents (b_ring (snd (handle_control_message (se_bridge s)))) = [] \<and>
    c_last_acked_tail c2 = ring_tail (b_ring (snd (handle_control_message (se_bridge s))))"
proof -
  let ?b = "se_bridge s" and ?c = "counted (se_bridge s)"
  note inv = session_reachable_inv [OF assms(1,2)]
  have c1: "unat (c_local_tail c1) = length (se_log s)" "c_generation c1 = b_generation ?b"
    using session_drain [OF inv assms(4), of reason] assms(5) inv by (auto simp: session_inv_def)
  have m: "m = ack_bytes (b_generation ?b) (c_local_tail c1)" "c_last_acked_tail c2 = c_local_tail c1"
    using send_ack_done [OF assms(6)] assms(7,8) c1(2) by auto
  let ?ack = "\<lparr>ack_header = \<lparr>mh_type = HFIOR_MSG_ACK, mh_size = of_nat sizeof_ack_message\<rparr>,
     ack_generation = b_generation ?b, ack_consumed_tail = c_local_tail c1\<rparr>"
  have b': "snd (handle_control_message ?b) = handle_ack ?ack ?c"
    using receive_ack [of ?b "b_generation ?b" "c_local_tail c1"] assms(9) m(1) by simp
  have core: "bridge_inv (se_log s) ?c" "attempts ?c + 1 < 2 ^ 64" "b_generation ?c = b_generation ?b"
    using inv counted_core [of ?b] by (simp_all add: session_inv_def same_core_def bridge_inv_def same_side_def)
  have "ring_hist (b_ring ?c) (se_log s)" using core(1) by (simp add: bridge_inv_def)
  then have "ring_tail (b_ring ?c) \<le> c_local_tail c1"
    using c1(1) by (simp add: ring_hist_def word_le_nat_alt)
  from handle_ack_accepted [OF core(1,2), of ?ack] this core(3) c1(1) show ?thesis
    unfolding b' m(2) by simp
qed

definition demo_drained :: client where
  "demo_drained = (case drain_ring 1 RECEIPT_FRAME_RING False False
      (sees (se_bridge demo_session1) (se_client demo_session1)) of Done (n, c) \<Rightarrow> c)"

definition demo_acked :: client where
  "demo_acked = (case send_ack_if_needed demo_drained of Done c \<Rightarrow> c)"

lemma demo_drained_facts:
  "drain_ring 1 RECEIPT_FRAME_RING False False (sees (se_bridge demo_session1) (se_client demo_session1)) =
     Done (length (se_log demo_session1) - unat (c_local_tail (se_client demo_session1)), demo_drained)"
  "c_local_tail demo_drained = 1" "c_last_acked_tail demo_drained = 0" "c_generation demo_drained = 1"
  "k_calls (c_kernel demo_drained) (k_calls_made (c_kernel demo_drained)) = Returned 24"
proof -
  have "ring_capacity (b_ring (se_bridge demo_session1)) < unat drain_buffer * 1"
    by (simp add: demo_session1_capacity drain_buffer_def)
  from session_drain [OF session_reachable_inv [OF demo_session1_reachable demo_session_initial] this,
      of RECEIPT_FRAME_RING]
  show "drain_ring 1 RECEIPT_FRAME_RING False False (sees (se_bridge demo_session1) (se_client demo_session1)) =
     Done (length (se_log demo_session1) - unat (c_local_tail (se_client demo_session1)), demo_drained)"
    by (auto simp: demo_drained_def)
  show "c_local_tail demo_drained = 1" "c_last_acked_tail demo_drained = 0" "c_generation demo_drained = 1"
    by code_simp+
  have "(case k_calls (c_kernel demo_drained) (k_calls_made (c_kernel demo_drained)) of
      Returned n \<Rightarrow> n = 24 | _ \<Rightarrow> False)" by code_simp
  then show "k_calls (c_kernel demo_drained) (k_calls_made (c_kernel demo_drained)) = Returned 24"
    by (auto split: syscall.splits)
qed

lemma session_reclaims_ring_witness:
  "ring_contents (b_ring (snd (handle_control_message (se_bridge demo_session1)))) = []"
proof -
  have ack: "send_ack_if_needed demo_drained = Done demo_acked"
    "k_trace (c_kernel demo_acked) = k_trace (c_kernel demo_drained) @
      [Sent (c_socket_fd demo_acked) MSG_NOSIGNAL (ack_bytes 1 1) []]"
    by (simp_all add: demo_acked_def send_ack_if_needed_def demo_drained_facts client_asks_def kernel_call_def
        ack_bytes_def sizeof_ack_message_def)
  have recv: "k_recvs (b_kernel (se_bridge demo_session1)) (k_recvs_made (b_kernel (se_bridge demo_session1))) =
      Received \<lparr>rv_bytes = ack_bytes 1 1, rv_truncated = False, rv_cmsgs = []\<rparr>"
    by (simp add: demo_session1_def demo_session_def publish_record_recvs)
      (simp add: demo_bridge_def quiet_kernel_def)
  have "ring_capacity (b_ring (se_bridge demo_session1)) < unat drain_buffer * 1" "se_wire demo_session1 = []"
    by (simp add: demo_session1_capacity drain_buffer_def) (simp add: demo_session1_def demo_session_def)
  from session_reclaims_ring [OF demo_session1_reachable demo_session_initial this(2,1) demo_drained_facts(1) ack(1) _ ack(2) recv]
  show ?thesis by (simp add: demo_drained_facts)
qed

text \<open>C12: A device reconnection loses the acknowledgements of a client that has not heard of it: it raises
  the generation, so the bridge rejects the acknowledgement and frees nothing, while the client believes
  it delivered and sends nothing more until its cursor moves again.\<close>

theorem reconnect_loses_acknowledgements:
  assumes "bridge_inv rlog b" "attempts b + 1 < 2 ^ 64" "bc_device_path (b_config b) \<noteq> None"
    "try_reconnect_device b = (Inr (), b1)" "c_generation c = b_generation b"
    "c_local_tail c \<noteq> c_last_acked_tail c" "send_ack_if_needed c = Done c'"
    "k_trace (c_kernel c') = k_trace (c_kernel c) @ [Sent (c_socket_fd c') MSG_NOSIGNAL m []]"
    "k_recvs (b_kernel b1) (k_recvs_made (b_kernel b1)) =
      Received \<lparr>rv_bytes = m, rv_truncated = False, rv_cmsgs = []\<rparr>"
  shows "ring_contents (b_ring (snd (handle_control_message b1))) = ring_contents (b_ring b1) \<and>
    bs_invalid_acknowledgements (b_stats (snd (handle_control_message b1))) =
      bs_invalid_acknowledgements (b_stats b1) + 1 \<and>
    send_ack_if_needed c' = Done c'"
proof -
  have "keeps 0 b b1" using try_reconnect_device_keeps [of b] assms(4) by simp
  then have b1: "bridge_inv rlog b1" "attempts b1 + 1 < 2 ^ 64"
    using keeps_exact [OF _ assms(1,2)] assms(2) by (auto simp: keeps_def)
  obtain b0 where open': "open_input_device b = (Inr (), b0)"
    using assms(3,4) by (auto simp: try_reconnect_device_def split_def Let_def prod_eq_iff split: sum.splits)
  have "b_generation b0 = b_generation b"
    using open_input_device_core [of b] open' by (simp add: same_core_def)
  moreover have "b_generation (send_device_state fl d) = b_generation d" for fl d
    by (simp add: send_device_state_def Let_def split_def write_urgent_side [unfolded same_side_def] warn_def
        on_kernel_def split: sum.split)
  ultimately have gen: "b_generation b1 = b_generation b + 1"
    using assms(3,4) open' by (auto simp: try_reconnect_device_def Let_def)
  let ?g = "b_generation b" and ?ack = "\<lparr>ack_header = \<lparr>mh_type = HFIOR_MSG_ACK, mh_size = of_nat sizeof_ack_message\<rparr>,
     ack_generation = b_generation b, ack_consumed_tail = c_local_tail c\<rparr>"
  have m: "m = ack_bytes ?g (c_local_tail c)" "c_last_acked_tail c' = c_local_tail c'"
    using send_ack_done [OF assms(7)] assms(5,6,8) by auto
  have b': "snd (handle_control_message b1) = handle_ack ?ack (counted b1)"
    using receive_ack [of b1 ?g "c_local_tail c"] assms(9) m(1) by simp
  have core: "bridge_inv rlog (counted b1)" "attempts (counted b1) + 1 < 2 ^ 64"
    "b_generation (counted b1) = b_generation b1"
    "bs_invalid_acknowledgements (b_stats (counted b1)) = bs_invalid_acknowledgements (b_stats b1)"
    using b1 counted_core [of b1] by (simp_all add: same_core_def bridge_inv_def same_side_def)
  have "\<not> ack_valid rlog (counted b1) ?ack" using gen core(3) by (simp add: ack_valid_def)
  then show ?thesis
    using handle_ack_exact [OF core(1,2), of ?ack] core(4) m(2)
    unfolding b' by (simp add: counted_core send_ack_if_needed_def)
qed

definition demo_device_bridge :: bridge where
  "demo_device_bridge = (demo_bridge (quiet_kernel\<lparr>k_opens := (\<lambda>_. Inr \<lparr>do_fd = 9, do_clock_set = True,
       do_id = \<lparr>id_bustype = 3, id_vendor = 1, id_product = 2, id_version = 1\<rparr>, do_name = None\<rparr>),
     k_recvs := (\<lambda>_. Received \<lparr>rv_bytes = ack_bytes 1 1, rv_truncated = False, rv_cmsgs = []\<rparr>)\<rparr>))
     \<lparr>b_config := (b_config (demo_bridge quiet_kernel))\<lparr>bc_device_path := Some ''mouse''\<rparr>\<rparr>"

lemma reconnect_loses_acknowledgements_witness:
  "bs_invalid_acknowledgements (b_stats (snd (handle_control_message
     (snd (try_reconnect_device demo_device_bridge))))) = 1"
proof -
  let ?b1 = "snd (try_reconnect_device demo_device_bridge)"
  let ?c = "(demo_client (quiet_kernel\<lparr>k_calls := (\<lambda>_. Returned 24)\<rparr>) demo_ring)\<lparr>c_local_tail := 1\<rparr>"
  let ?c' = "case send_ack_if_needed ?c of Done c \<Rightarrow> c"
  have c: "c_local_tail ?c \<noteq> c_last_acked_tail ?c" "c_generation ?c = 1"
    "k_calls (c_kernel ?c) (k_calls_made (c_kernel ?c)) = Returned 24" by (simp_all add: demo_client_def)
  have ack: "send_ack_if_needed ?c = Done ?c'"
    "k_trace (c_kernel ?c') = k_trace (c_kernel ?c) @ [Sent (c_socket_fd ?c') MSG_NOSIGNAL (ack_bytes 1 1) []]"
    using c by (simp_all add: send_ack_if_needed_def client_asks_def kernel_call_def ack_bytes_def sizeof_ack_message_def)
  have b: "bridge_inv [] demo_device_bridge" "attempts demo_device_bridge = 0" "b_generation demo_device_bridge = 1"
    "bc_device_path (b_config demo_device_bridge) \<noteq> None"
    using demo_bridge_inv by (simp_all add: demo_device_bridge_def bridge_inv_def attempts_def)
      (simp add: demo_bridge_def)
  have again: "try_reconnect_device demo_device_bridge = (Inr (), ?b1)"
    by (simp add: try_reconnect_device_def open_input_device_def demo_device_bridge_def demo_bridge_def
        quiet_kernel_def on_kernel_def kernel_open_def)
  have recv: "k_recvs (b_kernel ?b1) (k_recvs_made (b_kernel ?b1)) =
      Received \<lparr>rv_bytes = ack_bytes 1 1, rv_truncated = False, rv_cmsgs = []\<rparr>"
    by (simp add: try_reconnect_device_def open_input_device_def demo_device_bridge_def demo_bridge_def
        quiet_kernel_def on_kernel_def kernel_open_def send_device_state_def)
  have "bs_invalid_acknowledgements (b_stats ?b1) = 0"
    by (simp add: try_reconnect_device_def open_input_device_def demo_device_bridge_def demo_bridge_def
        quiet_kernel_def on_kernel_def kernel_open_def send_device_state_def zero_stats_def)
  then show ?thesis
    using reconnect_loses_acknowledgements [OF b(1) _ b(4) again _ c(1) ack recv] b(2,3) c(2) by simp
qed

section \<open>Sequence numbers\<close>

text \<open>C13: What the client counts as gaps is what the bridge dropped: over the whole published log the
  bridge's drop counter is the client's gap counter plus the drops before the first and after the last
  record that was published, and the client sees nothing repeated or out of order.\<close>

theorem client_gaps_are_drops:
  assumes inv: "bridge_inv rlog b" and room: "attempts b + 1 < 2 ^ 64" and "rlog \<noteq> []"
    and fresh: "c_stats c = zero_cstats"
  shows "unat (bs_ring_drops (b_stats b)) =
      unat (cs_sequence_gaps (c_stats (account_sequences rlog c))) +
      (unat (r_sequence (hd rlog)) - 1) + (attempts b - unat (r_sequence (last rlog))) \<and>
    cs_duplicate_or_reordered (c_stats (account_sequences rlog c)) = 0"
proof -
  let ?s = "c_stats (account_sequences rlog c)" and ?S = "(unat \<circ> r_sequence) ` set rlog"
  have order: "sorted_wrt (<) (map r_sequence rlog)"
    "\<forall>r \<in> set rlog. 0 < r_sequence r \<and> r_sequence r < pl_next_sequence (producer (b_ring b))"
    "pl_next_sequence (producer (b_ring b)) = bs_records_attempted (b_stats b) + 1"
    using inv unfolding bridge_inv_def log_ordered_def counters_agree_def by blast+
  have nz: "\<forall>r \<in> set rlog. r_sequence r \<noteq> 0" using order(2) by auto
  have gaps: "unat (cs_sequence_gaps ?s) = card ({unat (r_sequence (hd rlog))..unat (r_sequence (last rlog))} - ?S)"
    "cs_duplicate_or_reordered ?s = 0"
    using account_sequences_exact [OF order(1) nz assms(3) fresh] by (simp_all add: Let_def)
  have nx: "unat (pl_next_sequence (producer (b_ring b))) = attempts b + 1"
    unfolding order(3) using room by (simp add: attempts_def unat_Suc_small)
  have last: "unat (r_sequence (last rlog)) \<le> attempts b"
    using order(2) [rule_format, OF last_in_set [OF assms(3)]] nx by (simp add: word_less_nat_alt)
  have first: "1 \<le> unat (r_sequence (hd rlog))"
    using nz assms(3) by (simp add: unat_gt_0 Suc_le_eq)
  have "card ({1..attempts b} - ?S) = unat (bs_ring_drops (b_stats b))"
    using missing_sequences [OF inv room] .
  moreover have "?S \<subseteq> {1..attempts b}"
    using order(2) nx by (auto simp: word_less_nat_alt Suc_le_eq less_Suc_eq_le)
  moreover have "card ?S = length rlog"
  proof -
    have "distinct (map r_sequence rlog)" using order(1) by (simp add: strict_sorted_iff)
    then have "distinct (map (unat \<circ> r_sequence) rlog)"
      by (auto simp: distinct_map inj_on_def intro: unsigned_word_eqI)
    from distinct_card [OF this] show ?thesis by simp
  qed
  ultimately have "unat (bs_ring_drops (b_stats b)) = attempts b - length rlog"
    by (simp add: card_Diff_subset)
  then show ?thesis
    using card_missing [OF order(1) assms(3)] gaps last first by simp
qed

lemma client_gaps_are_drops_witness:
  "unat (bs_ring_drops (b_stats (publish_record demo_record (demo_bridge quiet_kernel)))) =
     unat (cs_sequence_gaps (c_stats (account_sequences [sequenced (demo_bridge quiet_kernel) demo_record]
       (demo_client quiet_kernel demo_ring)))) +
     (unat (r_sequence (sequenced (demo_bridge quiet_kernel) demo_record)) - 1) +
     (attempts (publish_record demo_record (demo_bridge quiet_kernel)) -
       unat (r_sequence (sequenced (demo_bridge quiet_kernel) demo_record)))"
proof -
  let ?b = "publish_record demo_record (demo_bridge quiet_kernel)" and ?r = "sequenced (demo_bridge quiet_kernel) demo_record"
  have inv: "bridge_inv [?r] ?b"
    using publish_record_log [OF demo_bridge_inv(1), of quiet_kernel demo_record]
    by (simp add: demo_bridge_inv demo_bridge_ring)
  have "attempts ?b \<le> 1"
    using publish_record_keeps [of "demo_bridge quiet_kernel" demo_record] by (simp add: keeps_def demo_bridge_inv)
  then have "attempts ?b + 1 < 2 ^ 64" by simp
  from client_gaps_are_drops [OF inv this, of "demo_client quiet_kernel demo_ring"] show ?thesis
    by (simp add: demo_client_def)
qed

section \<open>Eager records\<close>



end
