(* ===== verification/Spec2Isabelle.thy ===== *)
theory Spec2Isabelle
  imports Prelude Abi Interfaces Ring Interleaving Policy Transport Metrics Bridge Bridge_Invariant
    Bridge_Main Frames Client Client_Reading Client_Accounting Client_Session
    Numbers Client_Options Client_Frame Client_Latch Client_Policies
    Client_Output Client_Main Client_Run Client_Rows Bridge_Setup Bridge_Process
    Examples Evdev_Probe
    Session Session_Properties
begin

text \<open>
  HFIOR moves mouse input from one producer process (the bridge) to one consumer process
  through a shared-memory ring of 32-byte records, an eventfd for urgent records and a
  \<open>SOCK_SEQPACKET\<close> control socket. The paths below are relative to \<open>src/\<close>.

  \<^bold>\<open>Shared ground.\<close>
  \<^item> \<open>Prelude\<close>: machine integers, error numbers, interrupted system calls, the arithmetic of
    power-of-two indices.
  \<^item> \<open>Abi\<close>: \<open>include/hfior/abi.h\<close>, the records, the ring header, the control messages and
    their byte layout on a little-endian host; decoding inverts encoding.
  \<^item> \<open>Interfaces\<close>: the contracts as locales, \<open>bounded_fifo\<close> (a queue that refuses the newest
    element when full) and \<open>snapshot_log\<close> (a log read through a private cursor).
  \<^item> \<open>Transport\<close>: the kernel as a process sees it (the answers to its calls are functions of how many
    it made; what it does to the outside is a trace), and the clock, socket, descriptor and naming
    helpers of \<open>src/common.c\<close>. An \<open>outcome\<close> is how a computation of a process ends.
  \<^item> \<open>Numbers\<close>: \<open>strtoul\<close>, \<open>strtol\<close> and \<open>strtod\<close> as the option parsers use them, and the \<open>printf\<close>
    formats of the reports.
  \<^item> \<open>Metrics\<close>: the sample vector and its statistics, with the rounding of \<open>double\<close>.

  \<^bold>\<open>The ring.\<close>
  \<^item> \<open>Ring\<close>: the ring operations of \<open>src/common.c\<close>; it interprets both contracts. \<open>ring_hist h log\<close>
    says that the log of everything published has its newest records in the ring.
  \<^item> \<open>Interleaving\<close>: publication and reading cut into single shared accesses, as a step
    relation with torn slot writes and stale counter loads, and its invariant.
  \<^item> \<open>Policy\<close>: the consumer cursor of \<open>src/policy.c\<close>.
  \<^item> \<open>Examples\<close>: the programs of \<open>examples/\<close>, and what they print.

  \<^bold>\<open>The bridge, \<open>reference/bridge/main.c\<close>.\<close>
  \<^item> \<open>Bridge\<close>: state, input events, frames, publication, reconnection, control messages.
    \<open>Bridge_Main\<close>: the hello, the start barrier, the event loop, the shutdown. \<open>Bridge_Setup\<close>: the command
    line, the descriptors, the listening socket, the reports and \<open>main\<close>.
  \<^item> \<open>Bridge_Invariant\<close>: \<open>bridge_inv\<close> (the ring holds the published log, whose sequence numbers increase,
    and the counters of the mapping agree with the statistics); \<open>keeps n\<close> says that an operation keeps
    it and attempts at most \<open>n\<close> records. \<open>Bridge_Main\<close> lifts it to a whole run, \<open>Bridge_Process\<close> to the
    whole process and to the lines it prints; \<open>ends\<close> there is the rule for steps that may fail.
  \<^item> \<open>Frames\<close>: what a frame of input events, an acknowledgement and a publication do.
  \<^item> \<open>Evdev_Probe\<close>: \<open>tools/evdev/evdev-rate-probe.c\<close>, which reads the same devices, and its counts.

  \<^bold>\<open>The client, \<open>reference/latency-client/main.c\<close>.\<close>
  \<^item> \<open>Client\<close>: state, queue, drain, acknowledgement, control socket. \<open>Client_Frame\<close>: \<open>run_frame_policy\<close>
    with the ingress thread. \<open>Client_Options\<close>, \<open>Client_Output\<close>, \<open>Client_Main\<close>: the command line, the files
    and the summary, the frame loop, the shutdown and \<open>main\<close>.
  \<^item> \<open>Client_Reading\<close>, \<open>Client_Accounting\<close>: a drain delivers the next records of the log and accounts for
    each. \<open>Client_Session\<close>: the hello, the start and the waits. \<open>Client_Latch\<close>, \<open>Client_Policies\<close>: what a
    frame takes under each HFIOR policy. \<open>Client_Run\<close>: what a whole measured run takes. \<open>Client_Rows\<close>:
    the files read back.

  \<^bold>\<open>Both together.\<close>
  \<^item> \<open>Session\<close>, \<open>Session_Properties\<close>: a step relation over both processes and the messages between
    them; delivery of the log, reclaiming of the ring, what a reconnection loses.

  \<^bold>\<open>Bounds and fuel.\<close> A loop that may run on takes fuel and is \<open>None\<close> or \<open>Unfinished\<close> without it.
  \<^item> A drain of the client needs one unit for every 4096 records, a frame of it one for every clock reading
    in the longest of its waits, the loop over the frames one pass for every reading before the end:
    \<open>measured_run_reads_log\<close> shows that this suffices.
  \<^item> A run of the bridge attempts at most \<open>fuel * pass_records fuel + 1\<close> records, below \<open>2^64\<close> for a fuel up
    to \<open>2^27\<close>; the session guards its logs to \<open>2^62\<close> records. Both keep the 64-bit counters from
    wrapping; the ring itself is shown correct across the wrap.
  \<^item> The wait for the terminal acknowledgement ends one pass after the clock reaches its deadline.

  \<^bold>\<open>How the outside is modelled.\<close> The kernel's answers, the successive views of the ring a reader loads and
  the start of the ingress thread are parameters. The ingress thread runs in whole passes where the
  frame thread takes the mutex or waits; a drain of the frame thread holds that mutex in the code. An allocation
  that fails ends the process. \<open>double\<close> is a rational number rounded after every operation.

  \<^bold>\<open>Not modelled.\<close>
  \<^item> The order of memory accesses below the granularity of \<open>Interleaving\<close> (the atomics of C with acquire
    and release order appear as whole steps).
  \<^item> Races on the counters of the client outside the mutex, and the eager-thread policy under such races.
  \<^item> The text of the usage messages and of \<open>perror\<close>; a failing exit is named by the call that failed, and
    a bridge that ends in \<open>fatal\<close> within its run is not told apart from one out of fuel.
  \<^item> \<open>benchmarks/game\<close> (a port of the client into a third-party game), the C++ guards and declarations of the
    headers, and the Python and shell scripts around recorded data.
\<close>

end
